(* ===== verification/Zx_Prelude.thy ===== *)
theory Zx_Prelude
  imports Main "HOL-Library.Word"
begin

text \<open>
  Shared vocabulary of the development: the status codes of the kernel interface, the machine
  word types, user memory as the kernel sees it through its user pointers, and the generic
  facts about lists and bits that the component theories use.
\<close>

unbundle bit_operations_syntax

named_theorems zx_defs "constants of the public headers, unfolded when a mask is evaluated"
named_theorems kobj_frame "what an operation on kernel objects leaves unchanged"

section \<open>Status codes and machine types\<close>

text \<open>The \<^verbatim>\<open>zx_status_t\<close> values the modelled code returns.\<close>

datatype zx_status =
    ZX_OK
  | ZX_ERR_INTERNAL
  | ZX_ERR_NOT_SUPPORTED
  | ZX_ERR_NO_MEMORY
  | ZX_ERR_INVALID_ARGS
  | ZX_ERR_BAD_HANDLE
  | ZX_ERR_WRONG_TYPE
  | ZX_ERR_OUT_OF_RANGE
  | ZX_ERR_BUFFER_TOO_SMALL
  | ZX_ERR_BAD_STATE
  | ZX_ERR_TIMED_OUT
  | ZX_ERR_SHOULD_WAIT
  | ZX_ERR_CANCELED
  | ZX_ERR_PEER_CLOSED
  | ZX_ERR_NOT_FOUND
  | ZX_ERR_ALREADY_EXISTS
  | ZX_ERR_ALREADY_BOUND
  | ZX_ERR_NO_RESOURCES
  | ZX_ERR_ACCESS_DENIED
  | ZX_ERR_INTERNAL_INTR_RETRY
  | ZX_ERR_INTERNAL_INTR_KILLED

type_synonym u8 = "8 word"
type_synonym u32 = "32 word"
type_synonym u64 = "64 word"
type_synonym zx_signals = "32 word"
type_synonym zx_rights = "32 word"
type_synonym koid = nat

section \<open>Object signals\<close>

text \<open>The signal bits of \<^verbatim>\<open>zircon/types.h\<close>, and the update every object applies to its signals.\<close>

named_theorems sig_bits "membership of a bit in a signal expression"

definition ZX_OBJECT_READABLE :: zx_signals where [zx_defs]: "ZX_OBJECT_READABLE = push_bit 0 1"
definition ZX_OBJECT_WRITABLE :: zx_signals where [zx_defs]: "ZX_OBJECT_WRITABLE = push_bit 1 1"
definition ZX_OBJECT_PEER_CLOSED :: zx_signals where [zx_defs]: "ZX_OBJECT_PEER_CLOSED = push_bit 2 1"
definition ZX_OBJECT_SIGNALED :: zx_signals where [zx_defs]: "ZX_OBJECT_SIGNALED = push_bit 3 1"
definition ZX_OBJECT_SIGNAL_4 :: zx_signals where [zx_defs]: "ZX_OBJECT_SIGNAL_4 = push_bit 4 1"
definition ZX_OBJECT_SIGNAL_5 :: zx_signals where [zx_defs]: "ZX_OBJECT_SIGNAL_5 = push_bit 5 1"
definition ZX_OBJECT_SIGNAL_10 :: zx_signals where [zx_defs]: "ZX_OBJECT_SIGNAL_10 = push_bit 10 1"
definition ZX_OBJECT_SIGNAL_11 :: zx_signals where [zx_defs]: "ZX_OBJECT_SIGNAL_11 = push_bit 11 1"
definition ZX_SIGNAL_HANDLE_CLOSED :: zx_signals where [zx_defs]: "ZX_SIGNAL_HANDLE_CLOSED = push_bit 23 1"
definition ZX_USER_SIGNAL_ALL :: zx_signals where [zx_defs]: "ZX_USER_SIGNAL_ALL = 0xff000000"

definition signals_update :: "zx_signals \<Rightarrow> zx_signals \<Rightarrow> zx_signals \<Rightarrow> zx_signals" where
  "signals_update clear_mask set_mask s = (s AND NOT clear_mask) OR set_mask"

lemma bit_flag: "bit (push_bit k (1 :: 'a::len word)) n \<longleftrightarrow> n = k \<and> k < LENGTH('a)"
  by (auto simp: bit_simps)

lemma and_flag_eq_iff: "(s AND push_bit k (1 :: 'a::len word) = 0) \<longleftrightarrow> \<not> bit s k"
  by (metis bit_iff_and_push_bit_not_eq_0)

lemma bit_signals_update [sig_bits]:
  "bit (signals_update c t s) n \<longleftrightarrow> (bit s n \<and> \<not> bit c n) \<or> bit t n"
  by (auto simp: signals_update_def bit_simps dest: bit_imp_possible_bit)

lemma bit_signal_consts [sig_bits]:
  "bit ZX_OBJECT_READABLE n \<longleftrightarrow> n = 0"
  "bit ZX_OBJECT_WRITABLE n \<longleftrightarrow> n = 1"
  "bit ZX_OBJECT_PEER_CLOSED n \<longleftrightarrow> n = 2"
  "bit ZX_OBJECT_SIGNALED n \<longleftrightarrow> n = 3"
  "bit ZX_OBJECT_SIGNAL_4 n \<longleftrightarrow> n = 4"
  "bit ZX_OBJECT_SIGNAL_5 n \<longleftrightarrow> n = 5"
  "bit ZX_OBJECT_SIGNAL_10 n \<longleftrightarrow> n = 10"
  "bit ZX_OBJECT_SIGNAL_11 n \<longleftrightarrow> n = 11"
  "bit ZX_SIGNAL_HANDLE_CLOSED n \<longleftrightarrow> n = 23"
  by (simp_all only: zx_defs bit_flag) auto

lemma and_signal_consts [sig_bits]:
  "s AND ZX_OBJECT_READABLE = 0 \<longleftrightarrow> \<not> bit s 0"
  "s AND ZX_OBJECT_WRITABLE = 0 \<longleftrightarrow> \<not> bit s 1"
  "s AND ZX_OBJECT_PEER_CLOSED = 0 \<longleftrightarrow> \<not> bit s 2"
  "s AND ZX_OBJECT_SIGNALED = 0 \<longleftrightarrow> \<not> bit s 3"
  "s AND ZX_OBJECT_SIGNAL_4 = 0 \<longleftrightarrow> \<not> bit s 4"
  "s AND ZX_OBJECT_SIGNAL_5 = 0 \<longleftrightarrow> \<not> bit s 5"
  "s AND ZX_OBJECT_SIGNAL_10 = 0 \<longleftrightarrow> \<not> bit s 10"
  "s AND ZX_OBJECT_SIGNAL_11 = 0 \<longleftrightarrow> \<not> bit s 11"
  "s AND ZX_SIGNAL_HANDLE_CLOSED = 0 \<longleftrightarrow> \<not> bit s 23"
  by (simp_all only: zx_defs and_flag_eq_iff)

lemma bit_and_flag [sig_bits]: "bit (a AND b :: 'a::len word) n \<longleftrightarrow> bit a n \<and> bit b n"
  by (rule bit_and_iff)

lemma bit_or_flag [sig_bits]: "bit (a OR b :: 'a::len word) n \<longleftrightarrow> bit a n \<or> bit b n"
  by (rule bit_or_iff)

lemma bit_not_flag [sig_bits]: "bit (NOT a :: 'a::len word) n \<longleftrightarrow> n < LENGTH('a) \<and> \<not> bit a n"
  by (simp add: bit_simps)

section \<open>User memory\<close>

text \<open>
  A \<^verbatim>\<open>user_in_ptr\<close> is the user's memory from the pointer on: \<open>None\<close> is an address whose access
  faults. \<open>copy_array_from_user\<close> either reads the whole range or reports a fault.
\<close>

type_synonym user_in = "nat \<Rightarrow> u8 option"

definition copy_array_from_user :: "user_in \<Rightarrow> nat \<Rightarrow> nat \<Rightarrow> u8 list option" where
  "copy_array_from_user src off n =
     (if list_all (\<lambda>i. src (off + i) \<noteq> None) [0..<n]
      then Some (map (\<lambda>i. the (src (off + i))) [0..<n]) else None)"

text \<open>
  A \<^verbatim>\<open>user_out_ptr\<close> is the set of writable addresses from the pointer on; the bytes a successful
  call delivers are part of the call's result.
\<close>

type_synonym user_out = "nat \<Rightarrow> bool"

definition copy_array_to_user :: "user_out \<Rightarrow> nat \<Rightarrow> nat \<Rightarrow> bool" where
  "copy_array_to_user dst off n = list_all (\<lambda>i. dst (off + i)) [0..<n]"

definition user_of_list :: "u8 list \<Rightarrow> user_in" where
  "user_of_list bs = (\<lambda>i. if i < length bs then Some (bs ! i) else None)"

lemma copy_array_from_user_length:
  "copy_array_from_user src off n = Some bs \<Longrightarrow> length bs = n"
  by (auto simp: copy_array_from_user_def split: if_splits)

lemma copy_array_from_user_nth:
  "copy_array_from_user src off n = Some bs \<Longrightarrow> i < n \<Longrightarrow> src (off + i) = Some (bs ! i)"
  by (auto simp: copy_array_from_user_def list_all_iff split: if_splits)

lemma copy_array_from_user_zero [simp]: "copy_array_from_user src off 0 = Some []"
  by (simp add: copy_array_from_user_def)

lemma copy_array_from_user_of_list:
  "off + n \<le> length bs \<Longrightarrow> copy_array_from_user (user_of_list bs) off n = Some (take n (drop off bs))"
  by (auto simp: copy_array_from_user_def user_of_list_def list_all_iff intro!: nth_equalityI)

lemma copy_array_from_user_append:
  "copy_array_from_user src off m = Some xs \<Longrightarrow> copy_array_from_user src (off + m) n = Some ys \<Longrightarrow>
   copy_array_from_user src off (m + n) = Some (xs @ ys)"
proof -
  assume a: "copy_array_from_user src off m = Some xs"
    and b: "copy_array_from_user src (off + m) n = Some ys"
  have la: "length xs = m" and lb: "length ys = n"
    using a b by (auto dest: copy_array_from_user_length)
  have *: "src (off + i) = Some ((xs @ ys) ! i)" if "i < m + n" for i
  proof (cases "i < m")
    case True
    then show ?thesis using copy_array_from_user_nth [OF a] la by (simp add: nth_append)
  next
    case False
    then have "src (off + m + (i - m)) = Some (ys ! (i - m))"
      using copy_array_from_user_nth [OF b, of "i - m"] that by simp
    then show ?thesis using False la by (simp add: nth_append)
  qed
  show ?thesis
    unfolding copy_array_from_user_def using * la lb
    by (auto simp: list_all_iff intro!: nth_equalityI)
qed

lemma all_less_add: "(\<forall>i < m + n. P i) \<longleftrightarrow> (\<forall>i < m. P i) \<and> (\<forall>i < n. P (m + i :: nat))"
proof (intro iffI allI impI)
  fix i assume a: "(\<forall>i < m. P i) \<and> (\<forall>i < n. P (m + i))" "i < m + n"
  show "P i"
  proof (cases "i < m")
    case False
    then have "P (m + (i - m))" using a by (metis less_diff_conv2 not_less add.commute)
    then show ?thesis using False by simp
  qed (use a in simp)
qed simp

lemma copy_array_from_user_None_append:
  "copy_array_from_user src off (m + n) = None \<longleftrightarrow>
   copy_array_from_user src off m = None \<or> copy_array_from_user src (off + m) n = None"
  using all_less_add [of m n "\<lambda>i. src (off + i) \<noteq> None"]
  by (auto simp: copy_array_from_user_def list_all_iff atLeast0LessThan lessThan_def add.assoc)

lemma copy_array_from_user_split:
  assumes "copy_array_from_user src off (m + n) = Some bs"
  obtains xs ys where "copy_array_from_user src off m = Some xs" "copy_array_from_user src (off + m) n = Some ys" "bs = xs @ ys"
proof -
  obtain xs ys where xy: "copy_array_from_user src off m = Some xs" "copy_array_from_user src (off + m) n = Some ys"
    using copy_array_from_user_None_append [of src off m n] assms by fastforce
  then show thesis using that copy_array_from_user_append [OF xy] assms by simp
qed

lemma copy_array_to_user_append:
  "copy_array_to_user dst off (m + n) \<longleftrightarrow> copy_array_to_user dst off m \<and> copy_array_to_user dst (off + m) n"
  using all_less_add [of m n "\<lambda>i. dst (off + i)"]
  by (auto simp: copy_array_to_user_def list_all_iff atLeast0LessThan lessThan_def add.assoc)

section \<open>Bits of words\<close>

lemma and_not_or_distrib: "((s :: 'a::len word) AND NOT c) OR t = (s OR t) AND NOT (c AND NOT t)"
  by (rule bit_word_eqI) (auto simp: bit_simps)

lemma word_and_or_absorb [simp]: "((s :: 'a::len word) OR t) AND t = t"
  by (rule bit_word_eqI) (auto simp: bit_simps)

lemma and_eq_mask_iff:
  "((r :: 'a::len word) AND d = d) \<longleftrightarrow> (\<forall>n. bit d n \<longrightarrow> bit r n)"
proof
  assume "r AND d = d"
  then show "\<forall>n. bit d n \<longrightarrow> bit r n" by (metis bit_and_iff)
next
  assume "\<forall>n. bit d n \<longrightarrow> bit r n"
  then show "r AND d = d" by (auto intro!: bit_word_eqI simp: bit_simps)
qed

text \<open>Powers of two, and rounding to a multiple of one.\<close>

lemma and_pred_power2: "0 < n \<Longrightarrow> (n :: nat) AND (n - 1) = 0 \<Longrightarrow> \<exists>k. n = 2 ^ k"
proof (induction n rule: less_induct)
  case (less n)
  define m where "m = n div 2"
  have rec: "n AND (n - 1) = of_bool (odd n \<and> odd (n - 1)) + 2 * (m AND ((n - 1) div 2))"
    unfolding m_def by (rule and_rec)
  show ?case
  proof (cases "even n")
    case True
    then have m: "n = 2 * m" "(n - 1) div 2 = m - 1" using less.prems(1) by (simp_all add: m_def) presburger
    then have "m AND (m - 1) = 0" using rec less.prems(2) by simp
    then obtain k where "m = 2 ^ k" using less.IH [of m] less.prems(1) m(1) by auto
    then show ?thesis using m(1) by (metis power_Suc)
  next
    case False
    then have m: "n = 2 * m + 1" by (simp add: m_def)
    then have "(n - 1) div 2 = m" by simp
    then have "m = 0" using rec less.prems(2) False by simp
    then show ?thesis using m by (metis power_0 mult_zero_right add_0)
  qed
qed

lemma unat_and_not_mask:
  fixes w :: "'a::len word"
  shows "unat (w AND NOT (mask n)) = unat w - unat w mod 2 ^ n"
proof -
  have "w - (w AND mask n) = w AND NOT (w AND mask n)" by (rule disjunctive_diff) (simp add: bit_simps)
  also have "\<dots> = w AND NOT (mask n)" by (rule bit_word_eqI) (auto simp: bit_simps)
  finally have d: "w AND NOT (mask n) = w - (w AND mask n)" ..
  have m: "unat (w AND mask n) = unat w mod 2 ^ n"
    by (simp only: take_bit_eq_mask [symmetric] unsigned_take_bit_eq) (simp add: take_bit_eq_mod)
  have "w AND mask n \<le> w" using m by (simp add: word_le_nat_alt)
  then show ?thesis unfolding d by (simp add: unat_sub m)
qed

lemma round_up_nat:
  assumes "0 < (A :: nat)" "u = (B + A - 1) - (B + A - 1) mod A"
  shows "A dvd u \<and> B \<le> u \<and> u \<le> B + A - 1 \<and> (\<forall>M. A dvd M \<longrightarrow> B \<le> M \<longrightarrow> u \<le> M)"
proof -
  have u: "u = (B + A - 1) div A * A" using assms(2) by (simp add: minus_mod_eq_div_mult)
  have "(B + A - 1) mod A < A" using assms(1) by simp
  then have "B \<le> u" using assms by linarith
  moreover have "u \<le> M" if "A dvd M" "B \<le> M" for M
  proof -
    obtain k where k: "M = k * A" using \<open>A dvd M\<close> by (metis dvdE mult.commute)
    then have "B + A - 1 < (k + 1) * A" using that(2) assms(1) by simp
    then have "(B + A - 1) div A < k + 1" using assms(1) by (simp add: less_mult_imp_div_less)
    then show ?thesis using u k by (simp add: less_Suc_eq_le)
  qed
  ultimately show ?thesis using u assms by simp
qed

section \<open>Lists\<close>

lemma last_butlast_snoc: "xs \<noteq> [] \<Longrightarrow> xs = butlast xs @ [last xs]"
  by simp

lemma remove1_distinct_set: "distinct xs \<Longrightarrow> set (remove1 x xs) = set xs - {x}"
  by (rule set_remove1_eq)

lemma filter_remove1_notin: "\<not> P x \<Longrightarrow> filter P (remove1 x xs) = filter P xs"
  by (induction xs) auto

end
