(* ===== verification/Wait_Queue.thy ===== *)
theory Wait_Queue
  imports Zx_Prelude
begin

text \<open>
  The kernel's wait queues (\<^verbatim>\<open>zircon/kernel/kernel/wait.cc\<close> and
  \<^verbatim>\<open>zircon/kernel/include/kernel/wait_queue_internal.h\<close>): a queue is a list of heads, one per
  priority, highest first, each with the threads of the same priority that queue up behind it.
  Threads and queues live in stores indexed by their address. The operations run under the
  thread lock, so each is one atomic function on the state. Priority inheritance of owned
  queues and the choice the scheduler makes among ready threads are not modelled:
  \<open>sched_unblock\<close> hands a thread over by appending it to \<open>ready_threads\<close>.
\<close>

section \<open>Threads and queues\<close>

type_synonym tid = nat
type_synonym wq_id = nat

datatype thread_run_state = THREAD_INITIAL | THREAD_READY | THREAD_RUNNING | THREAD_BLOCKED
  | THREAD_BLOCKED_READ_LOCK | THREAD_SLEEPING | THREAD_SUSPENDED | THREAD_DEATH

datatype resource_ownership = Ownership_Normal | Ownership_Reader

record thread =
  effec_priority :: int
  thread_state :: thread_run_state
  blocking_wait_queue :: "wq_id option"
  blocked_status :: zx_status
  interruptable :: bool
  thread_signals :: u32

text \<open>A head with the followers on its \<open>queue_node\<close> ring.\<close>

type_synonym wq_heads = "(tid \<times> tid list) list"

record wait_queue =
  heads :: wq_heads
  wq_count :: int

record sched_world =
  threads :: "tid \<Rightarrow> thread"
  wait_queues :: "wq_id \<Rightarrow> wait_queue"
  ready_threads :: "tid list"

definition THREAD_SIGNAL_KILL :: u32 where "THREAD_SIGNAL_KILL = 1"
definition THREAD_SIGNAL_SUSPEND :: u32 where "THREAD_SIGNAL_SUSPEND = 2"
definition ZX_TIME_INFINITE :: int where "ZX_TIME_INFINITE = 2 ^ 63 - 1"

section \<open>Operations\<close>

subsection \<open>The list of heads\<close>

fun wait_queue_insert :: "(tid \<Rightarrow> int) \<Rightarrow> tid \<Rightarrow> wq_heads \<Rightarrow> wq_heads" where
  "wait_queue_insert pri t [] = [(t, [])]"
| "wait_queue_insert pri t ((temp, rest) # hs) =
     (if pri t > pri temp then (t, []) # (temp, rest) # hs
      else if pri temp = pri t then (temp, rest @ [t]) # hs
      else (temp, rest) # wait_queue_insert pri t hs)"

definition wait_queue_remove_head :: "tid \<times> tid list \<Rightarrow> wq_heads" where
  "wait_queue_remove_head q = (case snd q of [] \<Rightarrow> [] | newhead # rest \<Rightarrow> [(newhead, rest)])"

fun wait_queue_remove_thread :: "tid \<Rightarrow> wq_heads \<Rightarrow> wq_heads" where
  "wait_queue_remove_thread t [] = []"
| "wait_queue_remove_thread t ((h, rest) # hs) =
     (if h = t then wait_queue_remove_head (h, rest) @ hs
      else if t \<in> set rest then (h, remove1 t rest) # hs
      else (h, rest) # wait_queue_remove_thread t hs)"

fun wait_queue_validate_queue :: "(tid \<Rightarrow> int) \<Rightarrow> wq_heads \<Rightarrow> bool" where
  "wait_queue_validate_queue pri [] = True"
| "wait_queue_validate_queue pri [(h, rest)] = list_all (\<lambda>u. pri u = pri h) rest"
| "wait_queue_validate_queue pri ((h, rest) # (h', rest') # hs) =
     (pri h > pri h' \<and> list_all (\<lambda>u. pri u = pri h) rest \<and>
      wait_queue_validate_queue pri ((h', rest') # hs))"

definition wait_queue_peek :: "wq_heads \<Rightarrow> tid option" where
  "wait_queue_peek hs = (case hs of [] \<Rightarrow> None | (h, rest) # _ \<Rightarrow> Some h)"

definition wait_queue_blocked_priority :: "(tid \<Rightarrow> int) \<Rightarrow> wq_heads \<Rightarrow> int" where
  "wait_queue_blocked_priority pri hs = (case wait_queue_peek hs of None \<Rightarrow> -1 | Some t \<Rightarrow> pri t)"

subsection \<open>Blocking and waking\<close>

definition prio :: "sched_world \<Rightarrow> tid \<Rightarrow> int" where
  "prio w t = effec_priority (threads w t)"

definition upd_thread :: "tid \<Rightarrow> (thread \<Rightarrow> thread) \<Rightarrow> sched_world \<Rightarrow> sched_world" where
  "upd_thread t f w = w\<lparr>threads := (threads w)(t := f (threads w t))\<rparr>"

definition upd_wq :: "wq_id \<Rightarrow> (wait_queue \<Rightarrow> wait_queue) \<Rightarrow> sched_world \<Rightarrow> sched_world" where
  "upd_wq q f w = w\<lparr>wait_queues := (wait_queues w)(q := f (wait_queues w q))\<rparr>"

definition sched_unblock :: "tid \<Rightarrow> sched_world \<Rightarrow> sched_world" where
  "sched_unblock t w =
     (upd_thread t (\<lambda>th. th\<lparr>thread_state := THREAD_READY\<rparr>) w)\<lparr>ready_threads := ready_threads w @ [t]\<rparr>"

definition wait_queue_dequeue_thread_internal ::
    "wq_id \<Rightarrow> tid \<Rightarrow> zx_status \<Rightarrow> sched_world \<Rightarrow> sched_world" where
  "wait_queue_dequeue_thread_internal q t err w =
     upd_thread t (\<lambda>th. th\<lparr>blocked_status := err, blocking_wait_queue := None\<rparr>)
       (upd_wq q (\<lambda>wq. wq\<lparr>heads := wait_queue_remove_thread t (heads wq), wq_count := wq_count wq - 1\<rparr>) w)"

definition wait_queue_block_etc_pre ::
    "tid \<Rightarrow> wq_id \<Rightarrow> int \<Rightarrow> int \<Rightarrow> u32 \<Rightarrow> resource_ownership \<Rightarrow> sched_world \<Rightarrow> zx_status \<times> sched_world" where
  "wait_queue_block_etc_pre cur q when now signal_mask reason w =
     (let th = threads w cur in
      if when \<noteq> ZX_TIME_INFINITE \<and> when \<le> now then (ZX_ERR_TIMED_OUT, w)
      else if interruptable th \<and> thread_signals th AND NOT signal_mask \<noteq> 0 \<and>
              thread_signals th AND THREAD_SIGNAL_KILL \<noteq> 0 then (ZX_ERR_INTERNAL_INTR_KILLED, w)
      else if interruptable th \<and> thread_signals th AND NOT signal_mask \<noteq> 0 \<and>
              thread_signals th AND THREAD_SIGNAL_SUSPEND \<noteq> 0 then (ZX_ERR_INTERNAL_INTR_RETRY, w)
      else (ZX_OK,
        upd_thread cur (\<lambda>th. th\<lparr>thread_state := (case reason of Ownership_Normal \<Rightarrow> THREAD_BLOCKED
                                                  | Ownership_Reader \<Rightarrow> THREAD_BLOCKED_READ_LOCK),
                                blocking_wait_queue := Some q, blocked_status := ZX_OK\<rparr>)
          (upd_wq q (\<lambda>wq. wq\<lparr>heads := wait_queue_insert (prio w) cur (heads wq),
                             wq_count := wq_count wq + 1\<rparr>) w)))"

definition wait_queue_wake_one :: "wq_id \<Rightarrow> zx_status \<Rightarrow> sched_world \<Rightarrow> nat \<times> sched_world" where
  "wait_queue_wake_one q err w =
     (case wait_queue_peek (heads (wait_queues w q)) of
        None \<Rightarrow> (0, w)
      | Some t \<Rightarrow> (1, sched_unblock t (wait_queue_dequeue_thread_internal q t err w)))"

definition wait_queue_dequeue_one :: "wq_id \<Rightarrow> zx_status \<Rightarrow> sched_world \<Rightarrow> tid option \<times> sched_world" where
  "wait_queue_dequeue_one q err w =
     (case wait_queue_peek (heads (wait_queues w q)) of
        None \<Rightarrow> (None, w)
      | Some t \<Rightarrow> (Some t, wait_queue_dequeue_thread_internal q t err w))"

text \<open>The number of threads linked into a list of heads bounds the loop that pops them all.\<close>

definition wq_threads :: "wq_heads \<Rightarrow> tid list" where
  "wq_threads hs = concat (map (\<lambda>(h, rest). h # rest) hs)"

lemma wq_threads_simps [simp]:
  "wq_threads [] = []"
  "wq_threads ((h, rest) # hs) = h # rest @ wq_threads hs"
  by (simp_all add: wq_threads_def)

lemma wq_threads_append: "wq_threads (xs @ ys) = wq_threads xs @ wq_threads ys"
  by (simp add: wq_threads_def)

lemma wq_threads_remove_head [simp]: "wq_threads (wait_queue_remove_head (h, rest)) = rest"
  by (cases rest) (simp_all add: wait_queue_remove_head_def)

lemma wq_threads_remove: "wq_threads (wait_queue_remove_thread t hs) = remove1 t (wq_threads hs)"
  by (induction hs rule: wait_queue_remove_thread.induct)
    (auto simp: wq_threads_append remove1_append remove1_idem)

lemma wait_queue_peek_threads: "wait_queue_peek hs = (case wq_threads hs of [] \<Rightarrow> None | t # _ \<Rightarrow> Some t)"
  by (cases hs) (auto simp: wait_queue_peek_def)

function wake_all_loop :: "wq_id \<Rightarrow> zx_status \<Rightarrow> sched_world \<Rightarrow> tid list \<Rightarrow> tid list \<times> sched_world" where
  "wake_all_loop q err w acc =
     (case wait_queue_peek (heads (wait_queues w q)) of
        None \<Rightarrow> (acc, w)
      | Some t \<Rightarrow> wake_all_loop q err (wait_queue_dequeue_thread_internal q t err w) (acc @ [t]))"
  by pat_completeness auto
termination
  by (relation "measure (\<lambda>(q, err, w, acc). length (wq_threads (heads (wait_queues w q))))")
    (auto simp: wait_queue_peek_threads wait_queue_dequeue_thread_internal_def upd_thread_def upd_wq_def
      wq_threads_remove length_remove1 split: list.splits)

declare wake_all_loop.simps [simp del]

definition wait_queue_wake_all :: "wq_id \<Rightarrow> zx_status \<Rightarrow> sched_world \<Rightarrow> nat \<times> sched_world" where
  "wait_queue_wake_all q err w =
     (if wq_count (wait_queues w q) = 0 then (0, w)
      else (let (ts, w') = wake_all_loop q err w [] in (length ts, fold sched_unblock ts w')))"

definition wait_queue_unblock_thread :: "tid \<Rightarrow> zx_status \<Rightarrow> sched_world \<Rightarrow> zx_status \<times> sched_world" where
  "wait_queue_unblock_thread t err w =
     (let th = threads w t in
      if thread_state th \<noteq> THREAD_BLOCKED \<and> thread_state th \<noteq> THREAD_BLOCKED_READ_LOCK
      then (ZX_ERR_BAD_STATE, w)
      else case blocking_wait_queue th of
             None \<Rightarrow> (ZX_ERR_BAD_STATE, w)
           | Some q \<Rightarrow> (ZX_OK, sched_unblock t (wait_queue_dequeue_thread_internal q t err w)))"

definition wait_queue_move_thread :: "wq_id \<Rightarrow> wq_id \<Rightarrow> tid \<Rightarrow> sched_world \<Rightarrow> sched_world" where
  "wait_queue_move_thread source dest t w =
     upd_thread t (\<lambda>th. th\<lparr>blocking_wait_queue := Some dest\<rparr>)
       (upd_wq dest (\<lambda>wq. wq\<lparr>heads := wait_queue_insert (prio w) t (heads wq), wq_count := wq_count wq + 1\<rparr>)
         (upd_wq source (\<lambda>wq. wq\<lparr>heads := wait_queue_remove_thread t (heads wq),
                                 wq_count := wq_count wq - 1\<rparr>) w))"

text \<open>The thread's new priority is already in the thread; the queue is re-sorted around it.\<close>

definition wait_queue_priority_changed :: "tid \<Rightarrow> sched_world \<Rightarrow> sched_world" where
  "wait_queue_priority_changed t w =
     (case blocking_wait_queue (threads w t) of
        None \<Rightarrow> w
      | Some q \<Rightarrow> upd_wq q (\<lambda>wq. wq\<lparr>heads := wait_queue_insert (prio w) t
                                              (wait_queue_remove_thread t (heads wq))\<rparr>) w)"

section \<open>Properties of the list of heads\<close>

lemma validate_Cons:
  "wait_queue_validate_queue pri ((h, rest) # hs) \<longleftrightarrow>
     (\<forall>u \<in> set rest. pri u = pri h) \<and> (\<forall>u \<in> set (wq_threads hs). pri u < pri h) \<and>
     wait_queue_validate_queue pri hs"
proof (induction hs arbitrary: h rest)
  case Nil
  then show ?case by (simp add: list_all_iff)
next
  case (Cons q hs)
  obtain h' rest' where q: "q = (h', rest')" by (cases q)
  show ?case
    unfolding q using Cons.IH [of h' rest'] by (auto simp: list_all_iff dest: less_trans)
qed

lemma takeWhile_threads_below:
  "\<forall>u \<in> set us. pri u < p \<Longrightarrow> p \<le> pri t \<Longrightarrow>
   takeWhile (\<lambda>u. pri t \<le> (pri u :: int)) us = [] \<and> dropWhile (\<lambda>u. pri t \<le> pri u) us = us"
  by (cases us) auto

lemma wq_threads_insert:
  "wait_queue_validate_queue pri hs \<Longrightarrow>
   wq_threads (wait_queue_insert pri t hs) =
     takeWhile (\<lambda>u. pri t \<le> pri u) (wq_threads hs) @ t # dropWhile (\<lambda>u. pri t \<le> pri u) (wq_threads hs)"
proof (induction pri t hs rule: wait_queue_insert.induct)
  case (1 pri t)
  then show ?case by simp
next
  case (2 pri t temp rest hs)
  from "2.prems" have rest: "\<forall>u \<in> set rest. pri u = pri temp"
    and below: "\<forall>u \<in> set (wq_threads hs). pri u < pri temp"
    and hs: "wait_queue_validate_queue pri hs"
    by (auto simp: validate_Cons)
  consider (head) "pri t > pri temp" | (same) "pri temp = pri t" | (later) "pri t < pri temp" by linarith
  then show ?case
  proof cases
    case head
    then show ?thesis by simp
  next
    case same
    have "takeWhile (\<lambda>u. pri t \<le> pri u) (wq_threads hs) = [] \<and>
          dropWhile (\<lambda>u. pri t \<le> pri u) (wq_threads hs) = wq_threads hs"
      using takeWhile_threads_below [OF below] same by simp
    then show ?thesis using same rest by (auto simp: takeWhile_append dropWhile_append)
  next
    case later
    then show ?thesis using "2.IH" hs rest by (auto simp: takeWhile_append dropWhile_append)
  qed
qed

lemma set_wq_threads_insert [simp]:
  "set (wq_threads (wait_queue_insert pri t hs)) = insert t (set (wq_threads hs))"
  by (induction pri t hs rule: wait_queue_insert.induct) auto

lemma length_wq_threads_insert [simp]:
  "length (wq_threads (wait_queue_insert pri t hs)) = Suc (length (wq_threads hs))"
  by (induction pri t hs rule: wait_queue_insert.induct) auto

lemma distinct_wq_threads_insert:
  "distinct (wq_threads hs) \<Longrightarrow> t \<notin> set (wq_threads hs) \<Longrightarrow> distinct (wq_threads (wait_queue_insert pri t hs))"
  by (induction pri t hs rule: wait_queue_insert.induct) auto

lemma validate_insert:
  "wait_queue_validate_queue pri hs \<Longrightarrow> wait_queue_validate_queue pri (wait_queue_insert pri t hs)"
proof (induction pri t hs rule: wait_queue_insert.induct)
  case (2 pri t temp rest hs)
  then show ?case by (force simp: validate_Cons)
qed simp

lemma validate_append_head:
  "wait_queue_validate_queue pri ((h, rest) # hs) \<Longrightarrow>
   wait_queue_validate_queue pri (wait_queue_remove_head (h, rest) @ hs)"
  by (cases rest) (auto simp: wait_queue_remove_head_def validate_Cons)

lemma validate_remove:
  "wait_queue_validate_queue pri hs \<Longrightarrow> wait_queue_validate_queue pri (wait_queue_remove_thread t hs)"
proof (induction t hs rule: wait_queue_remove_thread.induct)
  case (2 t h rest hs)
  have IH: "h \<noteq> t \<Longrightarrow> t \<notin> set rest \<Longrightarrow> wait_queue_validate_queue pri (wait_queue_remove_thread t hs)"
    using "2.IH" "2.prems" by (simp add: validate_Cons)
  have sub: "set (wq_threads (wait_queue_remove_thread t hs)) \<subseteq> set (wq_threads hs)"
    by (simp add: wq_threads_remove set_remove1_subset)
  have rem: "set (remove1 t rest) \<subseteq> set rest" by (rule set_remove1_subset)
  show ?case
    using "2.prems" IH sub rem validate_append_head [of pri h rest hs]
    by (auto simp: validate_Cons)
qed simp

lemma validate_pri_cong:
  "(\<And>u. u \<in> set (wq_threads hs) \<Longrightarrow> pri u = pri' u) \<Longrightarrow>
   wait_queue_validate_queue pri hs = wait_queue_validate_queue pri' hs"
proof (induction hs)
  case (Cons q hs)
  obtain h rest where q: "q = (h, rest)" by (cases q)
  have "wait_queue_validate_queue pri hs = wait_queue_validate_queue pri' hs"
    using Cons.prems by (intro Cons.IH) (simp add: q)
  then show ?case using Cons.prems by (auto simp: q validate_Cons)
qed simp

text \<open>The head of a valid queue has the highest priority among the waiting threads.\<close>

lemma peek_max_priority:
  assumes "wait_queue_validate_queue pri hs" "wait_queue_peek hs = Some t" "u \<in> set (wq_threads hs)"
  shows "pri u \<le> pri t"
proof -
  obtain h rest hs' where "hs = (h, rest) # hs'" "t = h"
    using assms(2) by (cases hs) (auto simp: wait_queue_peek_def)
  then show ?thesis using assms(1,3) by (fastforce simp: validate_Cons)
qed

section \<open>The state invariant\<close>

definition wq_ok :: "(tid \<Rightarrow> int) \<Rightarrow> wait_queue \<Rightarrow> bool" where
  "wq_ok pri wq \<longleftrightarrow> wait_queue_validate_queue pri (heads wq) \<and> distinct (wq_threads (heads wq)) \<and>
     wq_count wq = int (length (wq_threads (heads wq)))"

definition is_blocked :: "thread \<Rightarrow> bool" where
  "is_blocked th \<longleftrightarrow> thread_state th = THREAD_BLOCKED \<or> thread_state th = THREAD_BLOCKED_READ_LOCK"

definition waiting_in :: "sched_world \<Rightarrow> wq_id \<Rightarrow> tid list" where
  "waiting_in w q = wq_threads (heads (wait_queues w q))"

definition sched_inv :: "sched_world \<Rightarrow> bool" where
  "sched_inv w \<longleftrightarrow> (\<forall>q. wq_ok (prio w) (wait_queues w q)) \<and>
     (\<forall>t q. blocking_wait_queue (threads w t) = Some q \<longleftrightarrow> t \<in> set (waiting_in w q)) \<and>
     (\<forall>t. is_blocked (threads w t) \<longleftrightarrow> blocking_wait_queue (threads w t) \<noteq> None)"

lemma sched_invD:
  assumes "sched_inv w"
  shows "wq_ok (prio w) (wait_queues w q)"
    and "blocking_wait_queue (threads w t) = Some q \<longleftrightarrow> t \<in> set (waiting_in w q)"
    and "is_blocked (threads w t) \<longleftrightarrow> blocking_wait_queue (threads w t) \<noteq> None"
  using assms by (auto simp: sched_inv_def)

lemma prio_upd_thread [simp]:
  "(\<And>th. effec_priority (f th) = effec_priority th) \<Longrightarrow> prio (upd_thread t f w) = prio w"
  by (auto simp: prio_def upd_thread_def)

lemma prio_upd_wq [simp]: "prio (upd_wq q f w) = prio w"
  by (auto simp: prio_def upd_wq_def)

lemma upd_sel [simp]:
  "threads (upd_thread t f w) = (threads w)(t := f (threads w t))"
  "wait_queues (upd_thread t f w) = wait_queues w"
  "ready_threads (upd_thread t f w) = ready_threads w"
  "threads (upd_wq q g w) = threads w"
  "wait_queues (upd_wq q g w) = (wait_queues w)(q := g (wait_queues w q))"
  "ready_threads (upd_wq q g w) = ready_threads w"
  by (simp_all add: upd_thread_def upd_wq_def)

lemma waiting_in_dequeue:
  "waiting_in (wait_queue_dequeue_thread_internal q t err w) q' =
     (if q' = q then remove1 t (waiting_in w q) else waiting_in w q')"
  by (simp add: waiting_in_def wait_queue_dequeue_thread_internal_def wq_threads_remove)

lemma waiting_in_unblock [simp]: "waiting_in (sched_unblock t w) q = waiting_in w q"
  by (simp add: waiting_in_def sched_unblock_def upd_thread_def)

lemma prio_dequeue [simp]: "prio (wait_queue_dequeue_thread_internal q t err w) = prio w"
  by (simp add: wait_queue_dequeue_thread_internal_def)

lemma prio_unblock [simp]: "prio (sched_unblock t w) = prio w"
  by (auto simp: sched_unblock_def prio_def upd_thread_def)

lemma waiting_unique:
  assumes "sched_inv w" "t \<in> set (waiting_in w q)" "t \<in> set (waiting_in w q')"
  shows "q = q'"
  using sched_invD(2) [OF assms(1)] assms(2,3) by (metis option.inject)

lemma threads_wake:
  "threads (sched_unblock t (wait_queue_dequeue_thread_internal q t err w)) =
     (threads w)(t := (threads w t)\<lparr>blocked_status := err, blocking_wait_queue := None,
                                    thread_state := THREAD_READY\<rparr>)"
  by (simp add: sched_unblock_def wait_queue_dequeue_thread_internal_def)

text \<open>
  Taking a waiting thread off its queue and handing it to the scheduler keeps the invariant;
  every wake-up is this step.
\<close>

lemma sched_inv_wake:
  assumes inv: "sched_inv w" and t: "t \<in> set (waiting_in w q)"
  shows "sched_inv (sched_unblock t (wait_queue_dequeue_thread_internal q t err w))"
    (is "sched_inv ?w'")
proof -
  have ok: "wq_ok (prio w) (wait_queues w q)" for q using sched_invD(1) [OF inv] .
  have lt: "t \<in> set (wq_threads (heads (wait_queues w q)))" using t by (simp add: waiting_in_def)
  have len: "int (length (wq_threads (heads (wait_queues w q))) - Suc 0) =
      int (length (wq_threads (heads (wait_queues w q)))) - 1"
    using length_pos_if_in_set [OF lt] by linarith
  have "wq_ok (prio w) (wait_queues ?w' q')" for q'
    using ok [of q] ok [of q'] lt len
    by (auto simp: wq_ok_def sched_unblock_def wait_queue_dequeue_thread_internal_def validate_remove
        wq_threads_remove length_remove1)
  moreover have "blocking_wait_queue (threads ?w' u) = Some q' \<longleftrightarrow> u \<in> set (waiting_in ?w' q')" for u q'
  proof (cases "u = t")
    case True
    have "distinct (waiting_in w q)" using ok [of q] by (simp add: wq_ok_def waiting_in_def)
    moreover have "q' \<noteq> q \<Longrightarrow> t \<notin> set (waiting_in w q')" using waiting_unique [OF inv t] by blast
    ultimately show ?thesis using True
      by (auto simp: waiting_in_dequeue threads_wake)
  next
    case False
    then show ?thesis using sched_invD(2) [OF inv, of u q']
      by (auto simp: waiting_in_dequeue threads_wake)
  qed
  moreover have "is_blocked (threads ?w' u) \<longleftrightarrow> blocking_wait_queue (threads ?w' u) \<noteq> None" for u
    using sched_invD(3) [OF inv, of u] by (auto simp: threads_wake is_blocked_def)
  ultimately show ?thesis by (auto simp: sched_inv_def)
qed

lemma sched_inv_wake_one: "sched_inv w \<Longrightarrow> sched_inv (snd (wait_queue_wake_one q err w))"
  by (auto simp: wait_queue_wake_one_def wait_queue_peek_threads waiting_in_def intro: sched_inv_wake
      split: option.splits list.splits)

lemma sched_inv_unblock_thread: "sched_inv w \<Longrightarrow> sched_inv (snd (wait_queue_unblock_thread t err w))"
  by (auto simp: wait_queue_unblock_thread_def Let_def sched_invD(2) intro: sched_inv_wake
      split: option.splits)

text \<open>Blocking a running thread inserts it into exactly one queue.\<close>

lemma block_pre_ok:
  "wait_queue_block_etc_pre cur q when now msk reason w = (ZX_OK, w') \<Longrightarrow>
   w' = upd_thread cur (\<lambda>th. th\<lparr>thread_state := (case reason of Ownership_Normal \<Rightarrow> THREAD_BLOCKED
                                                  | Ownership_Reader \<Rightarrow> THREAD_BLOCKED_READ_LOCK),
                                blocking_wait_queue := Some q, blocked_status := ZX_OK\<rparr>)
          (upd_wq q (\<lambda>wq. wq\<lparr>heads := wait_queue_insert (prio w) cur (heads wq),
                             wq_count := wq_count wq + 1\<rparr>) w)"
  by (auto simp: wait_queue_block_etc_pre_def Let_def split: if_splits)

lemma block_pre_err:
  "wait_queue_block_etc_pre cur q when now msk reason w = (st, w') \<Longrightarrow> st \<noteq> ZX_OK \<Longrightarrow> w' = w"
  by (auto simp: wait_queue_block_etc_pre_def Let_def split: if_splits)

lemma sched_inv_block:
  assumes inv: "sched_inv w" and run: "\<not> is_blocked (threads w cur)"
    and blk: "wait_queue_block_etc_pre cur q when now msk reason w = (st, w')"
  shows "sched_inv w'"
proof (cases "st = ZX_OK")
  case False
  then show ?thesis using block_pre_err [OF blk] inv by simp
next
  case True
  note w' = block_pre_ok [OF blk [unfolded True]]
  have notin: "cur \<notin> set (waiting_in w q')" for q'
    using run sched_invD(2,3) [OF inv, of cur] by auto
  have ok: "wq_ok (prio w) (wait_queues w q')" for q' using sched_invD(1) [OF inv] .
  have "wq_ok (prio w) (wait_queues w' q')" for q'
    using ok [of q'] notin [of q']
    by (auto simp: w' wq_ok_def validate_insert distinct_wq_threads_insert waiting_in_def)
  moreover have "blocking_wait_queue (threads w' u) = Some q' \<longleftrightarrow> u \<in> set (waiting_in w' q')" for u q'
    using sched_invD(2) [OF inv, of u q'] notin [of q'] by (auto simp: w' waiting_in_def)
  moreover have "is_blocked (threads w' u) \<longleftrightarrow> blocking_wait_queue (threads w' u) \<noteq> None" for u
    using sched_invD(3) [OF inv, of u]
    by (auto simp: w' is_blocked_def split: resource_ownership.splits)
  moreover have "prio w' = prio w" by (simp add: w')
  ultimately show ?thesis by (auto simp: sched_inv_def)
qed

text \<open>Moving a thread between queues, and re-sorting after a change of priority.\<close>

lemma sched_inv_move:
  assumes inv: "sched_inv w" and t: "t \<in> set (waiting_in w src)"
  shows "sched_inv (wait_queue_move_thread src dst t w)" (is "sched_inv ?w'")
proof -
  have ok: "wq_ok (prio w) (wait_queues w q')" for q' using sched_invD(1) [OF inv] .
  have lt: "t \<in> set (wq_threads (heads (wait_queues w src)))" using t by (simp add: waiting_in_def)
  have len: "int (length (wq_threads (heads (wait_queues w src))) - Suc 0) =
      int (length (wq_threads (heads (wait_queues w src)))) - 1"
    using length_pos_if_in_set [OF lt] by linarith
  have other: "q' \<noteq> src \<Longrightarrow> t \<notin> set (wq_threads (heads (wait_queues w q')))" for q'
    using waiting_unique [OF inv t, of q'] by (auto simp: waiting_in_def)
  have dst: "distinct (wq_threads (heads (wait_queues w src)))" using ok [of src] by (simp add: wq_ok_def)
  have pr: "prio ?w' = prio w" by (simp add: wait_queue_move_thread_def)
  have "wq_ok (prio w) (wait_queues ?w' q')" for q'
    using ok [of src] ok [of q'] ok [of dst] lt len other [of dst] dst
    by (auto simp: wq_ok_def wait_queue_move_thread_def validate_remove validate_insert
        wq_threads_remove length_remove1 intro!: distinct_wq_threads_insert)
  moreover have "blocking_wait_queue (threads ?w' u) = Some q' \<longleftrightarrow> u \<in> set (waiting_in ?w' q')" for u q'
    using sched_invD(2) [OF inv, of u q'] other [of q'] dst
    by (auto simp: waiting_in_def wait_queue_move_thread_def wq_threads_remove)
  moreover have "is_blocked (threads ?w' u) \<longleftrightarrow> blocking_wait_queue (threads ?w' u) \<noteq> None" for u
    using sched_invD(2) [OF inv, of t src] sched_invD(3) [OF inv, of u] sched_invD(3) [OF inv, of t] t
    by (auto simp: wait_queue_move_thread_def is_blocked_def)
  ultimately show ?thesis by (auto simp: sched_inv_def pr)
qed

definition set_effec_priority :: "tid \<Rightarrow> int \<Rightarrow> sched_world \<Rightarrow> sched_world" where
  "set_effec_priority t p w = upd_thread t (\<lambda>th. th\<lparr>effec_priority := p\<rparr>) w"

lemma remove_insert_ok:
  assumes "wq_ok pri wq" "t \<in> set (wq_threads (heads wq))" "\<And>u. u \<noteq> t \<Longrightarrow> pri' u = pri u"
  shows "wq_ok pri' (wq\<lparr>heads := wait_queue_insert pri' t (wait_queue_remove_thread t (heads wq))\<rparr>)"
proof -
  have d: "distinct (wq_threads (heads wq))" using assms(1) by (simp add: wq_ok_def)
  have "wait_queue_validate_queue pri (wait_queue_remove_thread t (heads wq))"
    using assms(1) by (simp add: wq_ok_def validate_remove)
  moreover have "\<And>u. u \<in> set (wq_threads (wait_queue_remove_thread t (heads wq))) \<Longrightarrow> pri u = pri' u"
    using d assms(3) by (auto simp: wq_threads_remove)
  ultimately have "wait_queue_validate_queue pri' (wait_queue_remove_thread t (heads wq))"
    using validate_pri_cong by metis
  then show ?thesis
    using assms(1,2) d length_pos_if_in_set [OF assms(2)]
    by (auto simp: wq_ok_def validate_insert wq_threads_remove length_remove1 intro!: distinct_wq_threads_insert)
qed

lemma sched_inv_priority_changed:
  assumes inv: "sched_inv w"
  shows "sched_inv (wait_queue_priority_changed t (set_effec_priority t p w))" (is "sched_inv ?w'")
proof -
  let ?w1 = "set_effec_priority t p w"
  have thr: "blocking_wait_queue (threads ?w1 u) = blocking_wait_queue (threads w u)"
    "is_blocked (threads ?w1 u) = is_blocked (threads w u)" for u
    by (auto simp: set_effec_priority_def is_blocked_def)
  have wqs: "wait_queues ?w1 = wait_queues w" by (simp add: set_effec_priority_def)
  have pri: "u \<noteq> t \<Longrightarrow> prio ?w1 u = prio w u" for u by (simp add: set_effec_priority_def prio_def)
  have ok: "wq_ok (prio w) (wait_queues w q)" for q using sched_invD(1) [OF inv] .
  have keep: "wq_ok (prio ?w1) (wait_queues w q)" if "t \<notin> set (waiting_in w q)" for q
  proof -
    have "wait_queue_validate_queue (prio w) (heads (wait_queues w q)) =
          wait_queue_validate_queue (prio ?w1) (heads (wait_queues w q))"
      by (rule validate_pri_cong) (metis pri that waiting_in_def)
    then show ?thesis using ok [of q] by (simp add: wq_ok_def)
  qed
  show ?thesis
  proof (cases "blocking_wait_queue (threads w t)")
    case None
    then have "t \<notin> set (waiting_in w q)" for q using sched_invD(2) [OF inv, of t q] by simp
    then show ?thesis using None keep thr sched_invD(2,3) [OF inv]
      by (auto simp: sched_inv_def wait_queue_priority_changed_def wqs waiting_in_def)
  next
    case (Some q)
    have tq: "t \<in> set (waiting_in w q)" using Some sched_invD(2) [OF inv] by simp
    have notin: "q' \<noteq> q \<Longrightarrow> t \<notin> set (waiting_in w q')" for q' using waiting_unique [OF inv tq] by blast
    have w': "?w' = upd_wq q (\<lambda>wq. wq\<lparr>heads := wait_queue_insert (prio ?w1) t
                                         (wait_queue_remove_thread t (heads wq))\<rparr>) ?w1"
      using Some thr by (simp add: wait_queue_priority_changed_def)
    have d: "distinct (wq_threads (heads (wait_queues w q)))" using ok [of q] by (simp add: wq_ok_def)
    have "wq_ok (prio ?w1) (wait_queues ?w' q')" for q'
      using keep notin remove_insert_ok [OF ok, of t q "prio ?w1"] tq pri
      by (auto simp: w' wqs waiting_in_def)
    moreover have "set (waiting_in ?w' q') = set (waiting_in w q')" for q'
      using tq d by (auto simp: w' wqs waiting_in_def wq_threads_remove)
    moreover have "prio ?w' = prio ?w1" by (simp add: w')
    ultimately show ?thesis using sched_invD(2,3) [OF inv] thr by (simp add: sched_inv_def w')
  qed
qed

text \<open>
  Waking all: the loop empties the queue front to back, then the threads go to the scheduler in
  that order. Between the two parts the popped threads are off the queue but still marked blocked;
  the combination is the same as waking them one at a time.
\<close>

lemma sched_unblock_dequeue_commute:
  assumes "u \<noteq> t"
  shows "wait_queue_dequeue_thread_internal q u err (sched_unblock t w) =
         sched_unblock t (wait_queue_dequeue_thread_internal q u err w)"
  using assms by (intro sched_world.equality)
    (simp_all add: sched_unblock_def wait_queue_dequeue_thread_internal_def fun_upd_twist)

lemma fold_unblock_dequeue_commute:
  "u \<notin> set ts \<Longrightarrow>
   wait_queue_dequeue_thread_internal q u err (fold sched_unblock ts w) =
   fold sched_unblock ts (wait_queue_dequeue_thread_internal q u err w)"
  by (induction ts arbitrary: w) (auto simp: sched_unblock_dequeue_commute)

lemma wait_queues_unblock [simp]: "wait_queues (sched_unblock t w) = wait_queues w"
  by (simp add: sched_unblock_def upd_thread_def)

lemma wait_queues_fold_unblock [simp]: "wait_queues (fold sched_unblock ts w) = wait_queues w"
  by (induction ts arbitrary: w) auto

lemma wake_all_loop_inv:
  "sched_inv (fold sched_unblock acc w) \<Longrightarrow> distinct acc \<Longrightarrow> set acc \<inter> set (waiting_in w q) = {} \<Longrightarrow>
   wake_all_loop q err w acc = (ts, w') \<Longrightarrow>
   sched_inv (fold sched_unblock ts w') \<and> ts = acc @ waiting_in w q \<and> waiting_in w' q = []"
proof (induction q err w acc arbitrary: ts w' rule: wake_all_loop.induct)
  case (1 q err w acc)
  show ?case
  proof (cases "wait_queue_peek (heads (wait_queues w q))")
    case None
    then have "waiting_in w q = []"
      by (simp add: wait_queue_peek_threads waiting_in_def split: list.splits)
    then show ?thesis using "1.prems" None by (simp add: wake_all_loop.simps [of q err w acc])
  next
    case (Some t)
    let ?w1 = "wait_queue_dequeue_thread_internal q t err w"
    from Some obtain us where us: "waiting_in w q = t # us"
      by (auto simp: wait_queue_peek_threads waiting_in_def split: list.splits)
    have tacc: "t \<notin> set acc" using "1.prems"(3) us by auto
    have w1q: "waiting_in ?w1 q = us" by (simp add: waiting_in_dequeue us)
    have "waiting_in (fold sched_unblock acc w) q = t # us" using us by (simp add: waiting_in_def)
    then have "sched_inv (sched_unblock t (wait_queue_dequeue_thread_internal q t err (fold sched_unblock acc w)))"
      using sched_inv_wake [OF "1.prems"(1), of t q err] by simp
    then have inv1: "sched_inv (fold sched_unblock (acc @ [t]) ?w1)"
      using tacc by (simp add: fold_unblock_dequeue_commute)
    have "distinct (waiting_in w q)"
      using sched_invD(1) [OF "1.prems"(1), of q] by (simp add: wq_ok_def waiting_in_def)
    then have disj: "set (acc @ [t]) \<inter> set (waiting_in ?w1 q) = {}"
      using "1.prems"(3) us w1q by auto
    have step: "wake_all_loop q err ?w1 (acc @ [t]) = (ts, w')"
      using "1.prems"(4) Some by (simp add: wake_all_loop.simps [of q err w acc])
    have "distinct (acc @ [t])" using tacc "1.prems"(2) by simp
    note IH = "1.IH" [OF Some inv1 this disj step]
    have "ts = acc @ waiting_in w q" using IH by (simp add: us w1q)
    with IH show ?thesis by blast
  qed
qed

lemma sched_inv_wake_all:
  assumes "sched_inv w"
  shows "sched_inv (snd (wait_queue_wake_all q err w))"
    and "waiting_in (snd (wait_queue_wake_all q err w)) q = []"
    and "fst (wait_queue_wake_all q err w) = length (waiting_in w q)"
proof -
  obtain ts w' where r: "wake_all_loop q err w [] = (ts, w')" by fastforce
  have cnt: "wq_count (wait_queues w q) = int (length (waiting_in w q))"
    using sched_invD(1) [OF assms, of q] by (simp add: wq_ok_def waiting_in_def)
  have *: "sched_inv (fold sched_unblock ts w')" "ts = waiting_in w q" "waiting_in w' q = []"
    using wake_all_loop_inv [OF _ _ _ r] assms by auto
  show "sched_inv (snd (wait_queue_wake_all q err w))"
    "waiting_in (snd (wait_queue_wake_all q err w)) q = []"
    "fst (wait_queue_wake_all q err w) = length (waiting_in w q)"
    using * assms cnt by (auto simp: wait_queue_wake_all_def r waiting_in_def)
qed

lemma threads_fold_unblock_other:
  "u \<notin> set ts \<Longrightarrow> threads (fold sched_unblock ts w) u = threads w u"
  by (induction ts arbitrary: w) (auto simp: sched_unblock_def)

lemma wake_all_loop_other:
  "wake_all_loop q err w acc = (ts, w') \<Longrightarrow> u \<notin> set (waiting_in w q) \<Longrightarrow> threads w' u = threads w u"
proof (induction q err w acc arbitrary: ts w' rule: wake_all_loop.induct)
  case (1 q err w acc)
  show ?case
  proof (cases "wait_queue_peek (heads (wait_queues w q))")
    case None
    then show ?thesis using "1.prems"(1) by (simp add: wake_all_loop.simps [of q err w acc])
  next
    case (Some t)
    then obtain us where us: "waiting_in w q = t # us"
      by (auto simp: wait_queue_peek_threads waiting_in_def split: list.splits)
    let ?w1 = "wait_queue_dequeue_thread_internal q t err w"
    have run: "wake_all_loop q err ?w1 (acc @ [t]) = (ts, w')"
      using "1.prems"(1) Some by (simp add: wake_all_loop.simps [of q err w acc])
    have "u \<notin> set (waiting_in ?w1 q)" "u \<noteq> t" using "1.prems"(2) us by (auto simp: waiting_in_dequeue)
    then show ?thesis using "1.IH" [OF Some run] by (simp add: wait_queue_dequeue_thread_internal_def)
  qed
qed

lemma wake_all_other:
  assumes inv: "sched_inv w" and u: "u \<notin> set (waiting_in w q)"
  shows "threads (snd (wait_queue_wake_all q err w)) u = threads w u"
proof -
  obtain ts w' where r: "wake_all_loop q err w [] = (ts, w')" by fastforce
  have "ts = waiting_in w q" using wake_all_loop_inv [OF _ _ _ r] inv by auto
  then show ?thesis
    using u wake_all_loop_other [OF r u] by (simp add: wait_queue_wake_all_def r threads_fold_unblock_other)
qed

section \<open>All executions\<close>

text \<open>
  The operations as steps: any thread that is not blocked may block on any queue, and any
  caller may wake, unblock, move or re-prioritise threads.
\<close>

inductive wq_step :: "sched_world \<Rightarrow> sched_world \<Rightarrow> bool" where
  wq_block: "\<not> is_blocked (threads w t) \<Longrightarrow> wq_step w (snd (wait_queue_block_etc_pre t q when now msk reason w))"
| wq_wake_one: "wq_step w (snd (wait_queue_wake_one q err w))"
| wq_wake_all: "wq_step w (snd (wait_queue_wake_all q err w))"
| wq_unblock: "wq_step w (snd (wait_queue_unblock_thread t err w))"
| wq_move: "t \<in> set (waiting_in w src) \<Longrightarrow> wq_step w (wait_queue_move_thread src dst t w)"
| wq_priority: "wq_step w (wait_queue_priority_changed t (set_effec_priority t p w))"

definition sched_init :: "(tid \<Rightarrow> int) \<Rightarrow> sched_world" where
  "sched_init pri = \<lparr>threads = (\<lambda>t. \<lparr>effec_priority = pri t, thread_state = THREAD_RUNNING,
      blocking_wait_queue = None, blocked_status = ZX_OK, interruptable = False, thread_signals = 0\<rparr>),
    wait_queues = (\<lambda>q. \<lparr>heads = [], wq_count = 0\<rparr>), ready_threads = []\<rparr>"

inductive wq_reachable :: "sched_world \<Rightarrow> bool" where
  wq_start: "wq_reachable (sched_init pri)"
| wq_next: "wq_reachable w \<Longrightarrow> wq_step w w' \<Longrightarrow> wq_reachable w'"

lemma sched_inv_init [simp]: "sched_inv (sched_init pri)"
  by (auto simp: sched_init_def sched_inv_def wq_ok_def waiting_in_def is_blocked_def)

lemma sched_inv_step: "wq_step w w' \<Longrightarrow> sched_inv w \<Longrightarrow> sched_inv w'"
proof (induction rule: wq_step.induct)
  case (wq_block w t q "when" now msk reason)
  then show ?case using sched_inv_block [OF _ _ surjective_pairing] by blast
qed (auto intro: sched_inv_wake_one sched_inv_wake_all sched_inv_unblock_thread sched_inv_move
      sched_inv_priority_changed)

text \<open>
  Property C7: in every state reachable by blocking, waking, moving and re-prioritising threads, each
  wait queue is sorted (heads strictly decreasing in priority, followers at their head's
  priority), holds no thread twice, its count is the number of its threads, and a thread is
  marked as blocked exactly when it is linked into the one queue it names.
\<close>

theorem wait_queue_reachable_inv:
  assumes "wq_reachable w"
  shows "wait_queue_validate_queue (prio w) (heads (wait_queues w q)) \<and>
    distinct (waiting_in w q) \<and>
    wq_count (wait_queues w q) = int (length (waiting_in w q)) \<and>
    (blocking_wait_queue (threads w t) = Some q \<longleftrightarrow> t \<in> set (waiting_in w q)) \<and>
    (is_blocked (threads w t) \<longleftrightarrow> (\<exists>q'. t \<in> set (waiting_in w q')))"
proof -
  have inv: "sched_inv w" using assms by (induction) (auto intro: sched_inv_step)
  show ?thesis
    using sched_invD(1) [OF inv, of q] sched_invD(3) [OF inv, of t] sched_invD(2) [OF inv, of t]
    by (auto simp: wq_ok_def waiting_in_def)
qed

definition wq_example :: sched_world where
  "wq_example = snd (wait_queue_block_etc_pre 7 3 ZX_TIME_INFINITE 0 0 Ownership_Normal (sched_init int))"

lemma wq_example_reachable: "wq_reachable wq_example"
  unfolding wq_example_def
  by (rule wq_next [OF wq_start wq_block]) (simp add: sched_init_def is_blocked_def)

lemma wq_example_waiting: "waiting_in wq_example 3 = [7]"
  by (simp add: wq_example_def wait_queue_block_etc_pre_def sched_init_def waiting_in_def Let_def)

theorem wait_queue_reachable_inv_witness:
  "wq_reachable wq_example \<and> wq_count (wait_queues wq_example 3) = 1 \<and>
   blocking_wait_queue (threads wq_example 7) = Some 3"
  using wq_example_reachable wq_example_waiting
    wait_queue_reachable_inv [OF wq_example_reachable, of 3 7]
  by simp

text \<open>
  Property C20: waking one thread takes the thread of highest priority; among threads of equal
  priority the one that blocked first, because blocking puts a thread behind every waiting
  thread of at least its priority and before all others, and the others keep their order. The
  woken thread is ready with the caller's status, and nobody else is touched.
\<close>

theorem wait_queue_priority_fifo:
  assumes inv: "sched_inv w"
  shows "(wait_queue_block_etc_pre t q when now msk reason w = (ZX_OK, w1) \<longrightarrow>
            waiting_in w1 q = takeWhile (\<lambda>u. prio w t \<le> prio w u) (waiting_in w q) @ t #
                              dropWhile (\<lambda>u. prio w t \<le> prio w u) (waiting_in w q)) \<and>
         (case waiting_in w q of
            [] \<Rightarrow> wait_queue_wake_one q err w = (0, w)
          | u # us \<Rightarrow> (\<exists>w2. wait_queue_wake_one q err w = (1, w2) \<and> waiting_in w2 q = us \<and>
              (\<forall>v \<in> set us. prio w v \<le> prio w u) \<and>
              thread_state (threads w2 u) = THREAD_READY \<and> blocked_status (threads w2 u) = err \<and>
              (\<forall>v. v \<noteq> u \<longrightarrow> threads w2 v = threads w v)))"
proof -
  have val: "wait_queue_validate_queue (prio w) (heads (wait_queues w q))"
    using sched_invD(1) [OF inv, of q] by (simp add: wq_ok_def)
  have "waiting_in w1 q = takeWhile (\<lambda>u. prio w t \<le> prio w u) (waiting_in w q) @ t #
                          dropWhile (\<lambda>u. prio w t \<le> prio w u) (waiting_in w q)"
    if "wait_queue_block_etc_pre t q when now msk reason w = (ZX_OK, w1)"
    using wq_threads_insert [OF val, of t] block_pre_ok [OF that] by (simp add: waiting_in_def)
  moreover have "\<forall>v \<in> set us. prio w v \<le> prio w u" if "waiting_in w q = u # us" for u us
    using peek_max_priority [OF val, of u] that
    by (auto simp: wait_queue_peek_threads waiting_in_def)
  ultimately show ?thesis
    by (auto simp: wait_queue_wake_one_def wait_queue_peek_threads waiting_in_def [symmetric]
        waiting_in_dequeue threads_wake split: list.splits)
qed

theorem wait_queue_priority_fifo_witness:
  "sched_inv (sched_init int) \<and>
   wait_queue_block_etc_pre 7 3 ZX_TIME_INFINITE 0 0 Ownership_Normal (sched_init int) = (ZX_OK, wq_example) \<and>
   waiting_in wq_example 3 = [7]"
proof -
  have b: "wait_queue_block_etc_pre 7 3 ZX_TIME_INFINITE 0 0 Ownership_Normal (sched_init int) =
      (ZX_OK, wq_example)"
    by (simp add: wq_example_def wait_queue_block_etc_pre_def sched_init_def Let_def)
  have e: "waiting_in (sched_init int) 3 = []" by (simp add: sched_init_def waiting_in_def)
  show ?thesis
    using wait_queue_priority_fifo [OF sched_inv_init, of 7 3 ZX_TIME_INFINITE 0 0 Ownership_Normal int wq_example]
      b e by simp
qed

end
