(* ===== verification/Semaphore.thy ===== *)
theory Semaphore
  imports Wait_Queue
begin

text \<open>
  The kernel's counting semaphore (\<^verbatim>\<open>zircon/kernel/kernel/semaphore.cc\<close>) and event
  (\<^verbatim>\<open>zircon/kernel/kernel/event.cc\<close>) over the wait queues. A wait that blocks is two atomic
  parts, because the thread lock is released while the thread sleeps: the part up to
  \<open>Block\<close>, and the part after it, which runs once the thread is scheduled again. Timeouts,
  kills and suspensions unblock a thread in between.
\<close>

section \<open>The interface of a wait queue\<close>

text \<open>
  What its clients rely on: a queue of threads \<open>waiting\<close>, a wake-up that releases the first
  of them with a status, a block that adds the caller, an unblock that takes one thread out.
\<close>

locale waiter_queue =
  fixes invar :: "'w \<Rightarrow> bool"
    and waiting :: "'w \<Rightarrow> nat list"
    and status_of :: "'w \<Rightarrow> nat \<Rightarrow> zx_status"
    and wake :: "zx_status \<Rightarrow> 'w \<Rightarrow> 'w"
    and unblock :: "nat \<Rightarrow> zx_status \<Rightarrow> 'w \<Rightarrow> 'w"
  assumes invar_wake: "invar w \<Longrightarrow> invar (wake e w)"
    and invar_unblock: "invar w \<Longrightarrow> invar (unblock t e w)"
    and waiting_wake: "invar w \<Longrightarrow> waiting (wake e w) = tl (waiting w)"
    and waiting_unblock: "invar w \<Longrightarrow> t \<in> set (waiting w) \<Longrightarrow> waiting (unblock t e w) = remove1 t (waiting w)"
    and waiting_distinct: "invar w \<Longrightarrow> distinct (waiting w)"
    and status_wake: "invar w \<Longrightarrow> waiting w = t # ts \<Longrightarrow> status_of (wake e w) t = e"
    and status_wake_other: "invar w \<Longrightarrow> (\<And>ts. waiting w \<noteq> u # ts) \<Longrightarrow> status_of (wake e w) u = status_of w u"
    and status_unblock: "invar w \<Longrightarrow> t \<in> set (waiting w) \<Longrightarrow> status_of (unblock t e w) t = e"
    and status_unblock_other: "invar w \<Longrightarrow> u \<noteq> t \<Longrightarrow> status_of (unblock t e w) u = status_of w u"
begin

text \<open>The threads of \<open>S\<close> that were released with success and have not returned yet.\<close>

definition released_ok :: "nat list \<Rightarrow> 'w \<Rightarrow> nat list" where
  "released_ok S w = filter (\<lambda>t. t \<notin> set (waiting w) \<and> status_of w t = ZX_OK) S"

lemma waiting_wake_set:
  "invar w \<Longrightarrow> waiting w = t # ts \<Longrightarrow> set (waiting (wake e w)) = set (waiting w) - {t}"
  using waiting_distinct [of w] by (simp add: waiting_wake)

lemma released_ok_wake:
  assumes inv: "invar w" and "distinct S"
  shows "length (released_ok S (wake e w)) \<le> Suc (length (released_ok S w))"
proof (cases "waiting w")
  case Nil
  then have "released_ok S (wake e w) = released_ok S w"
    using status_wake_other [OF inv] waiting_wake [OF inv] by (simp add: released_ok_def)
  then show ?thesis by simp
next
  case (Cons t ts)
  have "set (released_ok S (wake e w)) \<subseteq> insert t (set (released_ok S w))"
    using status_wake_other [OF inv] waiting_wake_set [OF inv Cons] Cons
    by (auto simp: released_ok_def)
  moreover have "distinct (released_ok S w')" for w'
    using assms(2) by (simp add: released_ok_def)
  ultimately have "card (set (released_ok S (wake e w))) \<le> card (insert t (set (released_ok S w)))"
    by (intro card_mono) auto
  also have "\<dots> \<le> Suc (card (set (released_ok S w)))" by (simp add: card_insert_if)
  finally show ?thesis
    using \<open>\<And>w'. distinct (released_ok S w')\<close> by (simp add: distinct_card)
qed

lemma released_ok_unblock:
  assumes inv: "invar w" and t: "t \<in> set (waiting w)" and e: "e \<noteq> ZX_OK"
  shows "released_ok S (unblock t e w) = released_ok S w"
  unfolding released_ok_def
proof (rule filter_cong [OF refl])
  fix u
  show "(u \<notin> set (waiting (unblock t e w)) \<and> status_of (unblock t e w) u = ZX_OK) =
        (u \<notin> set (waiting w) \<and> status_of w u = ZX_OK)"
    using status_unblock [OF inv t] status_unblock_other [OF inv, of u t] waiting_distinct [OF inv] t e
    by (cases "u = t") (auto simp: waiting_unblock [OF inv t])
qed

end

text \<open>The wait queues of the kernel are such a queue, whichever queue the client owns.\<close>

definition wake_queue :: "wq_id \<Rightarrow> zx_status \<Rightarrow> sched_world \<Rightarrow> sched_world" where
  "wake_queue q e w = snd (wait_queue_wake_one q e w)"

definition unblock_waiter :: "tid \<Rightarrow> zx_status \<Rightarrow> sched_world \<Rightarrow> sched_world" where
  "unblock_waiter t e w = snd (wait_queue_unblock_thread t e w)"

lemma unblock_waiter_waiting:
  assumes inv: "sched_inv w" and t: "t \<in> set (waiting_in w q)"
  shows "unblock_waiter t e w = sched_unblock t (wait_queue_dequeue_thread_internal q t e w)"
proof -
  have b: "blocking_wait_queue (threads w t) = Some q" using sched_invD(2) [OF inv] t by simp
  then have "is_blocked (threads w t)" using sched_invD(3) [OF inv, of t] by simp
  then show ?thesis using b
    by (auto simp: unblock_waiter_def wait_queue_unblock_thread_def Let_def is_blocked_def)
qed

lemma unblock_waiter_other:
  assumes "u \<noteq> t"
  shows "threads (unblock_waiter t e w) u = threads w u"
  using assms
  by (auto simp: unblock_waiter_def wait_queue_unblock_thread_def Let_def threads_wake split: option.splits)

lemma wake_queue_Cons:
  "waiting_in w q = t # ts \<Longrightarrow>
   wake_queue q e w = sched_unblock t (wait_queue_dequeue_thread_internal q t e w)"
  by (simp add: wake_queue_def wait_queue_wake_one_def wait_queue_peek_threads waiting_in_def)

lemma wake_queue_Nil: "waiting_in w q = [] \<Longrightarrow> wake_queue q e w = w"
  by (simp add: wake_queue_def wait_queue_wake_one_def wait_queue_peek_threads waiting_in_def)

interpretation wq: waiter_queue sched_inv "\<lambda>w. waiting_in w q" "\<lambda>w t. blocked_status (threads w t)"
  "wake_queue q" unblock_waiter for q
proof
  fix w e t u and ts :: "tid list"
  assume inv: "sched_inv w"
  show "sched_inv (wake_queue q e w)" unfolding wake_queue_def by (rule sched_inv_wake_one [OF inv])
  show "sched_inv (unblock_waiter t e w)"
    unfolding unblock_waiter_def by (rule sched_inv_unblock_thread [OF inv])
  show "waiting_in (wake_queue q e w) q = tl (waiting_in w q)"
    by (cases "waiting_in w q") (simp_all add: wake_queue_Nil wake_queue_Cons waiting_in_dequeue)
  show "distinct (waiting_in w q)"
    using sched_invD(1) [OF inv, of q] by (simp add: wq_ok_def waiting_in_def)
  show "waiting_in w q = t # ts \<Longrightarrow> blocked_status (threads (wake_queue q e w) t) = e"
    by (simp add: wake_queue_Cons threads_wake)
  show "(\<And>ts. waiting_in w q \<noteq> u # ts) \<Longrightarrow>
        blocked_status (threads (wake_queue q e w) u) = blocked_status (threads w u)"
    by (cases "waiting_in w q") (auto simp: wake_queue_Nil wake_queue_Cons threads_wake)
  show "u \<noteq> t \<Longrightarrow> blocked_status (threads (unblock_waiter t e w) u) = blocked_status (threads w u)"
    by (simp add: unblock_waiter_other)
next
  fix w e t
  assume "sched_inv w" "t \<in> set (waiting_in w q)"
  note u = unblock_waiter_waiting [OF this]
  show "waiting_in (unblock_waiter t e w) q = remove1 t (waiting_in w q)" by (simp add: u waiting_in_dequeue)
  show "blocked_status (threads (unblock_waiter t e w) t) = e" by (simp add: u threads_wake)
qed

section \<open>Semaphore\<close>

record semaphore =
  sem_count :: int
  sem_waitq :: wq_id

definition Semaphore_Post :: "semaphore \<Rightarrow> sched_world \<Rightarrow> int \<times> semaphore \<times> sched_world" where
  "Semaphore_Post s w =
     (let s' = s\<lparr>sem_count := sem_count s + 1\<rparr>;
          w' = (if sem_count s' \<le> 0 then snd (wait_queue_wake_one (sem_waitq s) ZX_OK w) else w)
      in (sem_count s', s', w'))"

text \<open>\<open>Wait\<close> up to the point where it returns (\<open>Some status\<close>) or the thread sleeps (\<open>None\<close>).\<close>

definition Semaphore_Wait ::
    "tid \<Rightarrow> int \<Rightarrow> int \<Rightarrow> semaphore \<Rightarrow> sched_world \<Rightarrow> zx_status option \<times> semaphore \<times> sched_world" where
  "Semaphore_Wait cur when now s w =
     (let s' = s\<lparr>sem_count := sem_count s - 1\<rparr> in
      if sem_count s' < 0 then
        (let w1 = upd_thread cur (\<lambda>th. th\<lparr>interruptable := True\<rparr>) w;
             (ret, w2) = wait_queue_block_etc_pre cur (sem_waitq s) when now 0 Ownership_Normal w1
         in if ret = ZX_OK then (None, s', w2)
            else (Some ret, s'\<lparr>sem_count := sem_count s' + 1\<rparr>,
                  upd_thread cur (\<lambda>th. th\<lparr>interruptable := False\<rparr>) w2))
      else (Some ZX_OK, s', w))"

text \<open>The rest of \<open>Wait\<close>, when the thread runs again.\<close>

definition Semaphore_Wait_resume :: "tid \<Rightarrow> semaphore \<Rightarrow> sched_world \<Rightarrow> zx_status \<times> semaphore \<times> sched_world" where
  "Semaphore_Wait_resume cur s w =
     (let ret = blocked_status (threads w cur);
          w' = upd_thread cur (\<lambda>th. th\<lparr>interruptable := False, thread_state := THREAD_RUNNING\<rparr>) w
      in (ret, if ret \<noteq> ZX_OK then s\<lparr>sem_count := sem_count s + 1\<rparr> else s, w'))"

subsection \<open>Executions of a semaphore\<close>

text \<open>
  One semaphore used by any number of threads. \<open>in_wait\<close> are the threads asleep in \<open>Wait\<close> or on their
  way out of it; \<open>n_post\<close> and \<open>n_ok\<close> count the calls of \<open>Post\<close> and the waits that returned \<open>ZX_OK\<close>.
  \<open>SemInterrupt\<close> is the timeout handler or a kill or suspend request unblocking a sleeping thread.
\<close>

record sem_sys =
  ss_sem :: semaphore
  ss_world :: sched_world
  in_wait :: "tid list"
  n_post :: int
  n_ok :: int

datatype sem_label = SemPost | SemWait | SemInterrupt | SemResume

inductive sem_step :: "sem_label \<Rightarrow> sem_sys \<Rightarrow> sem_sys \<Rightarrow> bool" where
  sem_post:
    "Semaphore_Post (ss_sem s) (ss_world s) = (c, m, w) \<Longrightarrow>
     sem_step SemPost s (s\<lparr>ss_sem := m, ss_world := w, n_post := n_post s + 1\<rparr>)"
| sem_wait_now:
    "t \<notin> set (in_wait s) \<Longrightarrow> \<not> is_blocked (threads (ss_world s) t) \<Longrightarrow>
     Semaphore_Wait t when now (ss_sem s) (ss_world s) = (Some st, m, w) \<Longrightarrow>
     sem_step SemWait s (s\<lparr>ss_sem := m, ss_world := w, n_ok := n_ok s + (if st = ZX_OK then 1 else 0)\<rparr>)"
| sem_wait_sleep:
    "t \<notin> set (in_wait s) \<Longrightarrow> \<not> is_blocked (threads (ss_world s) t) \<Longrightarrow>
     Semaphore_Wait t when now (ss_sem s) (ss_world s) = (None, m, w) \<Longrightarrow>
     sem_step SemWait s (s\<lparr>ss_sem := m, ss_world := w, in_wait := t # in_wait s\<rparr>)"
| sem_interrupt:
    "t \<in> set (waiting_in (ss_world s) (sem_waitq (ss_sem s))) \<Longrightarrow> err \<noteq> ZX_OK \<Longrightarrow>
     sem_step SemInterrupt s (s\<lparr>ss_world := unblock_waiter t err (ss_world s)\<rparr>)"
| sem_resume:
    "t \<in> set (in_wait s) \<Longrightarrow> \<not> is_blocked (threads (ss_world s) t) \<Longrightarrow>
     Semaphore_Wait_resume t (ss_sem s) (ss_world s) = (st, m, w) \<Longrightarrow>
     sem_step SemResume s (s\<lparr>ss_sem := m, ss_world := w, in_wait := remove1 t (in_wait s),
                             n_ok := n_ok s + (if st = ZX_OK then 1 else 0)\<rparr>)"

definition sem_init :: "int \<Rightarrow> (tid \<Rightarrow> int) \<Rightarrow> sem_sys" where
  "sem_init c pri = \<lparr>ss_sem = \<lparr>sem_count = c, sem_waitq = 0\<rparr>, ss_world = sched_init pri,
                     in_wait = [], n_post = 0, n_ok = 0\<rparr>"

inductive sem_run :: "int \<Rightarrow> sem_label list \<Rightarrow> sem_sys \<Rightarrow> bool" where
  sem_run_start: "0 \<le> c \<Longrightarrow> sem_run c [] (sem_init c pri)"
| sem_run_step: "sem_run c ls s \<Longrightarrow> sem_step l s s' \<Longrightarrow> sem_run c (ls @ [l]) s'"

abbreviation sem_waiting :: "sem_sys \<Rightarrow> tid list" where
  "sem_waiting s \<equiv> waiting_in (ss_world s) (sem_waitq (ss_sem s))"

text \<open>The accounting invariant, and how each half of a wait changes the queue.\<close>

definition sem_inv :: "int \<Rightarrow> sem_sys \<Rightarrow> bool" where
  "sem_inv c s \<longleftrightarrow> sched_inv (ss_world s) \<and> distinct (in_wait s) \<and>
     set (sem_waiting s) \<subseteq> set (in_wait s) \<and>
     (\<forall>t \<in> set (in_wait s). is_blocked (threads (ss_world s) t) \<longleftrightarrow> t \<in> set (sem_waiting s)) \<and>
     sem_count (ss_sem s) + n_ok s + int (length (in_wait s)) = c + n_post s \<and>
     n_ok s + int (length (wq.released_ok (sem_waitq (ss_sem s)) (in_wait s) (ss_world s))) \<le> c + n_post s"

lemma sched_inv_upd_thread:
  assumes "sched_inv w" "\<And>th. effec_priority (f th) = effec_priority th"
    "blocking_wait_queue (f (threads w t)) = blocking_wait_queue (threads w t)"
    "is_blocked (f (threads w t)) = is_blocked (threads w t)"
  shows "sched_inv (upd_thread t f w)"
  using assms by (auto simp: sched_inv_def waiting_in_def)

lemma waiting_in_upd_thread [simp]: "waiting_in (upd_thread t f w) q = waiting_in w q"
  by (simp add: waiting_in_def)

lemma Semaphore_Wait_cases:
  assumes inv: "sched_inv w" and nb: "\<not> is_blocked (threads w t)"
    and run: "Semaphore_Wait t when now s w = (r, s', w')"
  shows "sched_inv w' \<and> sem_waitq s' = sem_waitq s \<and>
    (case r of
       Some st \<Rightarrow> sem_count s' = sem_count s - (if st = ZX_OK then 1 else 0) \<and> waiting_in w' = waiting_in w \<and>
         (\<forall>u. blocked_status (threads w' u) = blocked_status (threads w u) \<and>
              is_blocked (threads w' u) = is_blocked (threads w u)) \<and>
         (st = ZX_OK \<longrightarrow> 1 \<le> sem_count s)
     | None \<Rightarrow> sem_count s' = sem_count s - 1 \<and> sem_count s \<le> 0 \<and>
         length (waiting_in w' (sem_waitq s)) = Suc (length (waiting_in w (sem_waitq s))) \<and>
         set (waiting_in w' (sem_waitq s)) = insert t (set (waiting_in w (sem_waitq s))) \<and>
         is_blocked (threads w' t) \<and> (\<forall>u. u \<noteq> t \<longrightarrow> threads w' u = threads w u))"
proof (cases "sem_count s - 1 < 0")
  case False
  then show ?thesis using run inv by (auto simp: Semaphore_Wait_def Let_def)
next
  case True
  let ?w1 = "upd_thread t (\<lambda>th. th\<lparr>interruptable := True\<rparr>) w"
  obtain ret w2 where blk: "wait_queue_block_etc_pre t (sem_waitq s) when now 0 Ownership_Normal ?w1 = (ret, w2)"
    by fastforce
  have inv1: "sched_inv ?w1" by (rule sched_inv_upd_thread [OF inv]) (auto simp: is_blocked_def)
  have nb1: "\<not> is_blocked (threads ?w1 t)" using nb by (simp add: is_blocked_def)
  have inv2: "sched_inv w2" by (rule sched_inv_block [OF inv1 nb1 blk])
  show ?thesis
  proof (cases "ret = ZX_OK")
    case True
    have w2: "w2 = upd_thread t (\<lambda>th. th\<lparr>thread_state := THREAD_BLOCKED, blocking_wait_queue := Some (sem_waitq s),
                                blocked_status := ZX_OK\<rparr>)
          (upd_wq (sem_waitq s) (\<lambda>wq. wq\<lparr>heads := wait_queue_insert (prio ?w1) t (heads wq),
                             wq_count := wq_count wq + 1\<rparr>) ?w1)"
      using block_pre_ok [OF blk [unfolded True]] by simp
    have r: "r = None" "s' = s\<lparr>sem_count := sem_count s - 1\<rparr>" "w' = w2"
      using run \<open>sem_count s - 1 < 0\<close> blk True by (auto simp: Semaphore_Wait_def Let_def)
    have nb2: "is_blocked (threads w2 t)" by (simp add: w2 is_blocked_def)
    have wt: "length (waiting_in w2 (sem_waitq s)) = Suc (length (waiting_in w (sem_waitq s)))"
      "set (waiting_in w2 (sem_waitq s)) = insert t (set (waiting_in w (sem_waitq s)))"
      by (simp_all add: w2 waiting_in_def)
    have ot: "\<forall>u. u \<noteq> t \<longrightarrow> threads w2 u = threads w u" by (simp add: w2)
    show ?thesis using \<open>sem_count s - 1 < 0\<close> inv2 nb2 wt ot by (simp add: r)
  next
    case False
    then have w2: "w2 = ?w1" using block_pre_err [OF blk] by simp
    have r: "r = Some ret" "s' = s" "w' = upd_thread t (\<lambda>th. th\<lparr>interruptable := False\<rparr>) ?w1"
      using run True blk False w2 by (auto simp: Semaphore_Wait_def Let_def)
    have "sched_inv w'" unfolding r(3) by (rule sched_inv_upd_thread [OF inv1]) (auto simp: is_blocked_def)
    then show ?thesis using False by (auto simp: r is_blocked_def waiting_in_def fun_eq_iff)
  qed
qed

text \<open>Each half of a wait and each wake-up keeps the accounting.\<close>

lemma sem_invD:
  assumes "sem_inv c s"
  shows "sched_inv (ss_world s)" "distinct (in_wait s)" "set (sem_waiting s) \<subseteq> set (in_wait s)"
    "t \<in> set (in_wait s) \<Longrightarrow> is_blocked (threads (ss_world s) t) \<longleftrightarrow> t \<in> set (sem_waiting s)"
    "sem_count (ss_sem s) + n_ok s + int (length (in_wait s)) = c + n_post s"
    "n_ok s + int (length (wq.released_ok (sem_waitq (ss_sem s)) (in_wait s) (ss_world s))) \<le> c + n_post s"
  using assms by (auto simp: sem_inv_def)

lemma Semaphore_Post_eq:
  "Semaphore_Post s w = (sem_count s + 1, s\<lparr>sem_count := sem_count s + 1\<rparr>,
     if sem_count s + 1 \<le> 0 then wake_queue (sem_waitq s) ZX_OK w else w)"
  by (simp add: Semaphore_Post_def wake_queue_def Let_def)

lemma wake_queue_blocked:
  assumes inv: "sched_inv w" and S: "\<forall>t \<in> S. is_blocked (threads w t) \<longleftrightarrow> t \<in> set (waiting_in w q)"
  shows "\<forall>t \<in> S. is_blocked (threads (wake_queue q e w) t) \<longleftrightarrow> t \<in> set (waiting_in (wake_queue q e w) q)"
proof (cases "waiting_in w q")
  case (Cons u us)
  then show ?thesis
    using S wq.waiting_distinct [OF inv, of q]
    by (auto simp: wake_queue_Cons threads_wake waiting_in_dequeue is_blocked_def)
qed (use S in \<open>simp add: wake_queue_Nil\<close>)

lemma sem_inv_post:
  assumes I: "sem_inv c s" and run: "Semaphore_Post (ss_sem s) (ss_world s) = (k, m, w)"
  shows "sem_inv c (s\<lparr>ss_sem := m, ss_world := w, n_post := n_post s + 1\<rparr>)"
proof -
  note inv = sem_invD(1) [OF I]
  have m: "m = (ss_sem s)\<lparr>sem_count := sem_count (ss_sem s) + 1\<rparr>"
    and w: "w = (if sem_count (ss_sem s) + 1 \<le> 0 then wake_queue (sem_waitq (ss_sem s)) ZX_OK (ss_world s)
                 else ss_world s)"
    using run by (auto simp: Semaphore_Post_eq)
  have "set (waiting_in w (sem_waitq (ss_sem s))) \<subseteq> set (sem_waiting s)"
    by (cases "sem_waiting s") (auto simp: w wq.waiting_wake [OF inv])
  moreover have "\<forall>t \<in> set (in_wait s). is_blocked (threads w t) \<longleftrightarrow> t \<in> set (waiting_in w (sem_waitq (ss_sem s)))"
    using wake_queue_blocked [OF inv, of "set (in_wait s)"] sem_invD(4) [OF I] by (simp add: w)
  moreover have "sched_inv w" using inv wq.invar_wake by (simp add: w)
  moreover have "length (wq.released_ok (sem_waitq (ss_sem s)) (in_wait s) w)
      \<le> Suc (length (wq.released_ok (sem_waitq (ss_sem s)) (in_wait s) (ss_world s)))"
    using wq.released_ok_wake [OF inv sem_invD(2) [OF I]] by (simp add: w)
  ultimately show ?thesis
    using sem_invD(2,3,5,6) [OF I] by (auto simp: sem_inv_def m)
qed

lemma sem_inv_interrupt:
  assumes I: "sem_inv c s" and t: "t \<in> set (sem_waiting s)" and e: "err \<noteq> ZX_OK"
  shows "sem_inv c (s\<lparr>ss_world := unblock_waiter t err (ss_world s)\<rparr>)"
proof -
  note inv = sem_invD(1) [OF I]
  let ?w = "unblock_waiter t err (ss_world s)"
  have wt: "set (waiting_in ?w (sem_waitq (ss_sem s))) = set (sem_waiting s) - {t}"
    using wq.waiting_unblock [OF inv t] wq.waiting_distinct [OF inv] by simp
  have "\<not> is_blocked (threads ?w t)"
    by (simp add: unblock_waiter_waiting [OF inv t] threads_wake is_blocked_def)
  then have "\<forall>u \<in> set (in_wait s). is_blocked (threads ?w u) \<longleftrightarrow> u \<in> set (waiting_in ?w (sem_waitq (ss_sem s)))"
    using sem_invD(4) [OF I] wt unblock_waiter_other [of _ t err "ss_world s"]
    by (metis Diff_iff insertCI insertE empty_iff)
  then show ?thesis
    using sem_invD(2,3,5,6) [OF I] wt wq.invar_unblock [OF inv] wq.released_ok_unblock [OF inv t e]
    by (auto simp: sem_inv_def)
qed

lemma sem_inv_wait_now:
  assumes I: "sem_inv c s" and nb: "\<not> is_blocked (threads (ss_world s) t)"
    and run: "Semaphore_Wait t when now (ss_sem s) (ss_world s) = (Some st, m, w)"
  shows "sem_inv c (s\<lparr>ss_sem := m, ss_world := w, n_ok := n_ok s + (if st = ZX_OK then 1 else 0)\<rparr>)"
proof -
  note W = Semaphore_Wait_cases [OF sem_invD(1) [OF I] nb run, simplified]
  have eq: "wq.released_ok (sem_waitq (ss_sem s)) (in_wait s) w =
      wq.released_ok (sem_waitq (ss_sem s)) (in_wait s) (ss_world s)"
    using W by (simp add: wq.released_ok_def)
  have "length (wq.released_ok (sem_waitq (ss_sem s)) (in_wait s) (ss_world s)) \<le> length (in_wait s)"
    by (simp add: wq.released_ok_def)
  moreover have "\<forall>u \<in> set (in_wait s). is_blocked (threads w u) \<longleftrightarrow> u \<in> set (waiting_in w (sem_waitq (ss_sem s)))"
    using W sem_invD(4) [OF I] by simp
  ultimately show ?thesis
    using W eq sem_invD(2,3,5,6) [OF I] by (cases "st = ZX_OK") (simp_all add: sem_inv_def)
qed

lemma sem_inv_wait_sleep:
  assumes I: "sem_inv c s" and t: "t \<notin> set (in_wait s)" and nb: "\<not> is_blocked (threads (ss_world s) t)"
    and run: "Semaphore_Wait t when now (ss_sem s) (ss_world s) = (None, m, w)"
  shows "sem_inv c (s\<lparr>ss_sem := m, ss_world := w, in_wait := t # in_wait s\<rparr>)"
proof -
  note W = Semaphore_Wait_cases [OF sem_invD(1) [OF I] nb run, simplified]
  have "wq.released_ok (sem_waitq (ss_sem s)) (t # in_wait s) w =
      wq.released_ok (sem_waitq (ss_sem s)) (in_wait s) (ss_world s)"
    using W t by (auto simp: wq.released_ok_def intro!: filter_cong)
  moreover have "\<forall>u \<in> set (t # in_wait s). is_blocked (threads w u) \<longleftrightarrow> u \<in> set (waiting_in w (sem_waitq (ss_sem s)))"
    using W t sem_invD(4) [OF I] by (metis insert_iff list.simps(15))
  ultimately show ?thesis
    using W t sem_invD(2,3,5,6) [OF I] by (simp add: sem_inv_def subset_insertI2)
qed

lemma sem_inv_resume:
  assumes I: "sem_inv c s" and t: "t \<in> set (in_wait s)" and nb: "\<not> is_blocked (threads (ss_world s) t)"
    and run: "Semaphore_Wait_resume t (ss_sem s) (ss_world s) = (st, m, w)"
  shows "sem_inv c (s\<lparr>ss_sem := m, ss_world := w, in_wait := remove1 t (in_wait s),
                       n_ok := n_ok s + (if st = ZX_OK then 1 else 0)\<rparr>)"
proof -
  let ?q = "sem_waitq (ss_sem s)"
  have st: "st = blocked_status (threads (ss_world s) t)"
    and m: "m = (if st \<noteq> ZX_OK then (ss_sem s)\<lparr>sem_count := sem_count (ss_sem s) + 1\<rparr> else ss_sem s)"
    and w: "w = upd_thread t (\<lambda>th. th\<lparr>interruptable := False, thread_state := THREAD_RUNNING\<rparr>) (ss_world s)"
    using run by (auto simp: Semaphore_Wait_resume_def Let_def)
  have nt: "t \<notin> set (sem_waiting s)" using sem_invD(4) [OF I t] nb by simp
  have inv: "sched_inv w"
    unfolding w by (rule sched_inv_upd_thread [OF sem_invD(1) [OF I]]) (use nb in \<open>auto simp: is_blocked_def\<close>)
  have rel: "wq.released_ok ?q (remove1 t (in_wait s)) w =
      remove1 t (wq.released_ok ?q (in_wait s) (ss_world s))"
    using sem_invD(2) [OF I] unfolding wq.released_ok_def filter_remove1 [symmetric]
    by (intro filter_cong) (auto simp: w)
  have len: "length (remove1 t xs) = length xs - (if t \<in> set xs then 1 else 0)" for xs
    by (simp add: length_remove1)
  have ok: "st = ZX_OK \<longleftrightarrow> t \<in> set (wq.released_ok ?q (in_wait s) (ss_world s))"
    using nt t by (simp add: wq.released_ok_def st)
  have l1: "int (length (remove1 t (in_wait s))) = int (length (in_wait s)) - 1"
    using t length_pos_if_in_set [OF t] by (simp add: len of_nat_diff Suc_leI)
  have l2: "int (length (remove1 t (wq.released_ok ?q (in_wait s) (ss_world s)))) =
      int (length (wq.released_ok ?q (in_wait s) (ss_world s))) - (if st = ZX_OK then 1 else 0)"
    using ok length_pos_if_in_set [of t "wq.released_ok ?q (in_wait s) (ss_world s)"]
    by (simp add: len of_nat_diff Suc_leI)
  have "\<forall>u \<in> set (remove1 t (in_wait s)). is_blocked (threads w u) \<longleftrightarrow> u \<in> set (waiting_in w ?q)"
    using sem_invD(4) [OF I] sem_invD(2) [OF I] by (simp add: w)
  moreover have "set (waiting_in w ?q) \<subseteq> set (remove1 t (in_wait s))"
    using sem_invD(2,3) [OF I] nt by (auto simp: w)
  ultimately show ?thesis
    using sem_invD(2,5,6) [OF I] inv by (simp add: sem_inv_def m rel l1 l2)
qed

lemma sem_inv_step: "sem_step l s s' \<Longrightarrow> sem_inv c s \<Longrightarrow> sem_inv c s'"
  by (induction rule: sem_step.induct)
    (blast intro: sem_inv_post sem_inv_wait_now sem_inv_wait_sleep sem_inv_interrupt sem_inv_resume)+

lemma sem_inv_init:
  assumes "0 \<le> c"
  shows "sem_inv c (sem_init c pri)"
proof -
  have "waiting_in (sched_init pri) 0 = []" by (simp add: waiting_in_def sched_init_def)
  then show ?thesis using assms by (simp add: sem_inv_def sem_init_def wq.released_ok_def)
qed

lemma sem_run_inv: "sem_run c ls s \<Longrightarrow> sem_inv c s"
  by (induction rule: sem_run.induct) (auto intro: sem_inv_init sem_inv_step)

lemma sem_step_no_interrupt:
  assumes st: "sem_step l s s'" and I: "sem_inv c s" and l: "l \<noteq> SemInterrupt"
    and ok: "\<forall>t \<in> set (in_wait s). blocked_status (threads (ss_world s) t) = ZX_OK"
    and len: "int (length (sem_waiting s)) = max 0 (- sem_count (ss_sem s))"
  shows "(\<forall>t \<in> set (in_wait s'). blocked_status (threads (ss_world s') t) = ZX_OK) \<and>
         int (length (sem_waiting s')) = max 0 (- sem_count (ss_sem s'))"
  using st
proof cases
  case (sem_post k m w)
  note inv = sem_invD(1) [OF I]
  have "blocked_status (threads (wake_queue q ZX_OK (ss_world s)) t) = ZX_OK" if "t \<in> set (in_wait s)" for t q
    using ok that wq.status_wake [OF inv, of q t] wq.status_wake_other [OF inv, of q t]
    by (metis (no_types))
  then show ?thesis using sem_post(2,3) ok len
    by (auto simp: Semaphore_Post_eq wq.waiting_wake [OF inv] of_nat_diff split: if_splits)
next
  case (sem_wait_now t "when" now st m w)
  then show ?thesis
    using Semaphore_Wait_cases [OF sem_invD(1) [OF I] sem_wait_now(4,5)] ok len by auto
next
  case (sem_wait_sleep t "when" now m w)
  have "wait_queue_block_etc_pre t (sem_waitq (ss_sem s)) when now 0 Ownership_Normal
      (upd_thread t (\<lambda>th. th\<lparr>interruptable := True\<rparr>) (ss_world s)) = (ZX_OK, w)"
    using sem_wait_sleep(5) by (auto simp: Semaphore_Wait_def Let_def split: if_splits prod.splits)
  then have "blocked_status (threads w t) = ZX_OK" by (drule_tac block_pre_ok) simp
  then show ?thesis
    using Semaphore_Wait_cases [OF sem_invD(1) [OF I] sem_wait_sleep(4,5)] sem_wait_sleep(2,3) ok len
    by auto
next
  case (sem_resume t st m w)
  then show ?thesis using ok len
    by (auto simp: Semaphore_Wait_resume_def Let_def dest: notin_set_remove1 split: if_splits)
qed (use l in simp)

text \<open>
  Property C13: a semaphore never admits more waits than it was posted. In every execution, timeouts and
  kills included, the waits that returned \<open>ZX_OK\<close> together with the threads already released
  with success are at most the initial count plus the number of posts, and the counter is
  exactly that total less the successful waits and the waits under way.
\<close>

theorem semaphore_token_accounting:
  assumes "sem_run c ls s"
  shows "n_ok s \<le> c + n_post s \<and>
    sem_count (ss_sem s) = c + n_post s - n_ok s - int (length (in_wait s)) \<and>
    set (sem_waiting s) \<subseteq> set (in_wait s)"
  using sem_invD(3,5,6) [OF sem_run_inv [OF assms]] by simp

text \<open>
  Property C21: no lost wake-up as long as no wait is interrupted: the threads asleep on the semaphore are
  exactly as many as the counter is negative, so nobody sleeps while the count is positive or
  zero, and every post made while someone sleeps releases one of them.
\<close>

theorem semaphore_no_lost_wakeup:
  assumes "sem_run c ls s" "SemInterrupt \<notin> set ls"
  shows "int (length (sem_waiting s)) = max 0 (- sem_count (ss_sem s)) \<and>
    (sem_waiting s \<noteq> [] \<longrightarrow>
       length (waiting_in (snd (snd (Semaphore_Post (ss_sem s) (ss_world s)))) (sem_waitq (ss_sem s))) <
       length (sem_waiting s))"
proof -
  have "(\<forall>t \<in> set (in_wait s). blocked_status (threads (ss_world s) t) = ZX_OK) \<and>
        int (length (sem_waiting s)) = max 0 (- sem_count (ss_sem s))"
    using assms
  proof (induction rule: sem_run.induct)
    case (sem_run_step c ls s l s')
    then show ?case using sem_step_no_interrupt [OF sem_run_step.hyps(2) sem_run_inv] by auto
  qed (simp add: sem_init_def sched_init_def waiting_in_def)
  then show ?thesis
    by (auto simp: Semaphore_Post_eq wq.waiting_wake [OF sem_invD(1) [OF sem_run_inv [OF assms(1)]]])
qed

text \<open>A run of three steps: a post after a wait that sleeps.\<close>

definition sem_after_wait :: "tid \<Rightarrow> sem_sys \<Rightarrow> sem_sys" where
  "sem_after_wait t s = (let (r, m, w) = Semaphore_Wait t ZX_TIME_INFINITE 0 (ss_sem s) (ss_world s)
     in s\<lparr>ss_sem := m, ss_world := w, in_wait := t # in_wait s\<rparr>)"

definition sem_after_post :: "sem_sys \<Rightarrow> sem_sys" where
  "sem_after_post s = (let (k, m, w) = Semaphore_Post (ss_sem s) (ss_world s)
     in s\<lparr>ss_sem := m, ss_world := w, n_post := n_post s + 1\<rparr>)"

definition sem_after_interrupt :: "tid \<Rightarrow> sem_sys \<Rightarrow> sem_sys" where
  "sem_after_interrupt t s = s\<lparr>ss_world := unblock_waiter t ZX_ERR_TIMED_OUT (ss_world s)\<rparr>"

definition sem_after_resume :: "tid \<Rightarrow> sem_sys \<Rightarrow> sem_sys" where
  "sem_after_resume t s = (let (st, m, w) = Semaphore_Wait_resume t (ss_sem s) (ss_world s)
     in s\<lparr>ss_sem := m, ss_world := w, in_wait := remove1 t (in_wait s), n_ok := n_ok s + (if st = ZX_OK then 1 else 0)\<rparr>)"

lemma sem_run_after_wait:
  "sem_run c ls s \<Longrightarrow> t \<notin> set (in_wait s) \<Longrightarrow> \<not> is_blocked (threads (ss_world s) t) \<Longrightarrow>
   fst (Semaphore_Wait t ZX_TIME_INFINITE 0 (ss_sem s) (ss_world s)) = None \<Longrightarrow>
   sem_run c (ls @ [SemWait]) (sem_after_wait t s)"
  by (auto simp: sem_after_wait_def intro!: sem_run_step [of c ls s] sem_wait_sleep split: prod.splits)

lemma sem_run_after_post: "sem_run c ls s \<Longrightarrow> sem_run c (ls @ [SemPost]) (sem_after_post s)"
  by (auto simp: sem_after_post_def intro!: sem_run_step [of c ls s] sem_post split: prod.splits)

lemma sem_run_after_interrupt:
  "sem_run c ls s \<Longrightarrow> t \<in> set (sem_waiting s) \<Longrightarrow> sem_run c (ls @ [SemInterrupt]) (sem_after_interrupt t s)"
  by (auto simp: sem_after_interrupt_def intro!: sem_run_step [of c ls s] sem_interrupt)

lemma sem_run_after_resume:
  "sem_run c ls s \<Longrightarrow> t \<in> set (in_wait s) \<Longrightarrow> \<not> is_blocked (threads (ss_world s) t) \<Longrightarrow>
   sem_run c (ls @ [SemResume]) (sem_after_resume t s)"
  by (cases "Semaphore_Wait_resume t (ss_sem s) (ss_world s)")
    (simp only: sem_after_resume_def Let_def prod.case, rule sem_run_step [OF _ sem_resume])

lemmas sem_exec_simps = sem_after_wait_def sem_after_post_def sem_after_interrupt_def sem_after_resume_def
  Semaphore_Wait_def Semaphore_Post_eq Semaphore_Wait_resume_def unblock_waiter_def wake_queue_def
  wait_queue_block_etc_pre_def wait_queue_unblock_thread_def wait_queue_dequeue_thread_internal_def
  wait_queue_wake_one_def wait_queue_peek_def wait_queue_remove_head_def sched_unblock_def
  sem_init_def sched_init_def waiting_in_def is_blocked_def Let_def

definition sem_slept :: sem_sys where
  "sem_slept = sem_after_wait 1 (sem_init 0 (\<lambda>_. 0))"

lemma sem_slept_run: "sem_run 0 [SemWait] sem_slept"
proof -
  have "sem_run 0 ([] @ [SemWait]) sem_slept"
    unfolding sem_slept_def
    by (rule sem_run_after_wait [OF sem_run_start]) (simp_all add: sem_exec_simps)
  then show ?thesis by simp
qed

theorem semaphore_token_accounting_witness:
  "sem_run 0 [SemWait] sem_slept \<and> sem_count (ss_sem sem_slept) = -1 \<and> sem_waiting sem_slept = [1]"
  using semaphore_token_accounting [OF sem_slept_run] sem_slept_run
  by (simp add: sem_slept_def sem_exec_simps)

theorem semaphore_no_lost_wakeup_witness:
  "sem_run 0 [SemWait] sem_slept \<and> length (sem_waiting sem_slept) = 1 \<and>
   waiting_in (snd (snd (Semaphore_Post (ss_sem sem_slept) (ss_world sem_slept)))) 0 = []"
  using semaphore_no_lost_wakeup [OF sem_slept_run] sem_slept_run
  by (simp add: sem_slept_def sem_exec_simps)

text \<open>
  Property C22: with an interrupted wait a wake-up can be lost. A waiter times out; before it runs again and
  gives its count back, a post finds the queue empty and another thread goes to sleep. Once the
  first thread has returned, a further post brings the count to one without waking the sleeper:
  a thread is asleep although the semaphore was posted twice and no wait has succeeded.
\<close>

theorem semaphore_lost_wakeup_after_timeout:
  "\<exists>s. sem_run 0 [SemWait, SemInterrupt, SemPost, SemWait, SemResume, SemPost] s \<and>
     sem_waiting s = [2] \<and> in_wait s = [2] \<and> sem_count (ss_sem s) = 1 \<and> n_post s = 2 \<and> n_ok s = 0"
proof -
  let ?s1 = "sem_after_interrupt 1 sem_slept"
  let ?s2 = "sem_after_post ?s1"
  let ?s3 = "sem_after_wait 2 ?s2"
  let ?s4 = "sem_after_resume 1 ?s3"
  have 1: "sem_run 0 ([SemWait] @ [SemInterrupt]) ?s1"
    by (rule sem_run_after_interrupt [OF sem_slept_run]) (simp add: sem_slept_def sem_exec_simps)
  note 2 = sem_run_after_post [OF 1]
  have 3: "sem_run 0 ((([SemWait] @ [SemInterrupt]) @ [SemPost]) @ [SemWait]) ?s3"
    by (rule sem_run_after_wait [OF 2]) (simp_all add: sem_slept_def sem_exec_simps)
  have 4: "sem_run 0 (((([SemWait] @ [SemInterrupt]) @ [SemPost]) @ [SemWait]) @ [SemResume]) ?s4"
    by (rule sem_run_after_resume [OF 3]) (simp_all add: sem_slept_def sem_exec_simps)
  have 5: "sem_run 0 [SemWait, SemInterrupt, SemPost, SemWait, SemResume, SemPost] (sem_after_post ?s4)"
    using sem_run_after_post [OF 4] by simp
  show ?thesis
    by (intro exI [of _ "sem_after_post ?s4"] conjI 5) (simp_all add: sem_slept_def sem_exec_simps)
qed

end
