(* ===== verification/Thread_Life.thy ===== *)
theory Thread_Life
  imports Semaphore
begin

text \<open>
  The life of a user thread: the state machine \<open>ThreadState\<close>
  (\<^verbatim>\<open>object/include/object/thread_state.h\<close>), the operations of \<open>ThreadDispatcher\<close> that drive it
  (\<^verbatim>\<open>object/thread_dispatcher.cc\<close>), and the kernel thread underneath with its kill and suspend
  signals (\<^verbatim>\<open>kernel/kernel/thread.cc\<close>). Operations of the dispatcher hold its lock, so each is
  atomic; the kernel thread's own path through \<open>thread_process_pending_signals\<close> and
  \<open>thread_do_suspend\<close> drops its locks around the callbacks and is cut there into steps.
\<close>

section \<open>ThreadState\<close>

datatype lifecycle = LC_INITIAL | LC_INITIALIZED | LC_RUNNING | LC_SUSPENDED | LC_DYING | LC_DEAD

datatype exception_state = EX_IDLE | EX_UNPROCESSED | EX_TRY_NEXT | EX_RESUME

datatype thread_value = INITIAL_IDLE | INITIALIZED_IDLE
  | RUNNING_IDLE | RUNNING_UNPROCESSED | RUNNING_TRY_NEXT | RUNNING_RESUME
  | SUSPENDED_IDLE | SUSPENDED_UNPROCESSED | SUSPENDED_TRY_NEXT | SUSPENDED_RESUME
  | DYING_IDLE | DYING_UNPROCESSED | DYING_TRY_NEXT | DYING_RESUME
  | DEAD_IDLE

fun ts_lifecycle :: "thread_value \<Rightarrow> lifecycle" where
  "ts_lifecycle INITIAL_IDLE = LC_INITIAL"
| "ts_lifecycle INITIALIZED_IDLE = LC_INITIALIZED"
| "ts_lifecycle RUNNING_IDLE = LC_RUNNING"
| "ts_lifecycle RUNNING_UNPROCESSED = LC_RUNNING"
| "ts_lifecycle RUNNING_TRY_NEXT = LC_RUNNING"
| "ts_lifecycle RUNNING_RESUME = LC_RUNNING"
| "ts_lifecycle SUSPENDED_IDLE = LC_SUSPENDED"
| "ts_lifecycle SUSPENDED_UNPROCESSED = LC_SUSPENDED"
| "ts_lifecycle SUSPENDED_TRY_NEXT = LC_SUSPENDED"
| "ts_lifecycle SUSPENDED_RESUME = LC_SUSPENDED"
| "ts_lifecycle DYING_IDLE = LC_DYING"
| "ts_lifecycle DYING_UNPROCESSED = LC_DYING"
| "ts_lifecycle DYING_TRY_NEXT = LC_DYING"
| "ts_lifecycle DYING_RESUME = LC_DYING"
| "ts_lifecycle DEAD_IDLE = LC_DEAD"

text \<open>\<open>None\<close> is the failed assertion of the default case.\<close>

fun ts_exception :: "thread_value \<Rightarrow> exception_state option" where
  "ts_exception RUNNING_IDLE = Some EX_IDLE"
| "ts_exception SUSPENDED_IDLE = Some EX_IDLE"
| "ts_exception DYING_IDLE = Some EX_IDLE"
| "ts_exception RUNNING_UNPROCESSED = Some EX_UNPROCESSED"
| "ts_exception SUSPENDED_UNPROCESSED = Some EX_UNPROCESSED"
| "ts_exception DYING_UNPROCESSED = Some EX_UNPROCESSED"
| "ts_exception RUNNING_TRY_NEXT = Some EX_TRY_NEXT"
| "ts_exception SUSPENDED_TRY_NEXT = Some EX_TRY_NEXT"
| "ts_exception DYING_TRY_NEXT = Some EX_TRY_NEXT"
| "ts_exception RUNNING_RESUME = Some EX_RESUME"
| "ts_exception SUSPENDED_RESUME = Some EX_RESUME"
| "ts_exception DYING_RESUME = Some EX_RESUME"
| "ts_exception INITIALIZED_IDLE = Some EX_IDLE"
| "ts_exception DEAD_IDLE = Some EX_IDLE"
| "ts_exception INITIAL_IDLE = None"

text \<open>
  The two setters: the new value, or \<open>None\<close> where the code asserts that the transition is
  illegal (a release build then leaves the value as it is).
\<close>

fun ts_set_lifecycle :: "lifecycle \<Rightarrow> thread_value \<Rightarrow> thread_value option" where
  "ts_set_lifecycle LC_INITIAL v = None"
| "ts_set_lifecycle LC_INITIALIZED v = (case v of INITIAL_IDLE \<Rightarrow> Some INITIALIZED_IDLE | _ \<Rightarrow> None)"
| "ts_set_lifecycle LC_RUNNING v =
     (case v of INITIALIZED_IDLE \<Rightarrow> Some RUNNING_IDLE | SUSPENDED_IDLE \<Rightarrow> Some RUNNING_IDLE
      | SUSPENDED_UNPROCESSED \<Rightarrow> Some RUNNING_UNPROCESSED | SUSPENDED_TRY_NEXT \<Rightarrow> Some RUNNING_TRY_NEXT
      | SUSPENDED_RESUME \<Rightarrow> Some RUNNING_RESUME | _ \<Rightarrow> None)"
| "ts_set_lifecycle LC_SUSPENDED v =
     (case v of RUNNING_IDLE \<Rightarrow> Some SUSPENDED_IDLE | RUNNING_UNPROCESSED \<Rightarrow> Some SUSPENDED_UNPROCESSED
      | RUNNING_TRY_NEXT \<Rightarrow> Some SUSPENDED_TRY_NEXT | RUNNING_RESUME \<Rightarrow> Some SUSPENDED_RESUME | _ \<Rightarrow> None)"
| "ts_set_lifecycle LC_DYING v =
     (case v of RUNNING_IDLE \<Rightarrow> Some DYING_IDLE | SUSPENDED_IDLE \<Rightarrow> Some DYING_IDLE | DYING_IDLE \<Rightarrow> Some DYING_IDLE
      | RUNNING_UNPROCESSED \<Rightarrow> Some DYING_UNPROCESSED | SUSPENDED_UNPROCESSED \<Rightarrow> Some DYING_UNPROCESSED
      | DYING_UNPROCESSED \<Rightarrow> Some DYING_UNPROCESSED
      | RUNNING_TRY_NEXT \<Rightarrow> Some DYING_TRY_NEXT | SUSPENDED_TRY_NEXT \<Rightarrow> Some DYING_TRY_NEXT
      | DYING_TRY_NEXT \<Rightarrow> Some DYING_TRY_NEXT
      | RUNNING_RESUME \<Rightarrow> Some DYING_RESUME | SUSPENDED_RESUME \<Rightarrow> Some DYING_RESUME
      | DYING_RESUME \<Rightarrow> Some DYING_RESUME | _ \<Rightarrow> None)"
| "ts_set_lifecycle LC_DEAD v =
     (case v of DYING_IDLE \<Rightarrow> Some DEAD_IDLE | DYING_UNPROCESSED \<Rightarrow> Some DEAD_IDLE
      | DYING_TRY_NEXT \<Rightarrow> Some DEAD_IDLE | DYING_RESUME \<Rightarrow> Some DEAD_IDLE | _ \<Rightarrow> None)"

fun ts_set_exception :: "exception_state \<Rightarrow> thread_value \<Rightarrow> thread_value option" where
  "ts_set_exception EX_IDLE v =
     (case v of RUNNING_UNPROCESSED \<Rightarrow> Some RUNNING_IDLE | RUNNING_TRY_NEXT \<Rightarrow> Some RUNNING_IDLE
      | RUNNING_RESUME \<Rightarrow> Some RUNNING_IDLE
      | SUSPENDED_UNPROCESSED \<Rightarrow> Some SUSPENDED_IDLE | SUSPENDED_TRY_NEXT \<Rightarrow> Some SUSPENDED_IDLE
      | SUSPENDED_RESUME \<Rightarrow> Some SUSPENDED_IDLE
      | DYING_UNPROCESSED \<Rightarrow> Some DYING_IDLE | DYING_TRY_NEXT \<Rightarrow> Some DYING_IDLE
      | DYING_RESUME \<Rightarrow> Some DYING_IDLE | _ \<Rightarrow> None)"
| "ts_set_exception EX_UNPROCESSED v =
     (case v of RUNNING_IDLE \<Rightarrow> Some RUNNING_UNPROCESSED | SUSPENDED_IDLE \<Rightarrow> Some SUSPENDED_UNPROCESSED
      | DYING_IDLE \<Rightarrow> Some DYING_UNPROCESSED | _ \<Rightarrow> None)"
| "ts_set_exception EX_TRY_NEXT v =
     (case v of RUNNING_UNPROCESSED \<Rightarrow> Some RUNNING_TRY_NEXT | SUSPENDED_UNPROCESSED \<Rightarrow> Some SUSPENDED_TRY_NEXT
      | DYING_UNPROCESSED \<Rightarrow> Some DYING_TRY_NEXT | _ \<Rightarrow> None)"
| "ts_set_exception EX_RESUME v =
     (case v of RUNNING_UNPROCESSED \<Rightarrow> Some RUNNING_RESUME | SUSPENDED_UNPROCESSED \<Rightarrow> Some SUSPENDED_RESUME
      | DYING_UNPROCESSED \<Rightarrow> Some DYING_RESUME | _ \<Rightarrow> None)"

text \<open>The two axes are independent: this is the specification the table implements.\<close>

definition lifecycle_edge :: "lifecycle \<Rightarrow> lifecycle \<Rightarrow> bool" where
  "lifecycle_edge a b \<longleftrightarrow> (a, b) \<in> set
     [(LC_INITIAL, LC_INITIALIZED), (LC_INITIALIZED, LC_RUNNING), (LC_SUSPENDED, LC_RUNNING),
      (LC_RUNNING, LC_SUSPENDED), (LC_RUNNING, LC_DYING), (LC_SUSPENDED, LC_DYING), (LC_DYING, LC_DYING),
      (LC_DYING, LC_DEAD)]"

definition exception_edge :: "exception_state \<Rightarrow> exception_state \<Rightarrow> bool" where
  "exception_edge a b \<longleftrightarrow> (a = EX_IDLE \<and> b = EX_UNPROCESSED) \<or> (a = EX_UNPROCESSED \<and> b \<noteq> EX_UNPROCESSED) \<or>
     (a \<in> {EX_TRY_NEXT, EX_RESUME} \<and> b = EX_IDLE)"

definition takes_exceptions :: "thread_value \<Rightarrow> bool" where
  "takes_exceptions v \<longleftrightarrow> ts_lifecycle v \<in> {LC_RUNNING, LC_SUSPENDED, LC_DYING}"

text \<open>
  Property C25: the table of fifteen values is the product of two state machines. A lifecycle
  change is accepted exactly along the legal edges and keeps the exception state (a thread
  that dies for good becomes idle); an exception change is accepted exactly along its own
  edges, only for threads that run, are suspended or are dying, and keeps the lifecycle.
\<close>

theorem thread_state_product:
  "(case ts_set_lifecycle l v of
      None \<Rightarrow> \<not> lifecycle_edge (ts_lifecycle v) l
    | Some v' \<Rightarrow> lifecycle_edge (ts_lifecycle v) l \<and> ts_lifecycle v' = l \<and>
        (if l = LC_DEAD \<or> l = LC_INITIALIZED then ts_exception v' = Some EX_IDLE
         else ts_exception v' = ts_exception v)) \<and>
   (case ts_set_exception e v of
      None \<Rightarrow> \<not> (takes_exceptions v \<and> exception_edge (the (ts_exception v)) e)
    | Some v' \<Rightarrow> takes_exceptions v \<and> exception_edge (the (ts_exception v)) e \<and>
        ts_exception v' = Some e \<and> ts_lifecycle v' = ts_lifecycle v)"
  by (cases l; cases v; cases e)
    (simp_all add: lifecycle_edge_def exception_edge_def takes_exceptions_def)

section \<open>The kernel thread and its signals\<close>

definition THREAD_SIGNAL_POLICY_EXCEPTION :: u32 where "THREAD_SIGNAL_POLICY_EXCEPTION = 4"

definition set_thread_signal :: "tid \<Rightarrow> u32 \<Rightarrow> sched_world \<Rightarrow> sched_world" where
  "set_thread_signal t b = upd_thread t (\<lambda>th. th\<lparr>thread_signals := thread_signals th OR b\<rparr>)"

definition clear_thread_signal :: "tid \<Rightarrow> u32 \<Rightarrow> sched_world \<Rightarrow> sched_world" where
  "clear_thread_signal t b = upd_thread t (\<lambda>th. th\<lparr>thread_signals := thread_signals th AND NOT b\<rparr>)"

definition thread_resume :: "tid \<Rightarrow> sched_world \<Rightarrow> sched_world" where
  "thread_resume t w =
     (if thread_state (threads w t) = THREAD_DEATH then w
      else (let w1 = clear_thread_signal t THREAD_SIGNAL_SUSPEND w in
        if thread_state (threads w1 t) = THREAD_INITIAL \<or> thread_state (threads w1 t) = THREAD_SUSPENDED
        then sched_unblock t w1 else w1))"

definition thread_suspend :: "tid \<Rightarrow> sched_world \<Rightarrow> zx_status \<times> sched_world" where
  "thread_suspend t w =
     (if thread_state (threads w t) = THREAD_DEATH then (ZX_ERR_BAD_STATE, w)
      else (let w1 = set_thread_signal t THREAD_SIGNAL_SUSPEND w in
        (ZX_OK,
         case thread_state (threads w1 t) of
           THREAD_INITIAL \<Rightarrow> sched_unblock t w1
         | THREAD_BLOCKED \<Rightarrow>
             (if interruptable (threads w1 t) then snd (wait_queue_unblock_thread t ZX_ERR_INTERNAL_INTR_RETRY w1) else w1)
         | THREAD_BLOCKED_READ_LOCK \<Rightarrow>
             (if interruptable (threads w1 t) then snd (wait_queue_unblock_thread t ZX_ERR_INTERNAL_INTR_RETRY w1) else w1)
         | THREAD_SLEEPING \<Rightarrow>
             (if interruptable (threads w1 t)
              then sched_unblock t (upd_thread t (\<lambda>th. th\<lparr>blocked_status := ZX_ERR_INTERNAL_INTR_RETRY\<rparr>) w1) else w1)
         | _ \<Rightarrow> w1)))"

text \<open>\<open>self\<close> is the test whether the thread kills itself.\<close>

definition thread_kill :: "bool \<Rightarrow> tid \<Rightarrow> sched_world \<Rightarrow> sched_world" where
  "thread_kill self t w =
     (let w1 = set_thread_signal t THREAD_SIGNAL_KILL w in
      if self then w1
      else case thread_state (threads w1 t) of
             THREAD_SUSPENDED \<Rightarrow> sched_unblock t w1
           | THREAD_BLOCKED \<Rightarrow>
               (if interruptable (threads w1 t) then snd (wait_queue_unblock_thread t ZX_ERR_INTERNAL_INTR_KILLED w1) else w1)
           | THREAD_BLOCKED_READ_LOCK \<Rightarrow>
               (if interruptable (threads w1 t) then snd (wait_queue_unblock_thread t ZX_ERR_INTERNAL_INTR_KILLED w1) else w1)
           | THREAD_SLEEPING \<Rightarrow>
               (if interruptable (threads w1 t)
                then sched_unblock t (upd_thread t (\<lambda>th. th\<lparr>blocked_status := ZX_ERR_INTERNAL_INTR_KILLED\<rparr>) w1) else w1)
           | _ \<Rightarrow> w1)"

definition check_kill_signal :: "thread \<Rightarrow> bool" where
  "check_kill_signal th \<longleftrightarrow> thread_signals th AND THREAD_SIGNAL_KILL \<noteq> 0"

text \<open>Where the thread is in its own path through the kernel, between two critical sections.\<close>

datatype thread_pc = PcNew | PcUser | PcException | PcSuspending | PcDoSuspend | PcSwitched | PcResuming
  | PcThreadExit | PcExitException | PcExited | PcDead

definition thread_process_pending_signals :: "tid \<Rightarrow> sched_world \<Rightarrow> thread_pc \<times> sched_world" where
  "thread_process_pending_signals t w =
     (let th = threads w t in
      if thread_signals th = 0 then (PcUser, w)
      else if check_kill_signal th then (PcThreadExit, w)
      else if thread_signals th AND THREAD_SIGNAL_POLICY_EXCEPTION \<noteq> 0
      then (PcUser, clear_thread_signal t THREAD_SIGNAL_POLICY_EXCEPTION w)
      else if thread_signals th AND THREAD_SIGNAL_SUSPEND \<noteq> 0 then (PcSuspending, w)
      else (PcUser, w))"

text \<open>\<open>thread_do_suspend\<close> after the \<open>Suspending\<close> callback, and after the context switch back.\<close>

definition thread_do_suspend_locked :: "tid \<Rightarrow> sched_world \<Rightarrow> thread_pc \<times> sched_world" where
  "thread_do_suspend_locked t w =
     (let th = threads w t in
      if check_kill_signal th then (PcThreadExit, w)
      else if thread_signals th AND THREAD_SIGNAL_SUSPEND \<noteq> 0
      then (PcSwitched, clear_thread_signal t THREAD_SIGNAL_SUSPEND
                          (upd_thread t (\<lambda>th. th\<lparr>thread_state := THREAD_SUSPENDED\<rparr>) w))
      else (PcResuming, w))"

definition thread_do_suspend_switched :: "tid \<Rightarrow> sched_world \<Rightarrow> thread_pc" where
  "thread_do_suspend_switched t w = (if check_kill_signal (threads w t) then PcThreadExit else PcResuming)"

definition thread_exit_locked :: "tid \<Rightarrow> wq_id \<Rightarrow> sched_world \<Rightarrow> sched_world" where
  "thread_exit_locked t retcode_wait_queue w =
     snd (wait_queue_wake_all retcode_wait_queue ZX_OK (upd_thread t (\<lambda>th. th\<lparr>thread_state := THREAD_DEATH\<rparr>) w))"

section \<open>ThreadDispatcher\<close>

abbreviation "ZX_THREAD_TERMINATED \<equiv> ZX_OBJECT_SIGNALED"
abbreviation "ZX_THREAD_RUNNING \<equiv> ZX_OBJECT_SIGNAL_4"
abbreviation "ZX_THREAD_SUSPENDED \<equiv> ZX_OBJECT_SIGNAL_5"

text \<open>\<open>td_assert_failed\<close> records that a setter met an illegal transition.\<close>

record thread_dispatcher =
  td_value :: thread_value
  td_suspend_count :: int
  td_signals :: zx_signals
  td_in_exception :: bool
  td_assert_failed :: bool

definition td_set_lifecycle :: "lifecycle \<Rightarrow> thread_dispatcher \<Rightarrow> thread_dispatcher" where
  "td_set_lifecycle l d = (case ts_set_lifecycle l (td_value d) of
     Some v \<Rightarrow> d\<lparr>td_value := v\<rparr> | None \<Rightarrow> d\<lparr>td_assert_failed := True\<rparr>)"

definition td_set_exception :: "exception_state \<Rightarrow> thread_dispatcher \<Rightarrow> thread_dispatcher" where
  "td_set_exception e d = (case ts_set_exception e (td_value d) of
     Some v \<Rightarrow> d\<lparr>td_value := v\<rparr> | None \<Rightarrow> d\<lparr>td_assert_failed := True\<rparr>)"

definition td_SetStateLocked :: "lifecycle \<Rightarrow> thread_dispatcher \<Rightarrow> thread_dispatcher" where
  "td_SetStateLocked l d =
     (let d' = td_set_lifecycle l d in
      case l of
        LC_RUNNING \<Rightarrow> d'\<lparr>td_signals := signals_update ZX_THREAD_SUSPENDED ZX_THREAD_RUNNING (td_signals d')\<rparr>
      | LC_SUSPENDED \<Rightarrow> d'\<lparr>td_signals := signals_update ZX_THREAD_RUNNING ZX_THREAD_SUSPENDED (td_signals d')\<rparr>
      | LC_DEAD \<Rightarrow> d'\<lparr>td_signals := signals_update (ZX_THREAD_RUNNING OR ZX_THREAD_SUSPENDED) ZX_THREAD_TERMINATED
                                      (td_signals d')\<rparr>
      | _ \<Rightarrow> d')"

definition td_IsDyingOrDeadLocked :: "thread_dispatcher \<Rightarrow> bool" where
  "td_IsDyingOrDeadLocked d \<longleftrightarrow> ts_lifecycle (td_value d) = LC_DYING \<or> ts_lifecycle (td_value d) = LC_DEAD"

definition td_HasStartedLocked :: "thread_dispatcher \<Rightarrow> bool" where
  "td_HasStartedLocked d \<longleftrightarrow> ts_lifecycle (td_value d) \<noteq> LC_INITIAL \<and> ts_lifecycle (td_value d) \<noteq> LC_INITIALIZED"

text \<open>The pool of futex states may fail to grow.\<close>

definition td_Initialize :: "zx_status \<Rightarrow> thread_dispatcher \<Rightarrow> zx_status \<times> thread_dispatcher" where
  "td_Initialize grow d = (if grow \<noteq> ZX_OK then (grow, d) else (ZX_OK, td_SetStateLocked LC_INITIALIZED d))"

definition td_MakeRunnable ::
    "tid \<Rightarrow> bool \<Rightarrow> thread_dispatcher \<Rightarrow> sched_world \<Rightarrow> zx_status \<times> thread_dispatcher \<times> sched_world" where
  "td_MakeRunnable t suspended d w =
     (if ts_lifecycle (td_value d) \<noteq> LC_INITIALIZED then (ZX_ERR_BAD_STATE, d, w)
      else (let d1 = (if suspended then d\<lparr>td_suspend_count := td_suspend_count d + 1\<rparr> else d);
                d2 = td_SetStateLocked LC_RUNNING d1
            in (ZX_OK, d2, if td_suspend_count d2 = 0 then thread_resume t w else snd (thread_suspend t w))))"

definition td_Kill :: "bool \<Rightarrow> tid \<Rightarrow> thread_dispatcher \<Rightarrow> sched_world \<Rightarrow> thread_dispatcher \<times> sched_world" where
  "td_Kill self t d w =
     (case ts_lifecycle (td_value d) of
        LC_RUNNING \<Rightarrow> (td_SetStateLocked LC_DYING d, thread_kill self t w)
      | LC_SUSPENDED \<Rightarrow> (td_SetStateLocked LC_DYING d, thread_kill self t w)
      | _ \<Rightarrow> (d, w))"

definition td_Suspend ::
    "tid \<Rightarrow> thread_dispatcher \<Rightarrow> sched_world \<Rightarrow> zx_status \<times> thread_dispatcher \<times> sched_world" where
  "td_Suspend t d w =
     (let d1 = d\<lparr>td_suspend_count := td_suspend_count d + 1\<rparr> in
      case ts_lifecycle (td_value d1) of
        LC_INITIAL \<Rightarrow> (ZX_ERR_BAD_STATE, d1\<lparr>td_assert_failed := True\<rparr>, w)
      | LC_INITIALIZED \<Rightarrow> (ZX_OK, d1, w)
      | LC_RUNNING \<Rightarrow> (if td_suspend_count d1 = 1 then (let (st, w') = thread_suspend t w in (st, d1, w'))
                      else (ZX_OK, d1, w))
      | LC_SUSPENDED \<Rightarrow> (if td_suspend_count d1 = 1 then (let (st, w') = thread_suspend t w in (st, d1, w'))
                        else (ZX_OK, d1, w))
      | _ \<Rightarrow> (ZX_ERR_BAD_STATE, d1, w))"

definition td_Resume :: "tid \<Rightarrow> thread_dispatcher \<Rightarrow> sched_world \<Rightarrow> thread_dispatcher \<times> sched_world" where
  "td_Resume t d w =
     (let d1 = d\<lparr>td_suspend_count := td_suspend_count d - 1\<rparr> in
      case ts_lifecycle (td_value d1) of
        LC_INITIAL \<Rightarrow> (d1\<lparr>td_assert_failed := True\<rparr>, w)
      | LC_RUNNING \<Rightarrow> (d1, if td_suspend_count d1 = 0 then thread_resume t w else w)
      | LC_SUSPENDED \<Rightarrow> (d1, if td_suspend_count d1 = 0 then thread_resume t w else w)
      | _ \<Rightarrow> (d1, w))"

definition td_Exit :: "thread_dispatcher \<Rightarrow> thread_dispatcher" where
  "td_Exit d = td_SetStateLocked LC_DYING d"

definition td_Exiting :: "thread_dispatcher \<Rightarrow> thread_dispatcher" where
  "td_Exiting d = td_SetStateLocked LC_DEAD d"

definition td_Suspending :: "thread_dispatcher \<Rightarrow> thread_dispatcher" where
  "td_Suspending d = (if ts_lifecycle (td_value d) \<noteq> LC_DYING then td_SetStateLocked LC_SUSPENDED d else d)"

definition td_Resuming :: "thread_dispatcher \<Rightarrow> thread_dispatcher" where
  "td_Resuming d = (if ts_lifecycle (td_value d) \<noteq> LC_DYING then td_SetStateLocked LC_RUNNING d else d)"

text \<open>
  \<open>HandleException\<close> up to the wait for the handler (the exception channel decides whether the
  exception could be sent), and after it.
\<close>

definition td_HandleException :: "zx_status \<Rightarrow> thread_dispatcher \<Rightarrow> zx_status option \<times> thread_dispatcher" where
  "td_HandleException send d =
     (if send \<noteq> ZX_OK then (Some send, d)
      else (None, td_set_exception EX_UNPROCESSED (d\<lparr>td_in_exception := True\<rparr>)))"

definition td_HandleException_resume :: "zx_status \<Rightarrow> thread_dispatcher \<Rightarrow> zx_status \<times> thread_dispatcher" where
  "td_HandleException_resume st d =
     (if td_IsDyingOrDeadLocked d then ZX_ERR_INTERNAL_INTR_KILLED else st,
      td_set_exception EX_IDLE (d\<lparr>td_in_exception := False\<rparr>))"

section \<open>Executions of one user thread\<close>

record thread_sys =
  ts_world :: sched_world
  ts_td :: thread_dispatcher
  ts_pc :: thread_pc

abbreviation run_state :: "tid \<Rightarrow> thread_sys \<Rightarrow> thread_run_state" where
  "run_state t s \<equiv> thread_state (threads (ts_world s) t)"

text \<open>
  The thread \<open>t\<close> and everybody else. The thread's own steps need it to be running; a policy
  exception is dispatched from \<open>PcUser\<close> like any other exception.
\<close>

inductive thread_step :: "tid \<Rightarrow> thread_sys \<Rightarrow> thread_sys \<Rightarrow> bool" for t where
  th_initialize: "ts_pc s = PcNew \<Longrightarrow> ts_lifecycle (td_value (ts_td s)) = LC_INITIAL \<Longrightarrow>
     thread_step t s (s\<lparr>ts_td := snd (td_Initialize grow (ts_td s))\<rparr>)"
| th_make_runnable: "td_MakeRunnable t b (ts_td s) (ts_world s) = (st, d, w) \<Longrightarrow>
     thread_step t s (s\<lparr>ts_td := d, ts_world := w, ts_pc := (if st = ZX_OK then PcUser else ts_pc s)\<rparr>)"
| th_suspend: "ts_lifecycle (td_value (ts_td s)) \<noteq> LC_INITIAL \<Longrightarrow>
     td_Suspend t (ts_td s) (ts_world s) = (st, d, w) \<Longrightarrow> thread_step t s (s\<lparr>ts_td := d, ts_world := w\<rparr>)"
| th_resume: "ts_lifecycle (td_value (ts_td s)) \<noteq> LC_INITIAL \<Longrightarrow> 0 < td_suspend_count (ts_td s) \<Longrightarrow> td_Resume t (ts_td s) (ts_world s) = (d, w) \<Longrightarrow>
     thread_step t s (s\<lparr>ts_td := d, ts_world := w\<rparr>)"
| th_kill: "self \<longrightarrow> run_state t s = THREAD_RUNNING \<Longrightarrow> td_Kill self t (ts_td s) (ts_world s) = (d, w) \<Longrightarrow>
     thread_step t s (s\<lparr>ts_td := d, ts_world := w\<rparr>)"
| th_policy: "ts_pc s = PcUser \<Longrightarrow> run_state t s = THREAD_RUNNING \<Longrightarrow>
     thread_step t s (s\<lparr>ts_world := set_thread_signal t THREAD_SIGNAL_POLICY_EXCEPTION (ts_world s)\<rparr>)"
| th_schedule: "run_state t s = THREAD_READY \<Longrightarrow>
     thread_step t s (s\<lparr>ts_world := upd_thread t (\<lambda>th. th\<lparr>thread_state := THREAD_RUNNING\<rparr>) (ts_world s)\<rparr>)"
| th_preempt: "run_state t s = THREAD_RUNNING \<Longrightarrow>
     thread_step t s (s\<lparr>ts_world := upd_thread t (\<lambda>th. th\<lparr>thread_state := THREAD_READY\<rparr>) (ts_world s)\<rparr>)"
| th_block: "ts_pc s \<in> {PcUser, PcException, PcExitException} \<Longrightarrow> run_state t s = THREAD_RUNNING \<Longrightarrow>
     wait_queue_block_etc_pre t q when now msk reason
       (upd_thread t (\<lambda>th. th\<lparr>interruptable := intr\<rparr>) (ts_world s)) = (st, w) \<Longrightarrow>
     thread_step t s (s\<lparr>ts_world := w\<rparr>)"
| th_wake: "thread_step t s (s\<lparr>ts_world := snd (wait_queue_wake_one q st (ts_world s))\<rparr>)"
| th_timeout: "thread_step t s (s\<lparr>ts_world := snd (wait_queue_unblock_thread t ZX_ERR_TIMED_OUT (ts_world s))\<rparr>)"
| th_exception: "ts_pc s = PcUser \<Longrightarrow> run_state t s = THREAD_RUNNING \<Longrightarrow>
     td_HandleException send (ts_td s) = (r, d) \<Longrightarrow>
     thread_step t s (s\<lparr>ts_td := d, ts_pc := (if r = None then PcException else PcUser)\<rparr>)"
| th_exception_done: "ts_pc s = PcException \<Longrightarrow> run_state t s = THREAD_RUNNING \<Longrightarrow>
     thread_step t s (s\<lparr>ts_td := snd (td_HandleException_resume st (ts_td s)), ts_pc := PcUser\<rparr>)"
| th_signals: "ts_pc s = PcUser \<Longrightarrow> run_state t s = THREAD_RUNNING \<Longrightarrow>
     thread_process_pending_signals t (ts_world s) = (pc, w) \<Longrightarrow> thread_step t s (s\<lparr>ts_pc := pc, ts_world := w\<rparr>)"
| th_suspending: "ts_pc s = PcSuspending \<Longrightarrow> run_state t s = THREAD_RUNNING \<Longrightarrow>
     thread_step t s (s\<lparr>ts_td := td_Suspending (ts_td s), ts_pc := PcDoSuspend\<rparr>)"
| th_do_suspend: "ts_pc s = PcDoSuspend \<Longrightarrow> run_state t s = THREAD_RUNNING \<Longrightarrow>
     thread_do_suspend_locked t (ts_world s) = (pc, w) \<Longrightarrow> thread_step t s (s\<lparr>ts_pc := pc, ts_world := w\<rparr>)"
| th_switched: "ts_pc s = PcSwitched \<Longrightarrow> run_state t s = THREAD_RUNNING \<Longrightarrow>
     thread_step t s (s\<lparr>ts_pc := thread_do_suspend_switched t (ts_world s)\<rparr>)"
| th_resuming: "ts_pc s = PcResuming \<Longrightarrow> run_state t s = THREAD_RUNNING \<Longrightarrow>
     thread_step t s (s\<lparr>ts_td := td_Resuming (ts_td s), ts_pc := PcUser\<rparr>)"
| th_exit: "ts_pc s = PcUser \<Longrightarrow> run_state t s = THREAD_RUNNING \<Longrightarrow>
     thread_step t s (s\<lparr>ts_td := td_Exit (ts_td s), ts_pc := PcThreadExit\<rparr>)"
| th_exit_exception: "ts_pc s = PcThreadExit \<Longrightarrow> run_state t s = THREAD_RUNNING \<Longrightarrow>
     td_HandleException ZX_OK (ts_td s) = (r, d) \<Longrightarrow> thread_step t s (s\<lparr>ts_td := d, ts_pc := PcExitException\<rparr>)"
| th_exit_exception_done: "ts_pc s = PcExitException \<Longrightarrow> run_state t s = THREAD_RUNNING \<Longrightarrow>
     thread_step t s (s\<lparr>ts_td := td_Exiting (snd (td_HandleException_resume st (ts_td s))), ts_pc := PcExited\<rparr>)"
| th_exiting: "ts_pc s = PcThreadExit \<Longrightarrow> run_state t s = THREAD_RUNNING \<Longrightarrow>
     thread_step t s (s\<lparr>ts_td := td_Exiting (ts_td s), ts_pc := PcExited\<rparr>)"
| th_exited: "ts_pc s = PcExited \<Longrightarrow> run_state t s = THREAD_RUNNING \<Longrightarrow>
     thread_step t s (s\<lparr>ts_world := thread_exit_locked t q (ts_world s), ts_pc := PcDead\<rparr>)"

definition thread_sys_init :: "tid \<Rightarrow> (tid \<Rightarrow> int) \<Rightarrow> thread_sys" where
  "thread_sys_init t pri =
     \<lparr>ts_world = upd_thread t (\<lambda>th. th\<lparr>thread_state := THREAD_INITIAL\<rparr>) (sched_init pri),
      ts_td = \<lparr>td_value = INITIAL_IDLE, td_suspend_count = 0, td_signals = 0, td_in_exception = False,
               td_assert_failed = False\<rparr>,
      ts_pc = PcNew\<rparr>"

inductive thread_reachable :: "tid \<Rightarrow> thread_sys \<Rightarrow> bool" for t where
  th_start: "thread_reachable t (thread_sys_init t pri)"
| th_next: "thread_reachable t s \<Longrightarrow> thread_step t s s' \<Longrightarrow> thread_reachable t s'"

subsection \<open>The invariant\<close>

text \<open>What each point of the thread's path implies for the scheduler state and the state value.\<close>

fun pc_ok :: "thread_pc \<Rightarrow> thread_run_state \<Rightarrow> thread_value \<Rightarrow> bool" where
  "pc_ok PcNew st v \<longleftrightarrow> st = THREAD_INITIAL \<and> v \<in> {INITIAL_IDLE, INITIALIZED_IDLE}"
| "pc_ok PcUser st v \<longleftrightarrow> st \<in> {THREAD_READY, THREAD_RUNNING, THREAD_BLOCKED, THREAD_BLOCKED_READ_LOCK} \<and>
     v \<in> {RUNNING_IDLE, DYING_IDLE}"
| "pc_ok PcException st v \<longleftrightarrow> st \<in> {THREAD_READY, THREAD_RUNNING, THREAD_BLOCKED, THREAD_BLOCKED_READ_LOCK} \<and>
     v \<in> {RUNNING_UNPROCESSED, DYING_UNPROCESSED}"
| "pc_ok PcSuspending st v \<longleftrightarrow> st \<in> {THREAD_READY, THREAD_RUNNING} \<and> v \<in> {RUNNING_IDLE, DYING_IDLE}"
| "pc_ok PcDoSuspend st v \<longleftrightarrow> st \<in> {THREAD_READY, THREAD_RUNNING} \<and> v \<in> {SUSPENDED_IDLE, DYING_IDLE}"
| "pc_ok PcSwitched st v \<longleftrightarrow> st \<in> {THREAD_READY, THREAD_RUNNING, THREAD_SUSPENDED} \<and> v \<in> {SUSPENDED_IDLE, DYING_IDLE}"
| "pc_ok PcResuming st v \<longleftrightarrow> st \<in> {THREAD_READY, THREAD_RUNNING} \<and> v \<in> {SUSPENDED_IDLE, DYING_IDLE}"
| "pc_ok PcThreadExit st v \<longleftrightarrow> st \<in> {THREAD_READY, THREAD_RUNNING} \<and> v = DYING_IDLE"
| "pc_ok PcExitException st v \<longleftrightarrow> st \<in> {THREAD_READY, THREAD_RUNNING, THREAD_BLOCKED, THREAD_BLOCKED_READ_LOCK} \<and>
     v = DYING_UNPROCESSED"
| "pc_ok PcExited st v \<longleftrightarrow> st \<in> {THREAD_READY, THREAD_RUNNING} \<and> v = DEAD_IDLE"
| "pc_ok PcDead st v \<longleftrightarrow> st = THREAD_DEATH \<and> v = DEAD_IDLE"

definition signals_ok :: "lifecycle \<Rightarrow> zx_signals \<Rightarrow> bool" where
  "signals_ok l sg \<longleftrightarrow> (bit sg 3 \<longleftrightarrow> l = LC_DEAD) \<and>
     (l \<noteq> LC_DYING \<longrightarrow> (bit sg 4 \<longleftrightarrow> l = LC_RUNNING) \<and> (bit sg 5 \<longleftrightarrow> l = LC_SUSPENDED))"

definition suspend_ok :: "lifecycle \<Rightarrow> int \<Rightarrow> bool \<Rightarrow> thread_run_state \<Rightarrow> bool" where
  "suspend_ok l n susp st \<longleftrightarrow> (l \<in> {LC_RUNNING, LC_SUSPENDED} \<longrightarrow> (0 < n \<longleftrightarrow> susp \<or> st = THREAD_SUSPENDED))"

definition kill_ok :: "thread_pc \<Rightarrow> lifecycle \<Rightarrow> bool \<Rightarrow> thread_run_state \<Rightarrow> bool" where
  "kill_ok pc l kill st \<longleftrightarrow> (kill \<longrightarrow> l \<in> {LC_DYING, LC_DEAD} \<and> st \<noteq> THREAD_SUSPENDED) \<and>
     (l = LC_DYING \<and> pc \<in> {PcUser, PcException, PcSuspending, PcDoSuspend, PcSwitched, PcResuming} \<longrightarrow> kill)"

definition th_inv :: "thread_pc \<Rightarrow> thread_run_state \<Rightarrow> bool \<Rightarrow> bool \<Rightarrow> thread_dispatcher \<Rightarrow> bool" where
  "th_inv pc st kill susp d \<longleftrightarrow> pc_ok pc st (td_value d) \<and> \<not> td_assert_failed d \<and> 0 \<le> td_suspend_count d \<and>
     (pc = PcNew \<longrightarrow> \<not> kill \<and> \<not> susp) \<and>
     kill_ok pc (ts_lifecycle (td_value d)) kill st \<and>
     suspend_ok (ts_lifecycle (td_value d)) (td_suspend_count d) susp st \<and>
     signals_ok (ts_lifecycle (td_value d)) (td_signals d)"

abbreviation kill_pending :: "tid \<Rightarrow> sched_world \<Rightarrow> bool" where
  "kill_pending t w \<equiv> bit (thread_signals (threads w t)) 0"

abbreviation suspend_pending :: "tid \<Rightarrow> sched_world \<Rightarrow> bool" where
  "suspend_pending t w \<equiv> bit (thread_signals (threads w t)) 1"

definition thread_inv :: "tid \<Rightarrow> thread_sys \<Rightarrow> bool" where
  "thread_inv t s \<longleftrightarrow> sched_inv (ts_world s) \<and>
     th_inv (ts_pc s) (run_state t s) (kill_pending t (ts_world s)) (suspend_pending t (ts_world s)) (ts_td s)"

text \<open>How the kernel's operations change what the invariant sees of the thread.\<close>

lemma thread_signal_bits [sig_bits]:
  "bit THREAD_SIGNAL_KILL n \<longleftrightarrow> n = 0" "bit THREAD_SIGNAL_SUSPEND n \<longleftrightarrow> n = 1"
  "bit THREAD_SIGNAL_POLICY_EXCEPTION n \<longleftrightarrow> n = 2"
  "x AND THREAD_SIGNAL_KILL = 0 \<longleftrightarrow> \<not> bit x 0" "x AND THREAD_SIGNAL_SUSPEND = 0 \<longleftrightarrow> \<not> bit x 1"
proof -
  have *: "THREAD_SIGNAL_KILL = push_bit 0 1" "THREAD_SIGNAL_SUSPEND = push_bit 1 1"
    "THREAD_SIGNAL_POLICY_EXCEPTION = push_bit 2 1"
    by (simp_all add: THREAD_SIGNAL_KILL_def THREAD_SIGNAL_SUSPEND_def THREAD_SIGNAL_POLICY_EXCEPTION_def)
  show "bit THREAD_SIGNAL_KILL n \<longleftrightarrow> n = 0" "bit THREAD_SIGNAL_SUSPEND n \<longleftrightarrow> n = 1"
    "bit THREAD_SIGNAL_POLICY_EXCEPTION n \<longleftrightarrow> n = 2"
    "x AND THREAD_SIGNAL_KILL = 0 \<longleftrightarrow> \<not> bit x 0" "x AND THREAD_SIGNAL_SUSPEND = 0 \<longleftrightarrow> \<not> bit x 1"
    unfolding * bit_flag and_flag_eq_iff by auto
qed

definition view :: "tid \<Rightarrow> sched_world \<Rightarrow> thread_run_state \<times> bool \<times> bool" where
  "view t w = (thread_state (threads w t), kill_pending t w, suspend_pending t w)"

lemma thread_inv_view:
  "thread_inv t s \<longleftrightarrow> sched_inv (ts_world s) \<and>
     (case view t (ts_world s) of (st, k, p) \<Rightarrow> th_inv (ts_pc s) st k p (ts_td s))"
  by (simp add: thread_inv_def view_def)

lemma sched_inv_signals:
  "sched_inv w \<Longrightarrow> sched_inv (set_thread_signal t b w)" "sched_inv w \<Longrightarrow> sched_inv (clear_thread_signal t b w)"
  unfolding set_thread_signal_def clear_thread_signal_def
  by (rule sched_inv_upd_thread; auto simp: is_blocked_def)+

lemma sched_inv_run_state:
  "sched_inv w \<Longrightarrow> \<not> is_blocked (threads w t) \<Longrightarrow> st \<notin> {THREAD_BLOCKED, THREAD_BLOCKED_READ_LOCK} \<Longrightarrow>
   sched_inv (upd_thread t (\<lambda>th. th\<lparr>thread_state := st\<rparr>) w)"
  by (rule sched_inv_upd_thread) (auto simp: is_blocked_def)

lemma sched_inv_ready: "sched_inv (w\<lparr>ready_threads := r\<rparr>) \<longleftrightarrow> sched_inv w"
proof -
  have "prio (w\<lparr>ready_threads := r\<rparr>) = prio w" by (simp add: prio_def fun_eq_iff)
  then show ?thesis by (simp add: sched_inv_def waiting_in_def)
qed

lemma sched_inv_sched_unblock:
  "sched_inv w \<Longrightarrow> \<not> is_blocked (threads w t) \<Longrightarrow> sched_inv (sched_unblock t w)"
  unfolding sched_unblock_def sched_inv_ready by (rule sched_inv_run_state) auto

lemma view_sched_unblock [simp]: "view t (sched_unblock t w) = (THREAD_READY, kill_pending t w, suspend_pending t w)"
  by (simp add: view_def sched_unblock_def)

lemma unblock_thread_view:
  assumes "sched_inv w"
  shows "view t (snd (wait_queue_unblock_thread t err w)) =
    (if is_blocked (threads w t) then (THREAD_READY, kill_pending t w, suspend_pending t w) else view t w)"
  using sched_invD(3) [OF assms, of t]
  by (auto simp: wait_queue_unblock_thread_def Let_def view_def threads_wake is_blocked_def split: option.splits)

lemma wake_one_view:
  assumes "sched_inv w"
  shows "view t (snd (wait_queue_wake_one q err w)) =
    (if is_blocked (threads w t) \<and> wait_queue_peek (heads (wait_queues w q)) = Some t
     then (THREAD_READY, kill_pending t w, suspend_pending t w) else view t w)"
proof (cases "wait_queue_peek (heads (wait_queues w q))")
  case (Some u)
  then have "u \<in> set (waiting_in w q)"
    by (auto simp: wait_queue_peek_threads waiting_in_def split: list.splits)
  then have "is_blocked (threads w u)" using sched_invD(2,3) [OF assms] by (metis option.distinct(1))
  then show ?thesis using Some by (auto simp: wait_queue_wake_one_def view_def threads_wake)
qed (simp add: wait_queue_wake_one_def)

lemma thread_resume_view:
  assumes inv: "sched_inv w" and "thread_state (threads w t) \<noteq> THREAD_DEATH"
  shows "sched_inv (thread_resume t w)"
    "view t (thread_resume t w) =
       (if thread_state (threads w t) \<in> {THREAD_INITIAL, THREAD_SUSPENDED} then THREAD_READY else thread_state (threads w t),
        kill_pending t w, False)"
proof -
  have nb: "\<not> is_blocked (threads (clear_thread_signal t THREAD_SIGNAL_SUSPEND w) t)"
    if "thread_state (threads w t) \<in> {THREAD_INITIAL, THREAD_SUSPENDED}"
    using that by (auto simp: is_blocked_def clear_thread_signal_def)
  show "sched_inv (thread_resume t w)"
    using assms nb sched_inv_signals(2) [OF inv] sched_inv_sched_unblock
    by (auto simp: thread_resume_def Let_def clear_thread_signal_def)
  show "view t (thread_resume t w) =
       (if thread_state (threads w t) \<in> {THREAD_INITIAL, THREAD_SUSPENDED} then THREAD_READY else thread_state (threads w t),
        kill_pending t w, False)"
    using assms by (simp add: thread_resume_def Let_def view_def [of t "clear_thread_signal t THREAD_SIGNAL_SUSPEND w"])
      (auto simp: clear_thread_signal_def sig_bits)
qed

lemma thread_suspend_view:
  assumes inv: "sched_inv w" and "thread_state (threads w t) \<notin> {THREAD_DEATH, THREAD_SLEEPING}"
  shows "fst (thread_suspend t w) = ZX_OK"
    "sched_inv (snd (thread_suspend t w))"
    "\<exists>st. view t (snd (thread_suspend t w)) = (st, kill_pending t w, True) \<and>
       (st = thread_state (threads w t) \<and> st \<noteq> THREAD_INITIAL \<or>
        st = THREAD_READY \<and> thread_state (threads w t) \<in> {THREAD_INITIAL, THREAD_BLOCKED, THREAD_BLOCKED_READ_LOCK})"
proof -
  let ?w1 = "set_thread_signal t THREAD_SIGNAL_SUSPEND w"
  have v: "view t ?w1 = (thread_state (threads w t), kill_pending t w, True)"
    by (simp add: view_def set_thread_signal_def sig_bits)
  have st: "thread_state (threads ?w1 t) = thread_state (threads w t)" by (simp add: set_thread_signal_def)
  note inv1 = sched_inv_signals(1) [OF inv, of t THREAD_SIGNAL_SUSPEND]
  show "fst (thread_suspend t w) = ZX_OK" using assms by (simp add: thread_suspend_def Let_def)
  show "sched_inv (snd (thread_suspend t w))"
    using assms inv1 sched_inv_sched_unblock [OF inv1] sched_inv_unblock_thread [OF inv1]
    by (auto simp: thread_suspend_def Let_def is_blocked_def st split: thread_run_state.splits)
  show "\<exists>st. view t (snd (thread_suspend t w)) = (st, kill_pending t w, True) \<and>
       (st = thread_state (threads w t) \<and> st \<noteq> THREAD_INITIAL \<or>
        st = THREAD_READY \<and> thread_state (threads w t) \<in> {THREAD_INITIAL, THREAD_BLOCKED, THREAD_BLOCKED_READ_LOCK})"
    using assms v unblock_thread_view [OF inv1]
    by (cases "thread_state (threads w t)")
      (auto simp: thread_suspend_def Let_def is_blocked_def st view_def [of t ?w1])
qed

lemma thread_kill_view:
  assumes inv: "sched_inv w" and "thread_state (threads w t) \<notin> {THREAD_DEATH, THREAD_SLEEPING, THREAD_INITIAL}"
    and self: "self \<Longrightarrow> thread_state (threads w t) = THREAD_RUNNING"
  shows "sched_inv (thread_kill self t w)"
    "\<exists>st. view t (thread_kill self t w) = (st, True, suspend_pending t w) \<and>
       (st = thread_state (threads w t) \<and> st \<noteq> THREAD_SUSPENDED \<or>
        st = THREAD_READY \<and> thread_state (threads w t) \<in> {THREAD_SUSPENDED, THREAD_BLOCKED, THREAD_BLOCKED_READ_LOCK})"
proof -
  let ?w1 = "set_thread_signal t THREAD_SIGNAL_KILL w"
  have v: "view t ?w1 = (thread_state (threads w t), True, suspend_pending t w)"
    by (simp add: view_def set_thread_signal_def sig_bits)
  have st: "thread_state (threads ?w1 t) = thread_state (threads w t)" by (simp add: set_thread_signal_def)
  note inv1 = sched_inv_signals(1) [OF inv, of t THREAD_SIGNAL_KILL]
  show "sched_inv (thread_kill self t w)"
    using assms inv1 sched_inv_sched_unblock [OF inv1] sched_inv_unblock_thread [OF inv1]
    by (auto simp: thread_kill_def Let_def is_blocked_def st split: thread_run_state.splits)
  show "\<exists>st. view t (thread_kill self t w) = (st, True, suspend_pending t w) \<and>
       (st = thread_state (threads w t) \<and> st \<noteq> THREAD_SUSPENDED \<or>
        st = THREAD_READY \<and> thread_state (threads w t) \<in> {THREAD_SUSPENDED, THREAD_BLOCKED, THREAD_BLOCKED_READ_LOCK})"
    using assms v unblock_thread_view [OF inv1]
    by (cases "thread_state (threads w t)")
      (auto simp: thread_kill_def Let_def is_blocked_def st view_def [of t ?w1])
qed

lemmas th_inv_defs = th_inv_def kill_ok_def suspend_ok_def signals_ok_def

lemmas td_defs = td_SetStateLocked_def td_set_lifecycle_def td_set_exception_def Let_def

lemma th_inv_state:
  "th_inv pc st k p d \<Longrightarrow> st \<noteq> THREAD_SUSPENDED \<Longrightarrow> st' \<noteq> THREAD_SUSPENDED \<Longrightarrow> pc_ok pc st' (td_value d) \<Longrightarrow>
   th_inv pc st' k p d"
  by (simp add: th_inv_def kill_ok_def suspend_ok_def)

lemma th_inv_woken:
  "th_inv pc st k p d \<Longrightarrow> st \<in> {THREAD_BLOCKED, THREAD_BLOCKED_READ_LOCK} \<Longrightarrow> th_inv pc THREAD_READY k p d"
  by (rule th_inv_state, assumption) (cases pc; auto simp: th_inv_def)+

lemma th_inv_blocked:
  "th_inv pc THREAD_RUNNING k p d \<Longrightarrow> pc \<in> {PcUser, PcException, PcExitException} \<Longrightarrow>
   st \<in> {THREAD_BLOCKED, THREAD_BLOCKED_READ_LOCK} \<Longrightarrow> th_inv pc st k p d"
  by (rule th_inv_state, assumption) (auto simp: th_inv_def)

lemma th_inv_scheduled:
  "th_inv pc st k p d \<Longrightarrow> st \<in> {THREAD_READY, THREAD_RUNNING} \<Longrightarrow> st' \<in> {THREAD_READY, THREAD_RUNNING} \<Longrightarrow>
   th_inv pc st' k p d"
  by (rule th_inv_state, assumption) (cases pc; auto simp: th_inv_def)+

lemma th_inv_not_sleeping: "th_inv pc st k p d \<Longrightarrow> st \<noteq> THREAD_SLEEPING"
  by (cases pc) (auto simp: th_inv_defs)

lemma th_inv_started:
  "th_inv pc st k p d \<Longrightarrow> ts_lifecycle (td_value d) \<in> {LC_RUNNING, LC_SUSPENDED} \<Longrightarrow>
   st \<notin> {THREAD_DEATH, THREAD_SLEEPING, THREAD_INITIAL}"
  by (cases pc; auto simp: th_inv_def)

lemma th_inv_initialized:
  "th_inv pc st k p d \<Longrightarrow> ts_lifecycle (td_value d) = LC_INITIALIZED \<Longrightarrow>
   pc = PcNew \<and> st = THREAD_INITIAL \<and> \<not> k \<and> \<not> p \<and> td_value d = INITIALIZED_IDLE"
  by (cases pc) (auto simp: th_inv_defs)

lemma th_inv_suspended:
  "th_inv pc st k p d \<Longrightarrow> ts_lifecycle (td_value d) \<in> {LC_RUNNING, LC_SUSPENDED} \<Longrightarrow> td_suspend_count d = 0 \<Longrightarrow>
   st' = st \<or> st' = THREAD_READY \<and> st \<in> {THREAD_BLOCKED, THREAD_BLOCKED_READ_LOCK} \<Longrightarrow>
   th_inv pc st' k True (d\<lparr>td_suspend_count := 1\<rparr>)"
  by (cases pc; cases "td_value d"; simp add: th_inv_defs; elim disjE conjE; simp)

lemma th_inv_resumed:
  "th_inv pc st k p d \<Longrightarrow> ts_lifecycle (td_value d) \<in> {LC_RUNNING, LC_SUSPENDED} \<Longrightarrow> td_suspend_count d = 1 \<Longrightarrow>
   th_inv pc (if st \<in> {THREAD_INITIAL, THREAD_SUSPENDED} then THREAD_READY else st) k False (d\<lparr>td_suspend_count := 0\<rparr>)"
  by (cases pc; cases "td_value d"; simp add: th_inv_defs; blast?)

lemma th_inv_count:
  assumes "th_inv pc st k p d" "0 \<le> n"
    and "ts_lifecycle (td_value d) \<in> {LC_RUNNING, LC_SUSPENDED} \<Longrightarrow> 0 < n \<longleftrightarrow> 0 < td_suspend_count d"
  shows "th_inv pc st k p (d\<lparr>td_suspend_count := n\<rparr>)"
proof -
  have "suspend_ok (ts_lifecycle (td_value d)) n p st"
    using assms by (auto simp: th_inv_def suspend_ok_def)
  then show ?thesis using assms(1,2) by (simp add: th_inv_def)
qed

lemma th_inv_killed:
  "th_inv pc st k p d \<Longrightarrow> ts_lifecycle (td_value d) \<in> {LC_RUNNING, LC_SUSPENDED} \<Longrightarrow>
   st' = st \<and> st' \<noteq> THREAD_SUSPENDED \<or>
   st' = THREAD_READY \<and> st \<in> {THREAD_SUSPENDED, THREAD_BLOCKED, THREAD_BLOCKED_READ_LOCK} \<Longrightarrow>
   th_inv pc st' True p (td_SetStateLocked LC_DYING d)"
  by (cases pc; cases "td_value d"; simp add: th_inv_defs td_defs; elim disjE conjE; simp)

lemma th_inv_make_runnable:
  assumes I: "thread_inv t s" and run: "td_MakeRunnable t b (ts_td s) (ts_world s) = (st, d, w)"
  shows "thread_inv t (s\<lparr>ts_td := d, ts_world := w, ts_pc := (if st = ZX_OK then PcUser else ts_pc s)\<rparr>)"
proof (cases "ts_lifecycle (td_value (ts_td s)) = LC_INITIALIZED")
  case True
  have inv: "sched_inv (ts_world s)" and th: "th_inv (ts_pc s) (run_state t s) (kill_pending t (ts_world s))
      (suspend_pending t (ts_world s)) (ts_td s)"
    using I by (auto simp: thread_inv_def)
  note th0 = th_inv_initialized [OF th True]
  have R: "sched_inv (thread_resume t (ts_world s))" "view t (thread_resume t (ts_world s)) = (THREAD_READY, False, False)"
    using thread_resume_view [OF inv, of t] th0 by auto
  have S: "sched_inv (snd (thread_suspend t (ts_world s)))"
      "view t (snd (thread_suspend t (ts_world s))) = (THREAD_READY, False, True)"
    using thread_suspend_view(2,3) [OF inv, of t] th0 by auto
  show ?thesis
    using run True R S th th0
    by (auto simp: td_MakeRunnable_def thread_inv_view td_defs th_inv_defs sig_bits split: if_splits)
next
  case False
  then have "s\<lparr>ts_td := d, ts_world := w, ts_pc := (if st = ZX_OK then PcUser else ts_pc s)\<rparr> = s"
    using run by (auto simp: td_MakeRunnable_def)
  then show ?thesis using I by simp
qed

lemma th_inv_suspend:
  assumes I: "thread_inv t s" and run: "td_Suspend t (ts_td s) (ts_world s) = (st, d, w)"
    and lc: "ts_lifecycle (td_value (ts_td s)) \<noteq> LC_INITIAL"
  shows "thread_inv t (s\<lparr>ts_td := d, ts_world := w\<rparr>)"
proof -
  have inv: "sched_inv (ts_world s)" and th: "th_inv (ts_pc s) (run_state t s) (kill_pending t (ts_world s))
      (suspend_pending t (ts_world s)) (ts_td s)"
    using I by (auto simp: thread_inv_def)
  let ?d = "(ts_td s)\<lparr>td_suspend_count := td_suspend_count (ts_td s) + 1\<rparr>"
  show ?thesis
  proof (cases "ts_lifecycle (td_value (ts_td s)) \<in> {LC_RUNNING, LC_SUSPENDED} \<and> td_suspend_count (ts_td s) = 0")
    case True
    have ns: "run_state t s \<notin> {THREAD_DEATH, THREAD_SLEEPING}" using th_inv_started [OF th] True by auto
    have dw: "d = (ts_td s)\<lparr>td_suspend_count := 1\<rparr>" "w = snd (thread_suspend t (ts_world s))"
      using run True by (auto simp: td_Suspend_def Let_def split: prod.splits)
    obtain st' where v: "view t w = (st', kill_pending t (ts_world s), True)"
      and st': "st' = run_state t s \<or> st' = THREAD_READY \<and> run_state t s \<in> {THREAD_BLOCKED, THREAD_BLOCKED_READ_LOCK}"
      using thread_suspend_view(3) [OF inv ns] th_inv_started [OF th] True unfolding dw by auto
    show ?thesis
      using th_inv_suspended [OF th conjunct1 [OF True] conjunct2 [OF True] st'] v thread_suspend_view(2) [OF inv ns]
      by (simp add: thread_inv_view dw)
  next
    case False
    then have "d = ?d" "w = ts_world s"
      using run lc by (auto simp: td_Suspend_def Let_def split: lifecycle.splits if_splits)
    moreover have "th_inv (ts_pc s) (run_state t s) (kill_pending t (ts_world s)) (suspend_pending t (ts_world s)) ?d"
      using th False by (intro th_inv_count) (auto simp: th_inv_def)
    ultimately show ?thesis using inv by (simp add: thread_inv_def)
  qed
qed

lemma th_inv_resume:
  assumes I: "thread_inv t s" and run: "td_Resume t (ts_td s) (ts_world s) = (d, w)"
    and cnt: "0 < td_suspend_count (ts_td s)" and lc: "ts_lifecycle (td_value (ts_td s)) \<noteq> LC_INITIAL"
  shows "thread_inv t (s\<lparr>ts_td := d, ts_world := w\<rparr>)"
proof -
  have inv: "sched_inv (ts_world s)" and th: "th_inv (ts_pc s) (run_state t s) (kill_pending t (ts_world s))
      (suspend_pending t (ts_world s)) (ts_td s)"
    using I by (auto simp: thread_inv_def)
  let ?d = "(ts_td s)\<lparr>td_suspend_count := td_suspend_count (ts_td s) - 1\<rparr>"
  show ?thesis
  proof (cases "ts_lifecycle (td_value (ts_td s)) \<in> {LC_RUNNING, LC_SUSPENDED} \<and> td_suspend_count (ts_td s) = 1")
    case True
    have ns: "run_state t s \<noteq> THREAD_DEATH" using th_inv_started [OF th] True by auto
    have "d = (ts_td s)\<lparr>td_suspend_count := 0\<rparr>" "w = thread_resume t (ts_world s)"
      using run True by (auto simp: td_Resume_def Let_def)
    then show ?thesis
      using th_inv_resumed [OF th conjunct1 [OF True] conjunct2 [OF True]] thread_resume_view [OF inv ns]
      by (simp add: thread_inv_view)
  next
    case False
    then have "d = ?d" "w = ts_world s"
      using run lc by (auto simp: td_Resume_def Let_def split: lifecycle.splits if_splits)
    moreover have "th_inv (ts_pc s) (run_state t s) (kill_pending t (ts_world s)) (suspend_pending t (ts_world s)) ?d"
      using th False cnt by (intro th_inv_count) auto
    ultimately show ?thesis using inv by (simp add: thread_inv_def)
  qed
qed

lemma th_inv_kill:
  assumes I: "thread_inv t s" and run: "td_Kill self t (ts_td s) (ts_world s) = (d, w)"
    and self: "self \<longrightarrow> run_state t s = THREAD_RUNNING"
  shows "thread_inv t (s\<lparr>ts_td := d, ts_world := w\<rparr>)"
proof (cases "ts_lifecycle (td_value (ts_td s)) \<in> {LC_RUNNING, LC_SUSPENDED}")
  case True
  have inv: "sched_inv (ts_world s)" and th: "th_inv (ts_pc s) (run_state t s) (kill_pending t (ts_world s))
      (suspend_pending t (ts_world s)) (ts_td s)"
    using I by (auto simp: thread_inv_def)
  have dw: "d = td_SetStateLocked LC_DYING (ts_td s)" "w = thread_kill self t (ts_world s)"
    using run True by (auto simp: td_Kill_def)
  obtain st' where "view t w = (st', True, suspend_pending t (ts_world s))"
    and "st' = run_state t s \<and> st' \<noteq> THREAD_SUSPENDED \<or>
      st' = THREAD_READY \<and> run_state t s \<in> {THREAD_SUSPENDED, THREAD_BLOCKED, THREAD_BLOCKED_READ_LOCK}"
    using thread_kill_view(2) [OF inv th_inv_started [OF th True], of self] self unfolding dw by auto
  then show ?thesis
    using th_inv_killed [OF th True] thread_kill_view(1) [OF inv th_inv_started [OF th True], of self] self
    by (simp add: thread_inv_view dw)
next
  case False
  then have "s\<lparr>ts_td := d, ts_world := w\<rparr> = s"
    using run by (auto simp: td_Kill_def split: lifecycle.splits)
  then show ?thesis using I by simp
qed

lemmas own_defs = th_inv_defs td_defs td_HandleException_def td_HandleException_resume_def td_Suspending_def
  td_Resuming_def td_Exit_def td_Exiting_def sig_bits

text \<open>The thread's own steps, which change only what is its own to change.\<close>

lemma th_inv_own:
  assumes th: "th_inv pc THREAD_RUNNING k p d"
  shows "pc = PcUser \<Longrightarrow> td_HandleException send d = (r, d') \<Longrightarrow>
      th_inv (if r = None then PcException else PcUser) THREAD_RUNNING k p d'"
    and "pc = PcException \<Longrightarrow> th_inv PcUser THREAD_RUNNING k p (snd (td_HandleException_resume st d))"
    and "pc = PcSuspending \<Longrightarrow> th_inv PcDoSuspend THREAD_RUNNING k p (td_Suspending d)"
    and "pc = PcResuming \<Longrightarrow> th_inv PcUser THREAD_RUNNING k p (td_Resuming d)"
    and "pc = PcUser \<Longrightarrow> th_inv PcThreadExit THREAD_RUNNING k p (td_Exit d)"
    and "pc = PcThreadExit \<Longrightarrow> td_HandleException ZX_OK d = (r, d') \<Longrightarrow> th_inv PcExitException THREAD_RUNNING k p d'"
    and "pc = PcExitException \<Longrightarrow>
      th_inv PcExited THREAD_RUNNING k p (td_Exiting (snd (td_HandleException_resume st d)))"
    and "pc = PcThreadExit \<Longrightarrow> th_inv PcExited THREAD_RUNNING k p (td_Exiting d)"
    and "pc = PcSwitched \<Longrightarrow> th_inv (if k then PcThreadExit else PcResuming) THREAD_RUNNING k p d"
  subgoal using th by (cases "td_value d") (auto simp: own_defs split: if_splits)
  subgoal using th by (cases "td_value d") (simp_all add: own_defs)
  subgoal using th by (cases "td_value d") (simp_all add: own_defs)
  subgoal using th by (cases "td_value d") (simp_all add: own_defs)
  subgoal using th by (cases "td_value d") (simp_all add: own_defs)
  subgoal using th by (cases "td_value d") (auto simp: own_defs)
  subgoal using th by (cases "td_value d") (simp_all add: own_defs)
  subgoal using th by (cases "td_value d") (simp_all add: own_defs)
  subgoal using th by (cases "td_value d") (simp_all add: own_defs)
  done

lemma th_inv_do_suspend:
  assumes I: "thread_inv t s" and pc: "ts_pc s = PcDoSuspend" "run_state t s = THREAD_RUNNING"
    and run: "thread_do_suspend_locked t (ts_world s) = (pc', w)"
  shows "thread_inv t (s\<lparr>ts_pc := pc', ts_world := w\<rparr>)"
proof -
  have inv: "sched_inv (ts_world s)" and th: "th_inv PcDoSuspend THREAD_RUNNING (kill_pending t (ts_world s))
      (suspend_pending t (ts_world s)) (ts_td s)"
    using I pc by (auto simp: thread_inv_def)
  let ?w1 = "upd_thread t (\<lambda>th. th\<lparr>thread_state := THREAD_SUSPENDED\<rparr>) (ts_world s)"
  have inv1: "sched_inv (clear_thread_signal t THREAD_SIGNAL_SUSPEND ?w1)"
    by (rule sched_inv_signals(2) [OF sched_inv_run_state [OF inv]]) (use pc in \<open>auto simp: is_blocked_def\<close>)
  have v1: "view t (clear_thread_signal t THREAD_SIGNAL_SUSPEND ?w1) =
      (THREAD_SUSPENDED, kill_pending t (ts_world s), False)"
    by (simp add: view_def clear_thread_signal_def sig_bits)
  have v0: "view t (ts_world s) = (THREAD_RUNNING, kill_pending t (ts_world s), suspend_pending t (ts_world s))"
    using pc by (simp add: view_def)
  show ?thesis
    using run inv inv1 v1 v0 th
    by (auto simp: thread_do_suspend_locked_def thread_inv_view check_kill_signal_def sig_bits th_inv_defs Let_def
        split: if_splits)
qed

lemma th_inv_signals:
  assumes I: "thread_inv t s" and pc: "ts_pc s = PcUser" "run_state t s = THREAD_RUNNING"
    and run: "thread_process_pending_signals t (ts_world s) = (pc', w)"
  shows "thread_inv t (s\<lparr>ts_pc := pc', ts_world := w\<rparr>)"
proof -
  have inv: "sched_inv (ts_world s)" and th: "th_inv PcUser THREAD_RUNNING (kill_pending t (ts_world s))
      (suspend_pending t (ts_world s)) (ts_td s)"
    using I pc by (auto simp: thread_inv_def)
  have v0: "view t (ts_world s) = (THREAD_RUNNING, kill_pending t (ts_world s), suspend_pending t (ts_world s))"
    using pc by (simp add: view_def)
  have v1: "view t (clear_thread_signal t THREAD_SIGNAL_POLICY_EXCEPTION (ts_world s)) = view t (ts_world s)"
    by (simp add: view_def clear_thread_signal_def sig_bits)
  have new: "th_inv (if kill_pending t (ts_world s) then PcThreadExit else PcSuspending) THREAD_RUNNING
      (kill_pending t (ts_world s)) (suspend_pending t (ts_world s)) (ts_td s)"
    using th by (auto simp: th_inv_defs)
  show ?thesis
    using run inv sched_inv_signals(2) [OF inv] v1 v0 th new
    by (auto simp: thread_process_pending_signals_def thread_inv_view check_kill_signal_def sig_bits Let_def
        split: if_splits)
qed

lemma thread_inv_ownI:
  assumes "thread_inv t s" "run_state t s = THREAD_RUNNING"
    and "\<And>k p. th_inv (ts_pc s) THREAD_RUNNING k p (ts_td s) \<Longrightarrow> th_inv pc THREAD_RUNNING k p d"
  shows "thread_inv t (s\<lparr>ts_td := d, ts_pc := pc\<rparr>)"
  using assms by (simp add: thread_inv_def)

lemma thread_inv_worldI:
  assumes "thread_inv t s" "sched_inv w"
    and "\<And>k p. th_inv (ts_pc s) (run_state t s) k p (ts_td s) \<Longrightarrow> th_inv (ts_pc s) (thread_state (threads w t)) k p (ts_td s)"
    and "thread_signals (threads w t) = thread_signals (threads (ts_world s) t) \<or>
         (\<exists>b. thread_signals (threads w t) = thread_signals (threads (ts_world s) t) OR b \<and> \<not> bit b 0 \<and> \<not> bit b 1)"
  shows "thread_inv t (s\<lparr>ts_world := w\<rparr>)"
  using assms by (auto simp: thread_inv_def sig_bits)

lemma thread_inv_schedule:
  assumes I: "thread_inv t s" and st: "run_state t s \<in> {THREAD_READY, THREAD_RUNNING}" "st' \<in> {THREAD_READY, THREAD_RUNNING}"
  shows "thread_inv t (s\<lparr>ts_world := upd_thread t (\<lambda>th. th\<lparr>thread_state := st'\<rparr>) (ts_world s)\<rparr>)"
proof (rule thread_inv_worldI [OF I])
  show "sched_inv (upd_thread t (\<lambda>th. th\<lparr>thread_state := st'\<rparr>) (ts_world s))"
    using I st by (intro sched_inv_run_state) (auto simp: thread_inv_def is_blocked_def)
qed (use st in \<open>simp_all add: th_inv_scheduled\<close>)

lemma thread_inv_block:
  assumes I: "thread_inv t s" and pc: "ts_pc s \<in> {PcUser, PcException, PcExitException}" "run_state t s = THREAD_RUNNING"
    and blk: "wait_queue_block_etc_pre t q when now msk reason
        (upd_thread t (\<lambda>th. th\<lparr>interruptable := intr\<rparr>) (ts_world s)) = (st, w)"
  shows "thread_inv t (s\<lparr>ts_world := w\<rparr>)"
proof (rule thread_inv_worldI [OF I])
  let ?w0 = "upd_thread t (\<lambda>th. th\<lparr>interruptable := intr\<rparr>) (ts_world s)"
  have inv: "sched_inv ?w0"
    using I by (intro sched_inv_upd_thread) (auto simp: thread_inv_def is_blocked_def)
  have nb: "\<not> is_blocked (threads ?w0 t)" using pc by (simp add: is_blocked_def)
  show "sched_inv w" by (rule sched_inv_block [OF inv nb blk])
  have w: "threads w t = threads ?w0 t \<or> thread_state (threads w t) \<in> {THREAD_BLOCKED, THREAD_BLOCKED_READ_LOCK} \<and>
      thread_signals (threads w t) = thread_signals (threads (ts_world s) t)"
  proof (cases "st = ZX_OK")
    case True
    then show ?thesis using block_pre_ok [OF blk [unfolded True]] by (simp split: resource_ownership.splits)
  next
    case False
    then show ?thesis using block_pre_err [OF blk] by simp
  qed
  show "th_inv (ts_pc s) (run_state t s) k p (ts_td s) \<Longrightarrow>
      th_inv (ts_pc s) (thread_state (threads w t)) k p (ts_td s)" for k p
    using w pc th_inv_blocked by auto
  show "thread_signals (threads w t) = thread_signals (threads (ts_world s) t) \<or>
      (\<exists>b. thread_signals (threads w t) = thread_signals (threads (ts_world s) t) OR b \<and> \<not> bit b 0 \<and> \<not> bit b 1)"
    using w by auto
qed

lemma thread_inv_exited:
  assumes I: "thread_inv t s" and pc: "ts_pc s = PcExited" "run_state t s = THREAD_RUNNING"
  shows "thread_inv t (s\<lparr>ts_world := thread_exit_locked t q (ts_world s), ts_pc := PcDead\<rparr>)"
proof -
  let ?w = "upd_thread t (\<lambda>th. th\<lparr>thread_state := THREAD_DEATH\<rparr>) (ts_world s)"
  have inv: "sched_inv ?w" using I pc by (intro sched_inv_run_state) (auto simp: thread_inv_def is_blocked_def)
  have "t \<notin> set (waiting_in ?w q)"
    using sched_invD(2,3) [OF inv, of t] by (auto simp: is_blocked_def)
  then have "threads (thread_exit_locked t q (ts_world s)) t = threads ?w t"
    unfolding thread_exit_locked_def by (rule wake_all_other [OF inv])
  then show ?thesis
    using sched_inv_wake_all(1) [OF inv, of q ZX_OK] I pc
    by (auto simp: thread_inv_def thread_exit_locked_def th_inv_def kill_ok_def suspend_ok_def)
qed

lemma thread_inv_step:
  assumes "thread_step t s s'" "thread_inv t s"
  shows "thread_inv t s'"
  using assms
proof (induction rule: thread_step.induct)
  case (th_initialize s grow)
  then show ?case
    by (cases "td_value (ts_td s)")
      (simp_all add: thread_inv_def th_inv_defs td_Initialize_def td_defs)
next
  case (th_policy s)
  show ?case
    by (rule thread_inv_worldI [OF th_policy(3)])
      (use th_policy sched_inv_signals(1) [of "ts_world s" t THREAD_SIGNAL_POLICY_EXCEPTION] in
        \<open>auto simp: thread_inv_def set_thread_signal_def sig_bits\<close>)
next
  case (th_wake s q st)
  then show ?case
    using sched_inv_wake_one [of "ts_world s" q st]
    by (auto simp: thread_inv_view wake_one_view is_blocked_def view_def [of t "ts_world s"] intro: th_inv_woken)
next
  case (th_timeout s)
  then show ?case
    using sched_inv_unblock_thread [of "ts_world s" t ZX_ERR_TIMED_OUT]
    by (auto simp: thread_inv_view unblock_thread_view is_blocked_def view_def [of t "ts_world s"] intro: th_inv_woken)
next
  case (th_switched s)
  then show ?case
    using th_inv_own(9) by (simp add: thread_inv_def thread_do_suspend_switched_def check_kill_signal_def sig_bits)
qed (blast intro: th_inv_make_runnable th_inv_suspend th_inv_resume th_inv_kill thread_inv_block th_inv_signals th_inv_do_suspend thread_inv_exited
      thread_inv_schedule thread_inv_ownI th_inv_own)+

lemma thread_reachable_inv: "thread_reachable t s \<Longrightarrow> thread_inv t s"
proof (induction rule: thread_reachable.induct)
  case (th_start pri)
  have "sched_inv (upd_thread t (\<lambda>th. th\<lparr>thread_state := THREAD_INITIAL\<rparr>) (sched_init pri))"
    by (rule sched_inv_run_state) (auto simp: is_blocked_def sched_init_def [of pri] sched_inv_init [unfolded sched_init_def])
  then show ?case by (simp add: thread_inv_def thread_sys_init_def th_inv_defs sched_init_def)
qed (rule thread_inv_step)

text \<open>
  Property C8: suspension follows the suspend count exactly. In every reachable state of a thread that is
  running or suspended, some suspend request is outstanding if and only if the thread is
  suspended or has the suspend signal pending; so dropping the last request never leaves the
  thread suspended, and no request is lost, whatever the thread was doing when it arrived. A
  thread with a pending kill is never left suspended.
\<close>

theorem thread_suspend_exact:
  assumes "thread_reachable t s" "ts_lifecycle (td_value (ts_td s)) \<in> {LC_RUNNING, LC_SUSPENDED}"
  shows "(0 < td_suspend_count (ts_td s) \<longleftrightarrow>
           thread_signals (threads (ts_world s) t) AND THREAD_SIGNAL_SUSPEND \<noteq> 0 \<or> run_state t s = THREAD_SUSPENDED) \<and>
    \<not> check_kill_signal (threads (ts_world s) t)"
  using thread_reachable_inv [OF assms(1)] assms(2)
  by (auto simp: thread_inv_def th_inv_def kill_ok_def suspend_ok_def check_kill_signal_def sig_bits)

text \<open>
  Property C26: no execution of a thread, in whatever order it is started, suspended, resumed, killed,
  interrupted by exceptions and exited, attempts an illegal state transition; the signals
  that observers see are RUNNING, SUSPENDED or TERMINATED exactly in the corresponding
  lifecycle state; and once a kill is pending the thread is dying and not suspended.
\<close>

theorem thread_lifecycle_sound:
  assumes "thread_reachable t s"
  shows "\<not> td_assert_failed (ts_td s) \<and> 0 \<le> td_suspend_count (ts_td s) \<and>
    signals_ok (ts_lifecycle (td_value (ts_td s))) (td_signals (ts_td s)) \<and>
    (check_kill_signal (threads (ts_world s) t) \<longrightarrow>
       td_IsDyingOrDeadLocked (ts_td s) \<and> run_state t s \<noteq> THREAD_SUSPENDED)"
  using thread_reachable_inv [OF assms]
  by (auto simp: thread_inv_def th_inv_def kill_ok_def check_kill_signal_def td_IsDyingOrDeadLocked_def sig_bits)

definition thread_started :: thread_sys where
  "thread_started = (let s = thread_sys_init 5 (\<lambda>_. 0);
      d = snd (td_Initialize ZX_OK (ts_td s));
      (st, d', w) = td_MakeRunnable 5 True d (ts_world s)
    in s\<lparr>ts_td := d', ts_world := w, ts_pc := PcUser\<rparr>)"

lemma thread_started_reachable: "thread_reachable 5 thread_started"
proof -
  let ?s0 = "thread_sys_init 5 (\<lambda>_. 0)"
  let ?s1 = "?s0\<lparr>ts_td := snd (td_Initialize ZX_OK (ts_td ?s0))\<rparr>"
  have 1: "thread_reachable 5 ?s1"
    by (rule th_next [OF th_start th_initialize]) (simp_all add: thread_sys_init_def)
  obtain st d w where run: "td_MakeRunnable 5 True (ts_td ?s1) (ts_world ?s1) = (st, d, w)" by (metis prod_cases3)
  have "st = ZX_OK" using run by (auto simp: td_MakeRunnable_def td_Initialize_def td_defs thread_sys_init_def)
  then have "thread_started = ?s1\<lparr>ts_td := d, ts_world := w, ts_pc := if st = ZX_OK then PcUser else ts_pc ?s1\<rparr>"
    using run by (simp add: thread_started_def Let_def)
  then show ?thesis using th_next [OF 1 th_make_runnable [OF run]] by simp
qed

lemma thread_started_state:
  "ts_lifecycle (td_value (ts_td thread_started)) = LC_RUNNING" "td_suspend_count (ts_td thread_started) = 1"
  by (simp_all add: thread_started_def td_MakeRunnable_def td_Initialize_def td_defs thread_sys_init_def)

theorem thread_suspend_exact_witness:
  "thread_reachable 5 thread_started \<and> td_suspend_count (ts_td thread_started) = 1 \<and>
   (0 < td_suspend_count (ts_td thread_started) \<longleftrightarrow>
     thread_signals (threads (ts_world thread_started) 5) AND THREAD_SIGNAL_SUSPEND \<noteq> 0 \<or>
     run_state 5 thread_started = THREAD_SUSPENDED)"
  using thread_suspend_exact [OF thread_started_reachable] thread_started_reachable thread_started_state by simp

theorem thread_lifecycle_sound_witness:
  "thread_reachable 5 thread_started \<and> \<not> td_assert_failed (ts_td thread_started) \<and>
   bit (td_signals (ts_td thread_started)) 4"
  using thread_lifecycle_sound [OF thread_started_reachable] thread_started_reachable thread_started_state
  by (simp add: signals_ok_def)

end
