(* ===== verification/Kernel_Event.thy ===== *)
theory Kernel_Event
  imports Semaphore
begin

text \<open>
  The kernel's event (\<^verbatim>\<open>zircon/kernel/kernel/event.cc\<close>, \<^verbatim>\<open>include/kernel/event.h\<close>) over the wait queues:
  a flag that threads wait for, released to one waiter (\<open>EVENT_FLAG_AUTOUNSIGNAL\<close>) or to all of
  them. \<open>INT_MAX\<close>, the value of \<open>result\<close> when the event is not signaled, is \<open>None\<close>. As in the
  semaphore a wait that blocks is two atomic parts.
\<close>

record event =
  ev_result :: "zx_status option"
  ev_flags :: u32
  ev_wait :: wq_id

definition EVENT_FLAG_AUTOUNSIGNAL :: u32 where "EVENT_FLAG_AUTOUNSIGNAL = 1"

definition event_init :: "bool \<Rightarrow> u32 \<Rightarrow> wq_id \<Rightarrow> event" where
  "event_init initial flags q = \<lparr>ev_result = (if initial then Some ZX_OK else None), ev_flags = flags, ev_wait = q\<rparr>"

definition ev_auto :: "event \<Rightarrow> bool" where
  "ev_auto e \<longleftrightarrow> ev_flags e AND EVENT_FLAG_AUTOUNSIGNAL \<noteq> 0"

definition event_wait_worker ::
    "tid \<Rightarrow> int \<Rightarrow> int \<Rightarrow> bool \<Rightarrow> u32 \<Rightarrow> event \<Rightarrow> sched_world \<Rightarrow> zx_status option \<times> event \<times> sched_world" where
  "event_wait_worker cur deadline now interruptible signal_mask e w =
     (let w1 = upd_thread cur (\<lambda>th. th\<lparr>interruptable := interruptible\<rparr>) w;
          done = upd_thread cur (\<lambda>th. th\<lparr>interruptable := False\<rparr>)
      in case ev_result e of
           Some r \<Rightarrow> (Some r, if ev_auto e then e\<lparr>ev_result := None\<rparr> else e, done w1)
         | None \<Rightarrow>
             (let (ret, w2) = wait_queue_block_etc_pre cur (ev_wait e) deadline now signal_mask Ownership_Normal w1
              in if ret = ZX_OK then (None, e, w2) else (Some ret, e, done w2)))"

definition event_wait_resume :: "tid \<Rightarrow> sched_world \<Rightarrow> zx_status \<times> sched_world" where
  "event_wait_resume cur w =
     (blocked_status (threads w cur),
      upd_thread cur (\<lambda>th. th\<lparr>interruptable := False, thread_state := THREAD_RUNNING\<rparr>) w)"

definition event_signal_internal :: "zx_status \<Rightarrow> event \<Rightarrow> sched_world \<Rightarrow> nat \<times> event \<times> sched_world" where
  "event_signal_internal wait_result e w =
     (if ev_result e = None then
        if ev_auto e then
          (let (n, w') = wait_queue_wake_one (ev_wait e) wait_result w
           in (n, if n = 0 then e\<lparr>ev_result := Some wait_result\<rparr> else e, w'))
        else
          (let (n, w') = wait_queue_wake_all (ev_wait e) wait_result w
           in (n, e\<lparr>ev_result := Some wait_result\<rparr>, w'))
      else (0, e, w))"

definition event_unsignal :: "event \<Rightarrow> event" where
  "event_unsignal e = e\<lparr>ev_result := None\<rparr>"

section \<open>Executions\<close>

inductive event_step :: "event \<times> sched_world \<Rightarrow> event \<times> sched_world \<Rightarrow> bool" where
  ev_wait_step: "\<not> is_blocked (threads w t) \<Longrightarrow>
     event_wait_worker t deadline now intr msk e w = (r, e', w') \<Longrightarrow> event_step (e, w) (e', w')"
| ev_resume_step: "\<not> is_blocked (threads w t) \<Longrightarrow> event_step (e, w) (e, snd (event_wait_resume t w))"
| ev_signal_step: "event_signal_internal st e w = (n, e', w') \<Longrightarrow> event_step (e, w) (e', w')"
| ev_unsignal_step: "event_step (e, w) (event_unsignal e, w)"
| ev_interrupt_step: "t \<in> set (waiting_in w (ev_wait e)) \<Longrightarrow> event_step (e, w) (e, unblock_waiter t err w)"

inductive event_reachable :: "event \<times> sched_world \<Rightarrow> bool" where
  ev_start: "event_reachable (event_init initial flags q, sched_init pri)"
| ev_next: "event_reachable s \<Longrightarrow> event_step s s' \<Longrightarrow> event_reachable s'"

definition event_inv :: "event \<times> sched_world \<Rightarrow> bool" where
  "event_inv s \<longleftrightarrow> sched_inv (snd s) \<and> (ev_result (fst s) \<noteq> None \<longrightarrow> waiting_in (snd s) (ev_wait (fst s)) = [])"

lemma event_inv_wait:
  assumes I: "event_inv (e, w)" and nb: "\<not> is_blocked (threads w t)"
    and run: "event_wait_worker t deadline now intr msk e w = (r, e', w')"
  shows "event_inv (e', w')"
proof -
  have inv: "sched_inv w" using I by (simp add: event_inv_def)
  let ?w1 = "upd_thread t (\<lambda>th. th\<lparr>interruptable := intr\<rparr>) w"
  have inv1: "sched_inv ?w1" by (rule sched_inv_upd_thread [OF inv]) (auto simp: is_blocked_def)
  have fin: "sched_inv (upd_thread t (\<lambda>th. th\<lparr>interruptable := b\<rparr>) v)" if "sched_inv v" for v b
    by (rule sched_inv_upd_thread [OF that]) (auto simp: is_blocked_def)
  have nb1: "\<not> is_blocked (threads ?w1 t)" using nb by (simp add: is_blocked_def)
  obtain ret w2 where blk: "wait_queue_block_etc_pre t (ev_wait e) deadline now msk Ownership_Normal ?w1 = (ret, w2)"
    by fastforce
  have inv2: "sched_inv w2" by (rule sched_inv_block [OF inv1 nb1 blk])
  show ?thesis
    using run I fin [OF inv2] fin [OF inv1] inv2
    by (auto simp: event_wait_worker_def event_inv_def Let_def blk split: option.splits if_splits)
qed

lemma event_inv_signal:
  assumes I: "event_inv (e, w)" and run: "event_signal_internal st e w = (n, e', w')"
  shows "event_inv (e', w')"
proof -
  have inv: "sched_inv w" using I by (simp add: event_inv_def)
  have one: "n1 \<noteq> 0 \<or> waiting_in w1 (ev_wait e) = []" if "wait_queue_wake_one (ev_wait e) st w = (n1, w1)" for n1 w1
    using that by (cases "waiting_in w (ev_wait e)")
      (auto simp: wait_queue_wake_one_def wait_queue_peek_threads waiting_in_def)
  show ?thesis
    using run I one sched_inv_wake_one [OF inv, of "ev_wait e" st] sched_inv_wake_all [OF inv, of "ev_wait e" st]
    by (auto simp: event_signal_internal_def event_inv_def Let_def split: if_splits prod.splits)
qed

lemma event_inv_step: "event_step s s' \<Longrightarrow> event_inv s \<Longrightarrow> event_inv s'"
proof (induction rule: event_step.induct)
  case (ev_resume_step w t e)
  then have "sched_inv (snd (event_wait_resume t w))"
    unfolding event_wait_resume_def snd_conv event_inv_def
    by (intro sched_inv_upd_thread) (auto simp: is_blocked_def)
  then show ?case using ev_resume_step by (simp add: event_inv_def event_wait_resume_def)
next
  case (ev_interrupt_step t w e err)
  then show ?case
    using wq.invar_unblock [of w t err] by (auto simp: event_inv_def)
next
  case (ev_unsignal_step e w)
  then show ?case by (simp add: event_inv_def event_unsignal_def)
qed (blast intro: event_inv_wait event_inv_signal)+

lemma event_inv_init: "event_inv (event_init initial flags q, sched_init pri)"
proof -
  have "waiting_in (sched_init pri) q = []" by (simp add: waiting_in_def sched_init_def)
  then show ?thesis by (simp add: event_inv_def event_init_def)
qed

lemma event_reachable_inv: "event_reachable s \<Longrightarrow> event_inv s"
  by (induction rule: event_reachable.induct) (blast intro: event_inv_init event_inv_step)+

text \<open>
  Property C24: a thread never sleeps on a signaled event. In every state reachable by waiting, signaling,
  unsignaling and interrupting, a signaled event has nobody asleep on it; and signaling an
  event that has sleepers releases the first of them with the given status and leaves the
  event unsignaled (auto-unsignal), or releases all of them and leaves it signaled.
\<close>

theorem event_no_lost_wakeup:
  assumes "event_reachable (e, w)"
  shows "(ev_result e \<noteq> None \<longrightarrow> waiting_in w (ev_wait e) = []) \<and>
    (case event_signal_internal st e w of (n, e', w') \<Rightarrow>
       waiting_in w (ev_wait e) \<noteq> [] \<longrightarrow>
         (if ev_auto e
          then n = 1 \<and> ev_result e' = None \<and> waiting_in w' (ev_wait e) = tl (waiting_in w (ev_wait e)) \<and>
               blocked_status (threads w' (hd (waiting_in w (ev_wait e)))) = st
          else n = length (waiting_in w (ev_wait e)) \<and> ev_result e' = Some st \<and> waiting_in w' (ev_wait e) = []))"
proof -
  have inv: "sched_inv w" and sig: "ev_result e \<noteq> None \<longrightarrow> waiting_in w (ev_wait e) = []"
    using event_reachable_inv [OF assms] by (auto simp: event_inv_def)
  show ?thesis
  proof (cases "waiting_in w (ev_wait e)")
    case (Cons u us)
    then have res: "ev_result e = None" using sig by auto
    have "wait_queue_wake_one (ev_wait e) st w = (1, wake_queue (ev_wait e) st w)"
      using Cons by (simp add: wake_queue_def wait_queue_wake_one_def wait_queue_peek_threads waiting_in_def)
    then show ?thesis
      using Cons res wq.waiting_wake [OF inv, of "ev_wait e" st] wq.status_wake [OF inv Cons, of st]
        sched_inv_wake_all(2,3) [OF inv, of "ev_wait e" st]
      by (auto simp: event_signal_internal_def split: prod.splits)
  qed (use sig in \<open>auto split: prod.splits\<close>)
qed

theorem event_no_lost_wakeup_witness:
  "event_reachable (event_init True 1 0, sched_init int) \<and> ev_result (event_init True 1 0) = Some ZX_OK \<and>
   waiting_in (sched_init int) 0 = []"
  using event_no_lost_wakeup [OF ev_start [of True 1 0 int]] ev_start [of True 1 0 int]
  by (simp add: event_init_def)

end
