(* ===== verification/Kobject.thy ===== *)
theory Kobject
  imports Kernel_Event
begin

text \<open>
  Kernel objects as far as their signals go, and the observers that wait for them:
  \<open>Dispatcher\<close> (\<^verbatim>\<open>object/dispatcher.cc\<close>), \<open>StateObserver\<close>, \<open>WaitStateObserver\<close>
  (\<^verbatim>\<open>object/wait_state_observer.cc\<close>), \<open>PortObserver\<close> and \<open>PortDispatcher\<close>
  (\<^verbatim>\<open>object/port_dispatcher.cc\<close>). Objects live in typed stores indexed by their address. An
  operation holds the locks it needs from start to end, so it is one function on the whole
  store; the two places where \<open>on_zero_handles\<close> drops the port lock between two observers are
  not interleaved with other operations.
\<close>

section \<open>The object store\<close>

type_synonym port_id = nat
type_synonym handle_id = nat

datatype obs_ref = WaitObs nat | PortObs nat

text \<open>A port packet is the one inside a \<open>PortObserver\<close>, or one of the packet arena.\<close>

datatype pkt_ref = PktObs nat | PktArena nat

datatype pkt_payload =
    PayloadUser "u64 list"
  | PayloadSignal (sig_trigger: zx_signals) (sig_observed: zx_signals) (sig_count: nat) (sig_timestamp: int)
  | PayloadInterrupt int

record zx_port_packet =
  pk_key :: u64
  pk_type :: u32
  pk_status :: int
  pk_payload :: pkt_payload

record port_packet =
  packet :: zx_port_packet
  pkt_handle :: "handle_id option"
  pkt_observer :: "nat option"
  pkt_ephemeral :: bool

record port_interrupt_packet =
  ip_timestamp :: int
  ip_key :: u64

record port_observer =
  po_options :: u32
  po_trigger :: zx_signals
  po_port :: port_id
  po_dispatcher :: "koid option"
  po_alive :: bool

record wait_observer =
  wo_event :: nat
  wo_handle :: handle_id
  wo_watched :: zx_signals
  wo_reasons :: zx_signals
  wo_dispatcher :: "koid option"

record dispatcher =
  obj_signals :: zx_signals
  obj_observers :: "obs_ref list"
  obj_handle_count :: int
  obj_waitable :: bool

record port =
  port_options :: u32
  port_sema :: semaphore
  port_zero_handles :: bool
  port_num_ephemeral :: nat
  port_packets :: "pkt_ref list"
  port_interrupts :: "nat list"
  port_observers :: "nat list"

record kobj_world =
  kw_objs :: "koid \<Rightarrow> dispatcher"
  kw_ports :: "port_id \<Rightarrow> port"
  kw_pobs :: "nat \<Rightarrow> port_observer"
  kw_wobs :: "nat \<Rightarrow> wait_observer"
  kw_pkts :: "pkt_ref \<Rightarrow> port_packet"
  kw_ipkts :: "nat \<Rightarrow> port_interrupt_packet"
  kw_events :: "nat \<Rightarrow> event"
  kw_sched :: sched_world
  kw_now :: int
  kw_next_obs :: nat
  kw_arena :: "nat list"

definition upd_obj :: "koid \<Rightarrow> (dispatcher \<Rightarrow> dispatcher) \<Rightarrow> kobj_world \<Rightarrow> kobj_world" where
  "upd_obj k f w = w\<lparr>kw_objs := (kw_objs w)(k := f (kw_objs w k))\<rparr>"

definition upd_port :: "port_id \<Rightarrow> (port \<Rightarrow> port) \<Rightarrow> kobj_world \<Rightarrow> kobj_world" where
  "upd_port p f w = w\<lparr>kw_ports := (kw_ports w)(p := f (kw_ports w p))\<rparr>"

definition upd_pobs :: "nat \<Rightarrow> (port_observer \<Rightarrow> port_observer) \<Rightarrow> kobj_world \<Rightarrow> kobj_world" where
  "upd_pobs i f w = w\<lparr>kw_pobs := (kw_pobs w)(i := f (kw_pobs w i))\<rparr>"

definition upd_wobs :: "nat \<Rightarrow> (wait_observer \<Rightarrow> wait_observer) \<Rightarrow> kobj_world \<Rightarrow> kobj_world" where
  "upd_wobs i f w = w\<lparr>kw_wobs := (kw_wobs w)(i := f (kw_wobs w i))\<rparr>"

definition upd_pkt :: "pkt_ref \<Rightarrow> (port_packet \<Rightarrow> port_packet) \<Rightarrow> kobj_world \<Rightarrow> kobj_world" where
  "upd_pkt r f w = w\<lparr>kw_pkts := (kw_pkts w)(r := f (kw_pkts w r))\<rparr>"

lemmas upd_defs = upd_obj_def upd_port_def upd_pobs_def upd_wobs_def upd_pkt_def

section \<open>Ports\<close>

definition ZX_WAIT_ASYNC_TIMESTAMP :: u32 where [zx_defs]: "ZX_WAIT_ASYNC_TIMESTAMP = 1"
definition ZX_PORT_BIND_TO_INTERRUPT :: u32 where [zx_defs]: "ZX_PORT_BIND_TO_INTERRUPT = 1"
definition ZX_PKT_TYPE_USER :: u32 where [zx_defs]: "ZX_PKT_TYPE_USER = 0"
definition ZX_PKT_TYPE_SIGNAL_ONE :: u32 where [zx_defs]: "ZX_PKT_TYPE_SIGNAL_ONE = 1"
definition ZX_PKT_TYPE_INTERRUPT :: u32 where [zx_defs]: "ZX_PKT_TYPE_INTERRUPT = 7"

definition kMaxAllocatedPacketCount :: nat where "kMaxAllocatedPacketCount = 16 * 1024"
definition kMaxAllocatedPacketCountPerPort :: nat where
  "kMaxAllocatedPacketCountPerPort = kMaxAllocatedPacketCount div 8"

definition IsDefaultAllocatedEphemeral :: "port_packet \<Rightarrow> bool" where
  "IsDefaultAllocatedEphemeral pkt \<longleftrightarrow> pkt_ephemeral pkt"

text \<open>
  The arena hands out a packet that is not allocated (which one is immaterial), as long as
  fewer than its limit are.
\<close>

definition fresh_packet :: "kobj_world \<Rightarrow> nat" where
  "fresh_packet w = Suc (fold max (kw_arena w) 0)"

definition PortAllocator_Alloc :: "kobj_world \<Rightarrow> (nat \<times> kobj_world) option" where
  "PortAllocator_Alloc w =
     (if length (kw_arena w) < kMaxAllocatedPacketCount
      then Some (fresh_packet w, upd_pkt (PktArena (fresh_packet w))
             (\<lambda>_. \<lparr>packet = \<lparr>pk_key = 0, pk_type = 0, pk_status = 0, pk_payload = PayloadUser []\<rparr>,
                   pkt_handle = None, pkt_observer = None, pkt_ephemeral = True\<rparr>)
             (w\<lparr>kw_arena := fresh_packet w # kw_arena w\<rparr>))
      else None)"

definition PortAllocator_Free :: "nat \<Rightarrow> kobj_world \<Rightarrow> kobj_world" where
  "PortAllocator_Free a w = w\<lparr>kw_arena := remove1 a (kw_arena w)\<rparr>"

definition pkt_free :: "pkt_ref \<Rightarrow> kobj_world \<Rightarrow> kobj_world" where
  "pkt_free r w = (case r of PktArena a \<Rightarrow> PortAllocator_Free a w | PktObs _ \<Rightarrow> w)"

text \<open>Destroying a \<open>PortObserver\<close>, directly or through the owning pointer of a packet.\<close>

definition destroy_observer :: "nat \<Rightarrow> kobj_world \<Rightarrow> kobj_world" where
  "destroy_observer i = upd_pobs i (\<lambda>po. po\<lparr>po_alive := False\<rparr>)"

definition reset_pkt_observer :: "pkt_ref \<Rightarrow> kobj_world \<Rightarrow> kobj_world" where
  "reset_pkt_observer r w =
     (case pkt_observer (kw_pkts w r) of
        None \<Rightarrow> w
      | Some i \<Rightarrow> destroy_observer i (upd_pkt r (\<lambda>pkt. pkt\<lparr>pkt_observer := None\<rparr>) w))"

definition sema_Post :: "port_id \<Rightarrow> kobj_world \<Rightarrow> kobj_world" where
  "sema_Post p w = (case Semaphore_Post (port_sema (kw_ports w p)) (kw_sched w) of (c, m, sw) \<Rightarrow>
     upd_port p (\<lambda>pt. pt\<lparr>port_sema := m\<rparr>) (w\<lparr>kw_sched := sw\<rparr>))"

definition pkt_in_container :: "port_id \<Rightarrow> pkt_ref \<Rightarrow> kobj_world \<Rightarrow> bool" where
  "pkt_in_container p r w \<longleftrightarrow> r \<in> set (port_packets (kw_ports w p))"

fun or_observed :: "zx_signals \<Rightarrow> pkt_payload \<Rightarrow> pkt_payload" where
  "or_observed s (PayloadSignal t ob c ts) = PayloadSignal t (ob OR s) c ts"
| "or_observed s pl = pl"

fun set_observed :: "zx_signals \<Rightarrow> nat \<Rightarrow> pkt_payload \<Rightarrow> pkt_payload" where
  "set_observed s n (PayloadSignal t ob c ts) = PayloadSignal t s n ts"
| "set_observed s n pl = pl"

fun set_timestamp :: "int \<Rightarrow> pkt_payload \<Rightarrow> pkt_payload" where
  "set_timestamp now (PayloadSignal t ob c ts) = PayloadSignal t ob c now"
| "set_timestamp now pl = pl"

definition upd_payload :: "pkt_ref \<Rightarrow> (pkt_payload \<Rightarrow> pkt_payload) \<Rightarrow> kobj_world \<Rightarrow> kobj_world" where
  "upd_payload r f = upd_pkt r (\<lambda>pkt. pkt\<lparr>packet := (packet pkt)\<lparr>pk_payload := f (pk_payload (packet pkt))\<rparr>\<rparr>)"

definition PortDispatcher_Queue ::
    "port_id \<Rightarrow> pkt_ref \<Rightarrow> zx_signals \<Rightarrow> nat \<Rightarrow> kobj_world \<Rightarrow> zx_status \<times> kobj_world" where
  "PortDispatcher_Queue p r observed count w =
     (let pt = kw_ports w p; eph = IsDefaultAllocatedEphemeral (kw_pkts w r) in
      if port_zero_handles pt then (ZX_ERR_BAD_HANDLE, w)
      else if eph \<and> port_num_ephemeral pt > kMaxAllocatedPacketCountPerPort then (ZX_ERR_SHOULD_WAIT, w)
      else if observed \<noteq> 0 \<and> pkt_in_container p r w then (ZX_OK, upd_payload r (or_observed observed) w)
      else
        (let w1 = (if observed \<noteq> 0 then upd_payload r (set_observed observed count) w else w);
             w2 = upd_port p (\<lambda>pt. pt\<lparr>port_packets := port_packets pt @ [r],
                    port_num_ephemeral := (if eph then port_num_ephemeral pt + 1 else port_num_ephemeral pt)\<rparr>) w1
         in (ZX_OK, sema_Post p w2)))"

definition PortDispatcher_QueueUser ::
    "port_id \<Rightarrow> zx_port_packet \<Rightarrow> kobj_world \<Rightarrow> zx_status \<times> kobj_world" where
  "PortDispatcher_QueueUser p pkt w =
     (case PortAllocator_Alloc w of
        None \<Rightarrow> (ZX_ERR_NO_MEMORY, w)
      | Some (a, w1) \<Rightarrow>
          (let w2 = upd_pkt (PktArena a) (\<lambda>pp. pp\<lparr>packet := pkt\<lparr>pk_type := ZX_PKT_TYPE_USER\<rparr>\<rparr>) w1;
               (status, w3) = PortDispatcher_Queue p (PktArena a) 0 0 w2
           in (status, if status \<noteq> ZX_OK then pkt_free (PktArena a) w3 else w3)))"

definition PortDispatcher_RemoveInterruptPacket :: "port_id \<Rightarrow> nat \<Rightarrow> kobj_world \<Rightarrow> bool \<times> kobj_world" where
  "PortDispatcher_RemoveInterruptPacket p i w =
     (if i \<in> set (port_interrupts (kw_ports w p))
      then (True, upd_port p (\<lambda>pt. pt\<lparr>port_interrupts := remove1 i (port_interrupts pt)\<rparr>) w)
      else (False, w))"

definition PortDispatcher_QueueInterruptPacket :: "port_id \<Rightarrow> nat \<Rightarrow> int \<Rightarrow> kobj_world \<Rightarrow> bool \<times> kobj_world" where
  "PortDispatcher_QueueInterruptPacket p i timestamp w =
     (if i \<in> set (port_interrupts (kw_ports w p)) then (False, w)
      else (True, sema_Post p (upd_port p (\<lambda>pt. pt\<lparr>port_interrupts := port_interrupts pt @ [i]\<rparr>)
             (w\<lparr>kw_ipkts := (kw_ipkts w)(i := (kw_ipkts w i)\<lparr>ip_timestamp := timestamp\<rparr>)\<rparr>))))"

text \<open>The part of \<open>Dequeue\<close> after a successful wait: \<open>None\<close> means that both queues were empty.\<close>

definition PortDispatcher_Dequeue_take :: "port_id \<Rightarrow> kobj_world \<Rightarrow> zx_port_packet option \<times> kobj_world" where
  "PortDispatcher_Dequeue_take p w =
     (let pt = kw_ports w p in
      if port_options pt = ZX_PORT_BIND_TO_INTERRUPT \<and> port_interrupts pt \<noteq> [] then
        (let i = hd (port_interrupts pt); ip = kw_ipkts w i in
         (Some \<lparr>pk_key = ip_key ip, pk_type = ZX_PKT_TYPE_INTERRUPT, pk_status = 0,
                pk_payload = PayloadInterrupt (ip_timestamp ip)\<rparr>,
          upd_port p (\<lambda>pt. pt\<lparr>port_interrupts := tl (port_interrupts pt)\<rparr>) w))
      else case port_packets pt of
             [] \<Rightarrow> (None, w)
           | r # rs \<Rightarrow>
               (let pkt = kw_pkts w r;
                    w1 = upd_port p (\<lambda>pt. pt\<lparr>port_packets := rs,
                           port_num_ephemeral := (if IsDefaultAllocatedEphemeral pkt then port_num_ephemeral pt - 1
                                                  else port_num_ephemeral pt)\<rparr>) w;
                    w2 = reset_pkt_observer r w1
                in (Some (packet pkt), if pkt_ephemeral pkt then pkt_free r w2 else w2)))"

text \<open>
  \<open>Dequeue\<close> as far as it runs without sleeping. Each round takes one from the semaphore, so
  the loop ends.
\<close>

datatype dequeue_result = DqPacket zx_port_packet | DqError zx_status | DqBlocked

definition sema_Wait :: "tid \<Rightarrow> int \<Rightarrow> int \<Rightarrow> port_id \<Rightarrow> kobj_world \<Rightarrow> zx_status option \<times> kobj_world" where
  "sema_Wait cur deadline now p w =
     (case Semaphore_Wait cur deadline now (port_sema (kw_ports w p)) (kw_sched w) of (r, m, sw) \<Rightarrow>
        (r, upd_port p (\<lambda>pt. pt\<lparr>port_sema := m\<rparr>) (w\<lparr>kw_sched := sw\<rparr>)))"

lemma Semaphore_Wait_immediate:
  "Semaphore_Wait cur deadline now s w = (Some ZX_OK, m, w') \<Longrightarrow>
   0 < sem_count s \<and> m = s\<lparr>sem_count := sem_count s - 1\<rparr> \<and> w' = w"
  by (auto simp: Semaphore_Wait_def Let_def split: if_splits prod.splits)

lemma sema_Wait_immediate:
  "sema_Wait cur deadline now p w = (Some ZX_OK, w') \<Longrightarrow>
   0 < sem_count (port_sema (kw_ports w p)) \<and>
   w' = upd_port p (\<lambda>pt. pt\<lparr>port_sema := (port_sema pt)\<lparr>sem_count := sem_count (port_sema pt) - 1\<rparr>\<rparr>) w"
  by (auto simp: sema_Wait_def upd_port_def dest!: Semaphore_Wait_immediate split: prod.splits)

lemma Dequeue_take_None: "PortDispatcher_Dequeue_take p w = (None, w') \<Longrightarrow> w' = w"
  by (auto simp: PortDispatcher_Dequeue_take_def Let_def split: if_splits list.splits)

function PortDispatcher_Dequeue ::
    "tid \<Rightarrow> int \<Rightarrow> int \<Rightarrow> port_id \<Rightarrow> kobj_world \<Rightarrow> dequeue_result \<times> kobj_world" where
  "PortDispatcher_Dequeue cur deadline now p w =
     (case sema_Wait cur deadline now p w of
        (None, w1) \<Rightarrow> (DqBlocked, w1)
      | (Some st, w1) \<Rightarrow>
          (if st \<noteq> ZX_OK then (DqError st, w1)
           else case PortDispatcher_Dequeue_take p w1 of
                  (Some pkt, w2) \<Rightarrow> (DqPacket pkt, w2)
                | (None, w2) \<Rightarrow> PortDispatcher_Dequeue cur deadline now p w2))"
  by pat_completeness auto
termination
  by (relation "measure (\<lambda>(cur, deadline, now, p, w). nat (sem_count (port_sema (kw_ports w p))))")
    (auto dest!: sema_Wait_immediate [OF sym] Dequeue_take_None [OF sym] simp: upd_port_def)

declare PortDispatcher_Dequeue.simps [simp del]

text \<open>When a thread that slept in the semaphore runs again.\<close>

definition PortDispatcher_Dequeue_resume ::
    "tid \<Rightarrow> int \<Rightarrow> int \<Rightarrow> port_id \<Rightarrow> kobj_world \<Rightarrow> dequeue_result \<times> kobj_world" where
  "PortDispatcher_Dequeue_resume cur deadline now p w =
     (case Semaphore_Wait_resume cur (port_sema (kw_ports w p)) (kw_sched w) of (st, m, sw) \<Rightarrow>
        (let w1 = upd_port p (\<lambda>pt. pt\<lparr>port_sema := m\<rparr>) (w\<lparr>kw_sched := sw\<rparr>) in
         if st \<noteq> ZX_OK then (DqError st, w1)
         else case PortDispatcher_Dequeue_take p w1 of
                (Some pkt, w2) \<Rightarrow> (DqPacket pkt, w2)
              | (None, w2) \<Rightarrow> PortDispatcher_Dequeue cur deadline now p w2))"

text \<open>Observers are unlinked from their object once; whoever does it decides their fate.\<close>

definition PortDispatcher_MaybeReap :: "port_id \<Rightarrow> nat \<Rightarrow> kobj_world \<Rightarrow> kobj_world" where
  "PortDispatcher_MaybeReap p i w =
     (case po_dispatcher (kw_pobs w i) of
        None \<Rightarrow> w
      | Some _ \<Rightarrow>
          (let w1 = upd_pobs i (\<lambda>po. po\<lparr>po_dispatcher := None\<rparr>) w;
               w2 = upd_port p (\<lambda>pt. pt\<lparr>port_observers := remove1 i (port_observers pt)\<rparr>) w1
           in if pkt_in_container p (PktObs i) w2
              then upd_pkt (PktObs i) (\<lambda>pkt. pkt\<lparr>pkt_observer := Some i\<rparr>) w2
              else destroy_observer i w2))"

fun cancel_queued_loop ::
    "port_id \<Rightarrow> handle_id option \<Rightarrow> u64 \<Rightarrow> pkt_ref list \<Rightarrow> bool \<Rightarrow> kobj_world \<Rightarrow> bool \<times> kobj_world" where
  "cancel_queued_loop p h key [] removed w = (removed, w)"
| "cancel_queued_loop p h key (r # rs) removed w =
     (let pkt = kw_pkts w r in
      if pkt_handle pkt = h \<and> pk_key (packet pkt) = key then
        cancel_queued_loop p h key rs True
          (reset_pkt_observer r
            (upd_port p (\<lambda>pt. pt\<lparr>port_packets := remove1 r (port_packets pt),
               port_num_ephemeral := (if IsDefaultAllocatedEphemeral pkt then port_num_ephemeral pt - 1
                                      else port_num_ephemeral pt)\<rparr>) w))
      else cancel_queued_loop p h key rs removed w)"

definition PortDispatcher_CancelQueued_key ::
    "port_id \<Rightarrow> handle_id option \<Rightarrow> u64 \<Rightarrow> kobj_world \<Rightarrow> bool \<times> kobj_world" where
  "PortDispatcher_CancelQueued_key p h key w = cancel_queued_loop p h key (port_packets (kw_ports w p)) False w"

definition PortDispatcher_CancelQueued_packet :: "port_id \<Rightarrow> pkt_ref \<Rightarrow> kobj_world \<Rightarrow> bool \<times> kobj_world" where
  "PortDispatcher_CancelQueued_packet p r w =
     (if pkt_in_container p r w then
        (True, reset_pkt_observer r
           (upd_port p (\<lambda>pt. pt\<lparr>port_packets := remove1 r (port_packets pt),
              port_num_ephemeral := (if IsDefaultAllocatedEphemeral (kw_pkts w r) then port_num_ephemeral pt - 1
                                     else port_num_ephemeral pt)\<rparr>) w))
      else (False, w))"

section \<open>Observers\<close>

text \<open>The flags an observer's callback returns: \<open>kNeedRemoval\<close> and \<open>kHandled\<close>.\<close>

record obs_flags =
  kNeedRemoval :: bool
  kHandled :: bool

abbreviation no_flags :: obs_flags where "no_flags \<equiv> \<lparr>kNeedRemoval = False, kHandled = False\<rparr>"

definition or_flags :: "obs_flags \<Rightarrow> obs_flags \<Rightarrow> obs_flags" where
  "or_flags a b = \<lparr>kNeedRemoval = kNeedRemoval a \<or> kNeedRemoval b, kHandled = kHandled a \<or> kHandled b\<rparr>"

text \<open>The optional initial counts of an object: pairs of a count and its signal.\<close>

type_synonym count_info = "(nat \<times> zx_signals) list option"

definition PortObserver_MaybeQueue :: "nat \<Rightarrow> zx_signals \<Rightarrow> nat \<Rightarrow> kobj_world \<Rightarrow> obs_flags \<times> kobj_world" where
  "PortObserver_MaybeQueue i new_state count w =
     (let po = kw_pobs w i in
      if po_trigger po AND new_state = 0 then (no_flags, w)
      else
        (let w1 = (if po_options po AND ZX_WAIT_ASYNC_TIMESTAMP \<noteq> 0
                   then upd_payload (PktObs i) (set_timestamp (kw_now w)) w else w);
             (status, w2) = PortDispatcher_Queue (po_port po) (PktObs i) new_state count w1
         in (\<lparr>kNeedRemoval = True, kHandled = False\<rparr>, w2)))"

definition initial_count :: "zx_signals \<Rightarrow> count_info \<Rightarrow> nat" where
  "initial_count trigger cinfo =
     (case cinfo of
        None \<Rightarrow> 1
      | Some entries \<Rightarrow> (case find (\<lambda>(c, sg). sg AND trigger \<noteq> 0 \<and> 0 < c) entries of
                           None \<Rightarrow> 1 | Some (c, sg) \<Rightarrow> c))"

definition event_Signal :: "nat \<Rightarrow> zx_status \<Rightarrow> kobj_world \<Rightarrow> kobj_world" where
  "event_Signal e st w = (case event_signal_internal st (kw_events w e) (kw_sched w) of (n, ev, sw) \<Rightarrow>
     w\<lparr>kw_events := (kw_events w)(e := ev), kw_sched := sw\<rparr>)"

definition WaitStateObserver_OnInitialize :: "nat \<Rightarrow> zx_signals \<Rightarrow> kobj_world \<Rightarrow> obs_flags \<times> kobj_world" where
  "WaitStateObserver_OnInitialize i initial_state w =
     (let w1 = upd_wobs i (\<lambda>wo. wo\<lparr>wo_reasons := initial_state\<rparr>) w;
          wo = kw_wobs w i
      in (no_flags, if initial_state AND wo_watched wo \<noteq> 0 then event_Signal (wo_event wo) ZX_OK w1 else w1))"

definition WaitStateObserver_OnStateChange :: "nat \<Rightarrow> zx_signals \<Rightarrow> kobj_world \<Rightarrow> obs_flags \<times> kobj_world" where
  "WaitStateObserver_OnStateChange i new_state w =
     (let w1 = upd_wobs i (\<lambda>wo. wo\<lparr>wo_reasons := wo_reasons wo OR new_state\<rparr>) w;
          wo = kw_wobs w i
      in (no_flags, if new_state AND wo_watched wo \<noteq> 0 then event_Signal (wo_event wo) ZX_OK w1 else w1))"

definition WaitStateObserver_OnCancel :: "nat \<Rightarrow> handle_id \<Rightarrow> kobj_world \<Rightarrow> obs_flags \<times> kobj_world" where
  "WaitStateObserver_OnCancel i h w =
     (let wo = kw_wobs w i in
      if h = wo_handle wo then
        (\<lparr>kNeedRemoval = False, kHandled = True\<rparr>,
         event_Signal (wo_event wo) ZX_ERR_CANCELED
           (upd_wobs i (\<lambda>wo. wo\<lparr>wo_reasons := wo_reasons wo OR ZX_SIGNAL_HANDLE_CLOSED\<rparr>) w))
      else (no_flags, w))"

fun OnInitialize :: "obs_ref \<Rightarrow> zx_signals \<Rightarrow> count_info \<Rightarrow> kobj_world \<Rightarrow> obs_flags \<times> kobj_world" where
  "OnInitialize (WaitObs i) s cinfo w = WaitStateObserver_OnInitialize i s w"
| "OnInitialize (PortObs i) s cinfo w = PortObserver_MaybeQueue i s (initial_count (po_trigger (kw_pobs w i)) cinfo) w"

fun OnStateChange :: "zx_signals \<Rightarrow> obs_ref \<Rightarrow> kobj_world \<Rightarrow> obs_flags \<times> kobj_world" where
  "OnStateChange s (WaitObs i) w = WaitStateObserver_OnStateChange i s w"
| "OnStateChange s (PortObs i) w = PortObserver_MaybeQueue i s 1 w"

fun OnCancel :: "handle_id \<Rightarrow> obs_ref \<Rightarrow> kobj_world \<Rightarrow> obs_flags \<times> kobj_world" where
  "OnCancel h (WaitObs i) w = WaitStateObserver_OnCancel i h w"
| "OnCancel h (PortObs i) w =
     (if pkt_handle (kw_pkts w (PktObs i)) = Some h then (\<lparr>kNeedRemoval = True, kHandled = True\<rparr>, w) else (no_flags, w))"

fun OnCancelByKey :: "handle_id \<Rightarrow> port_id \<Rightarrow> u64 \<Rightarrow> obs_ref \<Rightarrow> kobj_world \<Rightarrow> obs_flags \<times> kobj_world" where
  "OnCancelByKey h p key (WaitObs i) w = (no_flags, w)"
| "OnCancelByKey h p key (PortObs i) w =
     (if pkt_handle (kw_pkts w (PktObs i)) \<noteq> Some h \<or> pk_key (packet (kw_pkts w (PktObs i))) \<noteq> key \<or> po_port (kw_pobs w i) \<noteq> p
      then (no_flags, w) else (\<lparr>kNeedRemoval = True, kHandled = True\<rparr>, w))"

fun OnRemoved :: "obs_ref \<Rightarrow> kobj_world \<Rightarrow> kobj_world" where
  "OnRemoved (WaitObs i) w = w"
| "OnRemoved (PortObs i) w = PortDispatcher_MaybeReap (po_port (kw_pobs w i)) i w"

section \<open>Dispatcher\<close>

text \<open>One round of the loops of \<open>CancelWithFunc\<close> and \<open>UpdateStateHelper\<close>.\<close>

definition notify_one ::
    "(obs_ref \<Rightarrow> kobj_world \<Rightarrow> obs_flags \<times> kobj_world) \<Rightarrow> koid \<Rightarrow> obs_ref \<Rightarrow> kobj_world \<Rightarrow> obs_flags \<times> kobj_world" where
  "notify_one f k r w =
     (let (flags, w1) = f r w in
      (flags, if kNeedRemoval flags
              then OnRemoved r (upd_obj k (\<lambda>d. d\<lparr>obj_observers := remove1 r (obj_observers d)\<rparr>) w1) else w1))"

fun notify_loop ::
    "(obs_ref \<Rightarrow> kobj_world \<Rightarrow> obs_flags \<times> kobj_world) \<Rightarrow> koid \<Rightarrow> obs_ref list \<Rightarrow> kobj_world \<Rightarrow> obs_flags \<times> kobj_world" where
  "notify_loop f k [] w = (no_flags, w)"
| "notify_loop f k (r # rs) w =
     (let (fl, w1) = notify_one f k r w; (fls, w2) = notify_loop f k rs w1 in (or_flags fl fls, w2))"

definition CancelWithFunc ::
    "(obs_ref \<Rightarrow> kobj_world \<Rightarrow> obs_flags \<times> kobj_world) \<Rightarrow> koid \<Rightarrow> kobj_world \<Rightarrow> obs_flags \<times> kobj_world" where
  "CancelWithFunc f k w =
     (let (fl, w1) = notify_loop f k (obj_observers (kw_objs w k)) w in (fl\<lparr>kNeedRemoval := False\<rparr>, w1))"

definition AddObserverHelper :: "koid \<Rightarrow> obs_ref \<Rightarrow> count_info \<Rightarrow> kobj_world \<Rightarrow> kobj_world" where
  "AddObserverHelper k r cinfo w =
     (let (flags, w1) = OnInitialize r (obj_signals (kw_objs w k)) cinfo w in
      if kNeedRemoval flags then OnRemoved r w1
      else upd_obj k (\<lambda>d. d\<lparr>obj_observers := r # obj_observers d\<rparr>) w1)"

definition Dispatcher_AddObserver :: "koid \<Rightarrow> obs_ref \<Rightarrow> kobj_world \<Rightarrow> zx_status \<times> kobj_world" where
  "Dispatcher_AddObserver k r w =
     (if \<not> obj_waitable (kw_objs w k) then (ZX_ERR_NOT_SUPPORTED, w) else (ZX_OK, AddObserverHelper k r None w))"

definition RemoveObserver :: "koid \<Rightarrow> obs_ref \<Rightarrow> kobj_world \<Rightarrow> bool \<times> kobj_world" where
  "RemoveObserver k r w =
     (if r \<in> set (obj_observers (kw_objs w k))
      then (True, upd_obj k (\<lambda>d. d\<lparr>obj_observers := remove1 r (obj_observers d)\<rparr>) w) else (False, w))"

definition Dispatcher_Cancel :: "koid \<Rightarrow> handle_id \<Rightarrow> kobj_world \<Rightarrow> kobj_world" where
  "Dispatcher_Cancel k h w = snd (CancelWithFunc (OnCancel h) k w)"

definition Dispatcher_CancelByKey :: "koid \<Rightarrow> handle_id \<Rightarrow> port_id \<Rightarrow> u64 \<Rightarrow> kobj_world \<Rightarrow> bool \<times> kobj_world" where
  "Dispatcher_CancelByKey k h p key w =
     (let (fl, w1) = CancelWithFunc (OnCancelByKey h p key) k w in (kHandled fl, w1))"

definition UpdateStateLocked :: "koid \<Rightarrow> zx_signals \<Rightarrow> zx_signals \<Rightarrow> kobj_world \<Rightarrow> kobj_world" where
  "UpdateStateLocked k clear_mask set_mask w =
     (let previous = obj_signals (kw_objs w k);
          new = signals_update clear_mask set_mask previous;
          w1 = upd_obj k (\<lambda>d. d\<lparr>obj_signals := new\<rparr>) w
      in if previous = new then w1
         else snd (notify_loop (OnStateChange new) k (obj_observers (kw_objs w k)) w1))"

definition increment_handle_count :: "koid \<Rightarrow> kobj_world \<Rightarrow> kobj_world" where
  "increment_handle_count k = upd_obj k (\<lambda>d. d\<lparr>obj_handle_count := obj_handle_count d + 1\<rparr>)"

definition decrement_handle_count :: "koid \<Rightarrow> kobj_world \<Rightarrow> bool \<times> kobj_world" where
  "decrement_handle_count k w =
     (obj_handle_count (kw_objs w k) = 1, upd_obj k (\<lambda>d. d\<lparr>obj_handle_count := obj_handle_count d - 1\<rparr>) w)"

definition solo_user_signal_self ::
    "zx_signals \<Rightarrow> koid \<Rightarrow> zx_signals \<Rightarrow> zx_signals \<Rightarrow> kobj_world \<Rightarrow> zx_status \<times> kobj_world" where
  "solo_user_signal_self extra k clear_mask set_mask w =
     (let allowed = ZX_USER_SIGNAL_ALL OR extra in
      if \<not> obj_waitable (kw_objs w k) then (ZX_ERR_NOT_SUPPORTED, w)
      else if set_mask AND NOT allowed \<noteq> 0 \<or> clear_mask AND NOT allowed \<noteq> 0 then (ZX_ERR_INVALID_ARGS, w)
      else (ZX_OK, UpdateStateLocked k clear_mask set_mask w))"

section \<open>Waiting for an object\<close>

text \<open>The allocation of the observer may fail; \<open>k\<close> is the object the handle refers to.\<close>

definition PortDispatcher_MakeObserver ::
    "bool \<Rightarrow> port_id \<Rightarrow> u32 \<Rightarrow> handle_id \<Rightarrow> koid \<Rightarrow> u64 \<Rightarrow> zx_signals \<Rightarrow> kobj_world \<Rightarrow> zx_status \<times> kobj_world" where
  "PortDispatcher_MakeObserver alloc_ok p options h k key signals w =
     (if \<not> obj_waitable (kw_objs w k) then (ZX_ERR_NOT_SUPPORTED, w)
      else if \<not> alloc_ok then (ZX_ERR_NO_MEMORY, w)
      else
        (let i = kw_next_obs w;
             w1 = upd_pobs i (\<lambda>_. \<lparr>po_options = options, po_trigger = signals, po_port = p,
                                   po_dispatcher = Some k, po_alive = True\<rparr>) (w\<lparr>kw_next_obs := i + 1\<rparr>);
             w2 = upd_pkt (PktObs i) (\<lambda>_. \<lparr>packet = \<lparr>pk_key = key, pk_type = ZX_PKT_TYPE_SIGNAL_ONE, pk_status = 0,
                                                     pk_payload = PayloadSignal signals 0 0 0\<rparr>,
                                          pkt_handle = Some h, pkt_observer = None, pkt_ephemeral = False\<rparr>) w1;
             w3 = upd_port p (\<lambda>pt. pt\<lparr>port_observers := i # port_observers pt\<rparr>) w2
         in Dispatcher_AddObserver k (PortObs i) w3))"

definition WaitStateObserver_Begin ::
    "nat \<Rightarrow> nat \<Rightarrow> handle_id \<Rightarrow> koid \<Rightarrow> zx_signals \<Rightarrow> kobj_world \<Rightarrow> zx_status \<times> kobj_world" where
  "WaitStateObserver_Begin i e h k watched w =
     (let w1 = upd_wobs i (\<lambda>_. \<lparr>wo_event = e, wo_handle = h, wo_watched = watched, wo_reasons = 0,
                                wo_dispatcher = Some k\<rparr>) w;
          (status, w2) = Dispatcher_AddObserver k (WaitObs i) w1
      in if status \<noteq> ZX_OK then (status, upd_wobs i (\<lambda>wo. wo\<lparr>wo_dispatcher := None\<rparr>) w2) else (ZX_OK, w2))"

definition WaitStateObserver_End :: "nat \<Rightarrow> kobj_world \<Rightarrow> zx_signals \<times> kobj_world" where
  "WaitStateObserver_End i w =
     (case wo_dispatcher (kw_wobs w i) of
        None \<Rightarrow> (wo_reasons (kw_wobs w i), w)
      | Some k \<Rightarrow> (wo_reasons (kw_wobs w i),
                  upd_wobs i (\<lambda>wo. wo\<lparr>wo_dispatcher := None\<rparr>) (snd (RemoveObserver k (WaitObs i) w))))"

section \<open>Closing a port\<close>

fun drain_packets :: "port_id \<Rightarrow> pkt_ref list \<Rightarrow> kobj_world \<Rightarrow> kobj_world" where
  "drain_packets p [] w = w"
| "drain_packets p (r # rs) w =
     (let w1 = upd_port p (\<lambda>pt. pt\<lparr>port_packets := rs\<rparr>) w in
      if IsDefaultAllocatedEphemeral (kw_pkts w r)
      then drain_packets p rs (pkt_free r (upd_port p (\<lambda>pt. pt\<lparr>port_num_ephemeral := port_num_ephemeral pt - 1\<rparr>) w1))
      else drain_packets p rs (reset_pkt_observer r w1))"

fun drain_observers :: "port_id \<Rightarrow> nat list \<Rightarrow> kobj_world \<Rightarrow> kobj_world" where
  "drain_observers p [] w = w"
| "drain_observers p (i # is) w =
     (let w1 = upd_port p (\<lambda>pt. pt\<lparr>port_observers := is\<rparr>) w;
          k = po_dispatcher (kw_pobs w1 i);
          w2 = upd_pobs i (\<lambda>po. po\<lparr>po_dispatcher := None\<rparr>) w1;
          w3 = (case k of None \<Rightarrow> w2 | Some k \<Rightarrow> snd (RemoveObserver k (PortObs i) w2))
      in drain_observers p is (destroy_observer i w3))"

definition PortDispatcher_on_zero_handles :: "port_id \<Rightarrow> kobj_world \<Rightarrow> kobj_world" where
  "PortDispatcher_on_zero_handles p w =
     (let w1 = upd_port p (\<lambda>pt. pt\<lparr>port_zero_handles := True\<rparr>) w;
          w2 = drain_packets p (port_packets (kw_ports w1 p)) w1
      in drain_observers p (port_observers (kw_ports w2 p)) w2)"

definition PortDispatcher_Create :: "bool \<Rightarrow> u32 \<Rightarrow> port_id \<Rightarrow> wq_id \<Rightarrow> kobj_world \<Rightarrow> zx_status \<times> kobj_world" where
  "PortDispatcher_Create alloc_ok options p q w =
     (if options \<noteq> 0 \<and> options \<noteq> ZX_PORT_BIND_TO_INTERRUPT then (ZX_ERR_INVALID_ARGS, w)
      else if \<not> alloc_ok then (ZX_ERR_NO_MEMORY, w)
      else (ZX_OK, upd_port p (\<lambda>_. \<lparr>port_options = options, port_sema = \<lparr>sem_count = 0, sem_waitq = q\<rparr>,
                     port_zero_handles = False, port_num_ephemeral = 0, port_packets = [], port_interrupts = [],
                     port_observers = []\<rparr>) w))"

section \<open>What the operations leave alone\<close>

lemma upd_sels [simp]:
  "kw_objs (upd_obj k f w) = (kw_objs w)(k := f (kw_objs w k))" "kw_ports (upd_obj k f w) = kw_ports w"
  "kw_pobs (upd_obj k f w) = kw_pobs w" "kw_wobs (upd_obj k f w) = kw_wobs w" "kw_pkts (upd_obj k f w) = kw_pkts w"
  "kw_arena (upd_obj k f w) = kw_arena w" "kw_next_obs (upd_obj k f w) = kw_next_obs w"
  "kw_sched (upd_obj k f w) = kw_sched w" "kw_events (upd_obj k f w) = kw_events w" "kw_ipkts (upd_obj k f w) = kw_ipkts w"
  "kw_objs (upd_port p g w) = kw_objs w" "kw_ports (upd_port p g w) = (kw_ports w)(p := g (kw_ports w p))"
  "kw_pobs (upd_port p g w) = kw_pobs w" "kw_wobs (upd_port p g w) = kw_wobs w" "kw_pkts (upd_port p g w) = kw_pkts w"
  "kw_arena (upd_port p g w) = kw_arena w" "kw_next_obs (upd_port p g w) = kw_next_obs w"
  "kw_sched (upd_port p g w) = kw_sched w" "kw_events (upd_port p g w) = kw_events w" "kw_ipkts (upd_port p g w) = kw_ipkts w"
  "kw_objs (upd_pobs i h w) = kw_objs w" "kw_ports (upd_pobs i h w) = kw_ports w"
  "kw_pobs (upd_pobs i h w) = (kw_pobs w)(i := h (kw_pobs w i))" "kw_wobs (upd_pobs i h w) = kw_wobs w"
  "kw_pkts (upd_pobs i h w) = kw_pkts w" "kw_arena (upd_pobs i h w) = kw_arena w"
  "kw_next_obs (upd_pobs i h w) = kw_next_obs w" "kw_sched (upd_pobs i h w) = kw_sched w"
  "kw_events (upd_pobs i h w) = kw_events w" "kw_ipkts (upd_pobs i h w) = kw_ipkts w"
  "kw_objs (upd_wobs i x w) = kw_objs w" "kw_ports (upd_wobs i x w) = kw_ports w" "kw_pobs (upd_wobs i x w) = kw_pobs w"
  "kw_wobs (upd_wobs i x w) = (kw_wobs w)(i := x (kw_wobs w i))" "kw_pkts (upd_wobs i x w) = kw_pkts w"
  "kw_arena (upd_wobs i x w) = kw_arena w" "kw_next_obs (upd_wobs i x w) = kw_next_obs w"
  "kw_sched (upd_wobs i x w) = kw_sched w" "kw_events (upd_wobs i x w) = kw_events w" "kw_ipkts (upd_wobs i x w) = kw_ipkts w"
  "kw_objs (upd_pkt r y w) = kw_objs w" "kw_ports (upd_pkt r y w) = kw_ports w" "kw_pobs (upd_pkt r y w) = kw_pobs w"
  "kw_wobs (upd_pkt r y w) = kw_wobs w" "kw_pkts (upd_pkt r y w) = (kw_pkts w)(r := y (kw_pkts w r))"
  "kw_arena (upd_pkt r y w) = kw_arena w" "kw_next_obs (upd_pkt r y w) = kw_next_obs w"
  "kw_sched (upd_pkt r y w) = kw_sched w" "kw_events (upd_pkt r y w) = kw_events w" "kw_ipkts (upd_pkt r y w) = kw_ipkts w"
  by (simp_all add: upd_defs)

text \<open>\<open>Post\<close> touches the semaphore and the scheduler only.\<close>

lemma sema_Post_sels [simp]:
  "kw_objs (sema_Post p w) = kw_objs w" "kw_pobs (sema_Post p w) = kw_pobs w" "kw_wobs (sema_Post p w) = kw_wobs w"
  "kw_pkts (sema_Post p w) = kw_pkts w" "kw_arena (sema_Post p w) = kw_arena w"
  "kw_next_obs (sema_Post p w) = kw_next_obs w" "kw_ipkts (sema_Post p w) = kw_ipkts w" "kw_events (sema_Post p w) = kw_events w"
  "port_packets (kw_ports (sema_Post p w) q) = port_packets (kw_ports w q)"
  "port_interrupts (kw_ports (sema_Post p w) q) = port_interrupts (kw_ports w q)"
  "port_observers (kw_ports (sema_Post p w) q) = port_observers (kw_ports w q)"
  "port_zero_handles (kw_ports (sema_Post p w) q) = port_zero_handles (kw_ports w q)"
  "port_num_ephemeral (kw_ports (sema_Post p w) q) = port_num_ephemeral (kw_ports w q)"
  "port_options (kw_ports (sema_Post p w) q) = port_options (kw_ports w q)"
  by (simp_all add: sema_Post_def upd_port_def split: prod.splits)

lemma sema_Post_count [simp]:
  "sem_count (port_sema (kw_ports (sema_Post p w) q)) =
     sem_count (port_sema (kw_ports w q)) + (if q = p then 1 else 0)"
  by (simp add: sema_Post_def upd_port_def Semaphore_Post_eq)

lemma event_Signal_sels [simp]:
  "kw_objs (event_Signal e st w) = kw_objs w" "kw_ports (event_Signal e st w) = kw_ports w"
  "kw_pobs (event_Signal e st w) = kw_pobs w" "kw_wobs (event_Signal e st w) = kw_wobs w"
  "kw_pkts (event_Signal e st w) = kw_pkts w" "kw_arena (event_Signal e st w) = kw_arena w"
  "kw_next_obs (event_Signal e st w) = kw_next_obs w" "kw_ipkts (event_Signal e st w) = kw_ipkts w"
  by (simp_all add: event_Signal_def split: prod.splits)

lemma upd_payload_sels [simp]:
  "kw_objs (upd_payload r f w) = kw_objs w" "kw_ports (upd_payload r f w) = kw_ports w"
  "kw_pobs (upd_payload r f w) = kw_pobs w" "kw_wobs (upd_payload r f w) = kw_wobs w"
  "kw_arena (upd_payload r f w) = kw_arena w" "kw_next_obs (upd_payload r f w) = kw_next_obs w"
  "pkt_handle (kw_pkts (upd_payload r f w) q) = pkt_handle (kw_pkts w q)"
  "pkt_observer (kw_pkts (upd_payload r f w) q) = pkt_observer (kw_pkts w q)"
  "pkt_ephemeral (kw_pkts (upd_payload r f w) q) = pkt_ephemeral (kw_pkts w q)"
  "pk_key (packet (kw_pkts (upd_payload r f w) q)) = pk_key (packet (kw_pkts w q))"
  by (simp_all add: upd_payload_def)

lemma Queue_sels [simp]:
  "kw_objs (snd (PortDispatcher_Queue p r ob c w)) = kw_objs w"
  "kw_pobs (snd (PortDispatcher_Queue p r ob c w)) = kw_pobs w"
  "kw_wobs (snd (PortDispatcher_Queue p r ob c w)) = kw_wobs w"
  "kw_arena (snd (PortDispatcher_Queue p r ob c w)) = kw_arena w"
  "kw_next_obs (snd (PortDispatcher_Queue p r ob c w)) = kw_next_obs w"
  "port_observers (kw_ports (snd (PortDispatcher_Queue p r ob c w)) q) = port_observers (kw_ports w q)"
  "port_zero_handles (kw_ports (snd (PortDispatcher_Queue p r ob c w)) q) = port_zero_handles (kw_ports w q)"
  "port_options (kw_ports (snd (PortDispatcher_Queue p r ob c w)) q) = port_options (kw_ports w q)"
  "port_interrupts (kw_ports (snd (PortDispatcher_Queue p r ob c w)) q) = port_interrupts (kw_ports w q)"
  by (simp_all add: PortDispatcher_Queue_def Let_def)

lemma destroy_sels [simp]:
  "kw_objs (destroy_observer i w) = kw_objs w" "kw_ports (destroy_observer i w) = kw_ports w"
  "kw_wobs (destroy_observer i w) = kw_wobs w" "kw_pkts (destroy_observer i w) = kw_pkts w"
  "kw_arena (destroy_observer i w) = kw_arena w" "kw_next_obs (destroy_observer i w) = kw_next_obs w"
  "kw_pobs (destroy_observer i w) = (kw_pobs w)(i := (kw_pobs w i)\<lparr>po_alive := False\<rparr>)"
  by (simp_all add: destroy_observer_def)

lemma kw_objs_MaybeQueue [simp]: "kw_objs (snd (PortObserver_MaybeQueue i s c w)) = kw_objs w"
  by (simp add: PortObserver_MaybeQueue_def Let_def split: prod.splits)
    (metis Queue_sels(1) snd_conv upd_payload_sels(1))

lemma kw_objs_MaybeReap [simp]: "kw_objs (PortDispatcher_MaybeReap p i w) = kw_objs w"
  by (simp add: PortDispatcher_MaybeReap_def Let_def split: option.split)

lemma kw_objs_callbacks [simp]:
  "kw_objs (snd (OnInitialize r s ci w)) = kw_objs w"
  "kw_objs (snd (OnStateChange s r w)) = kw_objs w"
  "kw_objs (snd (OnCancel h r w)) = kw_objs w"
  "kw_objs (snd (OnCancelByKey h p key r w)) = kw_objs w"
  "kw_objs (OnRemoved r w) = kw_objs w"
  by (cases r; simp add: WaitStateObserver_OnInitialize_def WaitStateObserver_OnStateChange_def
      WaitStateObserver_OnCancel_def Let_def)+

definition same_objs :: "kobj_world \<Rightarrow> kobj_world \<Rightarrow> bool" where
  "same_objs w w' \<longleftrightarrow> (\<forall>k. obj_signals (kw_objs w' k) = obj_signals (kw_objs w k) \<and>
     obj_handle_count (kw_objs w' k) = obj_handle_count (kw_objs w k) \<and>
     obj_waitable (kw_objs w' k) = obj_waitable (kw_objs w k) \<and>
     set (obj_observers (kw_objs w' k)) \<subseteq> set (obj_observers (kw_objs w k)))"

lemma same_objs_refl [simp]: "same_objs w w"
  by (simp add: same_objs_def)

lemma same_objs_trans: "same_objs w1 w2 \<Longrightarrow> same_objs w2 w3 \<Longrightarrow> same_objs w1 w3"
  by (auto simp: same_objs_def)

lemma same_objs_notify_one:
  assumes "\<And>w. kw_objs (snd (f r w)) = kw_objs w"
  shows "same_objs w (snd (notify_one f k r w))"
proof -
  obtain fl w1 where f: "f r w = (fl, w1)" by fastforce
  then have "kw_objs w1 = kw_objs w" using assms [of w] by simp
  then show ?thesis using f set_remove1_subset by (fastforce simp: notify_one_def same_objs_def)
qed

lemma same_objs_notify_loop:
  assumes "\<And>r w. kw_objs (snd (f r w)) = kw_objs w"
  shows "same_objs w (snd (notify_loop f k rs w))"
proof (induction rs arbitrary: w)
  case (Cons r rs)
  have 1: "same_objs w (snd (notify_one f k r w))" by (rule same_objs_notify_one) (rule assms)
  show ?case using same_objs_trans [OF 1 Cons.IH] by (simp add: case_prod_beta)
qed simp

text \<open>An update of one object's signals is seen there and nowhere else.\<close>

lemma obj_signals_UpdateState [simp]:
  "obj_signals (kw_objs (UpdateStateLocked k c s w) k') =
     (if k' = k then signals_update c s (obj_signals (kw_objs w k)) else obj_signals (kw_objs w k'))"
proof -
  let ?w1 = "upd_obj k (\<lambda>d. d\<lparr>obj_signals := signals_update c s (obj_signals (kw_objs w k))\<rparr>) w"
  have "same_objs ?w1 (snd (notify_loop (OnStateChange n) k rs ?w1))" for n rs
    by (rule same_objs_notify_loop) simp
  then show ?thesis by (auto simp: UpdateStateLocked_def Let_def same_objs_def)
qed

lemma UpdateState_frame [simp]:
  "obj_handle_count (kw_objs (UpdateStateLocked k c s w) k') = obj_handle_count (kw_objs w k')"
  "obj_waitable (kw_objs (UpdateStateLocked k c s w) k') = obj_waitable (kw_objs w k')"
proof -
  let ?w1 = "upd_obj k (\<lambda>d. d\<lparr>obj_signals := signals_update c s (obj_signals (kw_objs w k))\<rparr>) w"
  have *: "same_objs ?w1 (snd (notify_loop (OnStateChange n) k rs ?w1))" for n rs
    by (rule same_objs_notify_loop) simp
  show "obj_handle_count (kw_objs (UpdateStateLocked k c s w) k') = obj_handle_count (kw_objs w k')"
    "obj_waitable (kw_objs (UpdateStateLocked k c s w) k') = obj_waitable (kw_objs w k')"
    using * by (auto simp: UpdateStateLocked_def Let_def same_objs_def)
qed

end
