(* ===== verification/Port_Safety.thy ===== *)
theory Port_Safety
  imports Kobject
begin

text \<open>
  The invariant of observers, ports and packets, and what follows from it: an observer is
  referenced by its object and its port while it waits, by its queued packet once it has
  fired, and destroyed exactly when nothing refers to it any more; a signal is delivered to
  each waiting port once; a queued packet always has a semaphore count behind it.
\<close>

lemma kw_now_frame [simp]:
  "kw_now (upd_obj k f w) = kw_now w" "kw_now (upd_port p g w) = kw_now w" "kw_now (upd_pobs i h w) = kw_now w"
  "kw_now (upd_pkt r y w) = kw_now w" "kw_now (upd_wobs i x w) = kw_now w" "kw_now (sema_Post p w) = kw_now w"
  "kw_now (event_Signal e st w) = kw_now w"
  by (simp_all add: upd_defs sema_Post_def event_Signal_def split: prod.splits)

section \<open>The invariant\<close>

text \<open>
  An observer is waiting on an object (\<open>obs_link\<close>), or its packet is queued on its port
  (\<open>obs_queued\<close>), or it is destroyed.
\<close>

definition obs_link :: "kobj_world \<Rightarrow> nat \<Rightarrow> koid option" where
  "obs_link w i = (if po_alive (kw_pobs w i) then po_dispatcher (kw_pobs w i) else None)"

lemma obs_link_cong: "kw_pobs w' i = kw_pobs w i \<Longrightarrow> obs_link w' i = obs_link w i"
  by (simp add: obs_link_def)

definition obs_queued :: "kobj_world \<Rightarrow> nat \<Rightarrow> bool" where
  "obs_queued w i \<longleftrightarrow> po_alive (kw_pobs w i) \<and> po_dispatcher (kw_pobs w i) = None"

definition objs_ok :: "kobj_world \<Rightarrow> bool" where
  "objs_ok w \<longleftrightarrow> (\<forall>k. distinct (obj_observers (kw_objs w k))) \<and>
     (\<forall>k i. PortObs i \<in> set (obj_observers (kw_objs w k)) \<longleftrightarrow> obs_link w i = Some k)"

definition links_ok :: "kobj_world \<Rightarrow> bool" where
  "links_ok w \<longleftrightarrow> (\<forall>p. distinct (port_observers (kw_ports w p))) \<and>
     (\<forall>p i. i \<in> set (port_observers (kw_ports w p)) \<longleftrightarrow> obs_link w i \<noteq> None \<and> po_port (kw_pobs w i) = p)"

definition queues_ok :: "kobj_world \<Rightarrow> bool" where
  "queues_ok w \<longleftrightarrow> (\<forall>p. distinct (port_packets (kw_ports w p))) \<and>
     (\<forall>p i. PktObs i \<in> set (port_packets (kw_ports w p)) \<longleftrightarrow> obs_queued w i \<and> po_port (kw_pobs w i) = p)"

definition owners_ok :: "kobj_world \<Rightarrow> bool" where
  "owners_ok w \<longleftrightarrow> (\<forall>i. po_alive (kw_pobs w i) \<longrightarrow> i < kw_next_obs w \<and> \<not> pkt_ephemeral (kw_pkts w (PktObs i)) \<and>
     pkt_observer (kw_pkts w (PktObs i)) = (if obs_queued w i then Some i else None))"

fun is_arena :: "pkt_ref \<Rightarrow> bool" where
  "is_arena (PktArena a) = True"
| "is_arena (PktObs i) = False"

definition arena_ok :: "kobj_world \<Rightarrow> bool" where
  "arena_ok w \<longleftrightarrow> distinct (kw_arena w) \<and> length (kw_arena w) \<le> kMaxAllocatedPacketCount \<and>
     (\<forall>a \<in> set (kw_arena w). pkt_ephemeral (kw_pkts w (PktArena a)) \<and> pkt_observer (kw_pkts w (PktArena a)) = None) \<and>
     (\<forall>p a. PktArena a \<in> set (port_packets (kw_ports w p)) \<longrightarrow> a \<in> set (kw_arena w)) \<and>
     (\<forall>p q a. PktArena a \<in> set (port_packets (kw_ports w p)) \<and> PktArena a \<in> set (port_packets (kw_ports w q)) \<longrightarrow> p = q) \<and>
     (\<forall>p. port_num_ephemeral (kw_ports w p) = length (filter is_arena (port_packets (kw_ports w p))))"

definition zero_ok :: "kobj_world \<Rightarrow> bool" where
  "zero_ok w \<longleftrightarrow> (\<forall>p. port_zero_handles (kw_ports w p) \<longrightarrow>
     port_packets (kw_ports w p) = [] \<and> port_observers (kw_ports w p) = [])"

definition waits_ok :: "kobj_world \<Rightarrow> bool" where
  "waits_ok w \<longleftrightarrow> (\<forall>k i. WaitObs i \<in> set (obj_observers (kw_objs w k)) \<longleftrightarrow> wo_dispatcher (kw_wobs w i) = Some k)"

definition kobj_inv0 :: "kobj_world \<Rightarrow> bool" where
  "kobj_inv0 w \<longleftrightarrow> objs_ok w \<and> links_ok w \<and> queues_ok w \<and> owners_ok w \<and> arena_ok w \<and> waits_ok w"

definition kobj_inv :: "kobj_world \<Rightarrow> bool" where
  "kobj_inv w \<longleftrightarrow> objs_ok w \<and> links_ok w \<and> queues_ok w \<and> owners_ok w \<and> arena_ok w \<and> waits_ok w \<and> zero_ok w"

lemma kobj_inv_zero: "kobj_inv w \<longleftrightarrow> kobj_inv0 w \<and> zero_ok w"
  by (auto simp: kobj_inv_def kobj_inv0_def)

lemmas inv_parts = objs_ok_def links_ok_def queues_ok_def owners_ok_def arena_ok_def waits_ok_def zero_ok_def

text \<open>The invariant looks at these parts of the store only.\<close>

definition same_links :: "kobj_world \<Rightarrow> kobj_world \<Rightarrow> bool" where
  "same_links w w' \<longleftrightarrow>
     (\<forall>k. obj_observers (kw_objs w' k) = obj_observers (kw_objs w k)) \<and>
     (\<forall>p. port_packets (kw_ports w' p) = port_packets (kw_ports w p) \<and>
          port_observers (kw_ports w' p) = port_observers (kw_ports w p) \<and>
          port_zero_handles (kw_ports w' p) = port_zero_handles (kw_ports w p) \<and>
          port_num_ephemeral (kw_ports w' p) = port_num_ephemeral (kw_ports w p)) \<and>
     (\<forall>i. po_alive (kw_pobs w' i) = po_alive (kw_pobs w i) \<and> po_dispatcher (kw_pobs w' i) = po_dispatcher (kw_pobs w i) \<and>
          po_port (kw_pobs w' i) = po_port (kw_pobs w i) \<and> po_trigger (kw_pobs w' i) = po_trigger (kw_pobs w i)) \<and>
     (\<forall>r. pkt_observer (kw_pkts w' r) = pkt_observer (kw_pkts w r) \<and>
          pkt_ephemeral (kw_pkts w' r) = pkt_ephemeral (kw_pkts w r)) \<and>
     (\<forall>i. wo_dispatcher (kw_wobs w' i) = wo_dispatcher (kw_wobs w i)) \<and>
     kw_arena w' = kw_arena w \<and> kw_next_obs w' = kw_next_obs w"

lemma kobj_inv_same: "same_links w w' \<Longrightarrow> kobj_inv w' = kobj_inv w"
  by (simp add: same_links_def kobj_inv_def inv_parts obs_link_def obs_queued_def)

lemma kobj_inv_sameD: "same_links w w' \<Longrightarrow> kobj_inv w \<Longrightarrow> kobj_inv w'"
  by (simp add: kobj_inv_same)

lemma arena_mem_filter: "PktArena a \<in> set xs \<longleftrightarrow> PktArena a \<in> set (filter is_arena xs)"
  by simp

lemma arena_ok_same:
  assumes "kw_arena w' = kw_arena w"
    and "\<And>p. filter is_arena (port_packets (kw_ports w' p)) = filter is_arena (port_packets (kw_ports w p))"
    and "\<And>p. port_num_ephemeral (kw_ports w' p) = port_num_ephemeral (kw_ports w p)"
    and "\<And>a. pkt_ephemeral (kw_pkts w' (PktArena a)) = pkt_ephemeral (kw_pkts w (PktArena a))"
    and "\<And>a. pkt_observer (kw_pkts w' (PktArena a)) = pkt_observer (kw_pkts w (PktArena a))"
  shows "arena_ok w' = arena_ok w"
  unfolding arena_ok_def arena_mem_filter [of _ "port_packets (kw_ports _ _)"] assms ..

lemma waiting_port_open:
  assumes "kobj_inv w" "obs_link w i = Some k"
  shows "\<not> port_zero_handles (kw_ports w (po_port (kw_pobs w i)))"
proof -
  have "i \<in> set (port_observers (kw_ports w (po_port (kw_pobs w i))))"
    using assms by (auto simp: kobj_inv_def links_ok_def)
  then show ?thesis using assms(1) by (auto simp: kobj_inv_def zero_ok_def)
qed

lemma waiting_observer:
  assumes "kobj_inv w" "obs_link w i = Some k"
  shows "po_dispatcher (kw_pobs w i) = Some k" "po_alive (kw_pobs w i)" "\<not> pkt_ephemeral (kw_pkts w (PktObs i))"
    "PktObs i \<notin> set (port_packets (kw_ports w q))" "PortObs i \<in> set (obj_observers (kw_objs w k))"
proof -
  show al: "po_dispatcher (kw_pobs w i) = Some k" "po_alive (kw_pobs w i)"
    using assms(2) by (auto simp: obs_link_def split: if_splits)
  show "\<not> pkt_ephemeral (kw_pkts w (PktObs i))" using assms(1) al by (auto simp: kobj_inv_def owners_ok_def)
  show "PktObs i \<notin> set (port_packets (kw_ports w q))"
    using assms(1) al by (auto simp: kobj_inv_def queues_ok_def obs_queued_def)
  show "PortObs i \<in> set (obj_observers (kw_objs w k))" using assms by (auto simp: kobj_inv_def objs_ok_def)
qed

subsection \<open>Firing, cancelling and dequeuing one observer\<close>

text \<open>An observer that waits on object \<open>k\<close> fires: its packet is queued and owns it from now on.\<close>

definition fired :: "koid \<Rightarrow> nat \<Rightarrow> kobj_world \<Rightarrow> kobj_world" where
  "fired k i w =
     (let p = po_port (kw_pobs w i) in
      upd_obj k (\<lambda>d. d\<lparr>obj_observers := remove1 (PortObs i) (obj_observers d)\<rparr>)
       (upd_port p (\<lambda>pt. pt\<lparr>port_packets := port_packets pt @ [PktObs i],
                            port_observers := remove1 i (port_observers pt)\<rparr>)
        (upd_pobs i (\<lambda>po. po\<lparr>po_dispatcher := None\<rparr>)
         (upd_pkt (PktObs i) (\<lambda>pkt. pkt\<lparr>pkt_observer := Some i\<rparr>) w))))"

lemma kobj_inv_fired:
  assumes I: "kobj_inv w" and link: "obs_link w i = Some k"
  shows "kobj_inv (fired k i w)"
proof -
  let ?w = "fired k i w"
  have al: "po_alive (kw_pobs w i)" "po_dispatcher (kw_pobs w i) = Some k"
    using link by (auto simp: obs_link_def split: if_splits)
  have L: "obs_link ?w = (obs_link w)(i := None)" and Q: "obs_queued ?w = (obs_queued w)(i := True)"
    using al by (auto simp: fired_def obs_link_def obs_queued_def Let_def fun_eq_iff)
  have nq: "\<not> obs_queued w i" using al by (simp add: obs_queued_def)
  have nin: "PktObs i \<notin> set (port_packets (kw_ports w q))" for q
    using I nq by (auto simp: kobj_inv_def queues_ok_def)
  have "objs_ok ?w" using I L link by (auto simp: kobj_inv_def objs_ok_def fired_def Let_def)
  moreover have "links_ok ?w" using I L by (auto simp: kobj_inv_def links_ok_def fired_def Let_def)
  moreover have "queues_ok ?w" using I Q nin by (auto simp: kobj_inv_def queues_ok_def fired_def Let_def)
  moreover have "owners_ok ?w" using I Q al by (auto simp: kobj_inv_def owners_ok_def fired_def Let_def)
  moreover have "arena_ok ?w" using I arena_ok_same [of w ?w] by (simp add: kobj_inv_def fired_def Let_def)
  moreover have "waits_ok ?w" using I by (auto simp: kobj_inv_def waits_ok_def objs_ok_def fired_def Let_def)
  moreover have "zero_ok ?w"
    using I waiting_port_open [OF I link] by (auto simp: kobj_inv_def zero_ok_def fired_def Let_def)
  ultimately show ?thesis by (simp add: kobj_inv_def)
qed

text \<open>A waiting observer is cancelled: it is destroyed.\<close>

definition cancelled :: "koid \<Rightarrow> nat \<Rightarrow> kobj_world \<Rightarrow> kobj_world" where
  "cancelled k i w =
     (let p = po_port (kw_pobs w i) in
      upd_obj k (\<lambda>d. d\<lparr>obj_observers := remove1 (PortObs i) (obj_observers d)\<rparr>)
       (upd_port p (\<lambda>pt. pt\<lparr>port_observers := remove1 i (port_observers pt)\<rparr>)
        (upd_pobs i (\<lambda>po. po\<lparr>po_dispatcher := None, po_alive := False\<rparr>) w)))"

lemma kobj_inv0_cancelled:
  assumes I: "kobj_inv0 w" and link: "obs_link w i = Some k"
  shows "kobj_inv0 (cancelled k i w)"
proof -
  let ?w = "cancelled k i w"
  have al: "po_alive (kw_pobs w i)" "po_dispatcher (kw_pobs w i) = Some k"
    using link by (auto simp: obs_link_def split: if_splits)
  have L: "obs_link ?w = (obs_link w)(i := None)" and Q: "obs_queued ?w = obs_queued w"
    using al by (auto simp: cancelled_def obs_link_def obs_queued_def Let_def fun_eq_iff)
  have "objs_ok ?w" using I L link by (auto simp: kobj_inv0_def objs_ok_def cancelled_def Let_def)
  moreover have "links_ok ?w" using I L by (auto simp: kobj_inv0_def links_ok_def cancelled_def Let_def)
  moreover have "queues_ok ?w" using I Q al by (auto simp: kobj_inv0_def queues_ok_def cancelled_def Let_def)
  moreover have "owners_ok ?w" using I Q al by (auto simp: kobj_inv0_def owners_ok_def cancelled_def Let_def)
  moreover have "arena_ok ?w" using I arena_ok_same [of w ?w] by (simp add: kobj_inv0_def cancelled_def Let_def)
  moreover have "waits_ok ?w" using I by (auto simp: kobj_inv0_def waits_ok_def objs_ok_def cancelled_def Let_def)
  ultimately show ?thesis by (simp add: kobj_inv0_def)
qed

lemma kobj_inv_cancelled:
  assumes I: "kobj_inv w" and link: "obs_link w i = Some k"
  shows "kobj_inv (cancelled k i w)"
  using kobj_inv0_cancelled [OF _ link] I unfolding kobj_inv_zero
  by (auto simp: zero_ok_def cancelled_def Let_def)

text \<open>A packet leaves the queue: the observer it owns is destroyed.\<close>

definition unqueued :: "port_id \<Rightarrow> pkt_ref \<Rightarrow> kobj_world \<Rightarrow> kobj_world" where
  "unqueued p r w = reset_pkt_observer r
     (upd_port p (\<lambda>pt. pt\<lparr>port_packets := remove1 r (port_packets pt),
        port_num_ephemeral := (if IsDefaultAllocatedEphemeral (kw_pkts w r) then port_num_ephemeral pt - 1
                               else port_num_ephemeral pt)\<rparr>) w)"

lemma unqueued_obs:
  assumes I: "kobj_inv0 w" and r: "PktObs i \<in> set (port_packets (kw_ports w p))"
  shows "unqueued p (PktObs i) w =
    upd_pobs i (\<lambda>po. po\<lparr>po_alive := False\<rparr>) (upd_pkt (PktObs i) (\<lambda>pkt. pkt\<lparr>pkt_observer := None\<rparr>)
      (upd_port p (\<lambda>pt. pt\<lparr>port_packets := remove1 (PktObs i) (port_packets pt)\<rparr>) w))"
    and "obs_queued w i" "po_port (kw_pobs w i) = p"
proof -
  show q: "obs_queued w i" "po_port (kw_pobs w i) = p" using I r by (auto simp: kobj_inv0_def queues_ok_def)
  then show "unqueued p (PktObs i) w =
    upd_pobs i (\<lambda>po. po\<lparr>po_alive := False\<rparr>) (upd_pkt (PktObs i) (\<lambda>pkt. pkt\<lparr>pkt_observer := None\<rparr>)
      (upd_port p (\<lambda>pt. pt\<lparr>port_packets := remove1 (PktObs i) (port_packets pt)\<rparr>) w))"
    using I by (auto simp: unqueued_def kobj_inv0_def owners_ok_def obs_queued_def reset_pkt_observer_def
        IsDefaultAllocatedEphemeral_def destroy_observer_def upd_defs)
qed

lemma unqueued_arena:
  assumes I: "kobj_inv0 w" and r: "PktArena a \<in> set (port_packets (kw_ports w p))"
  shows "unqueued p (PktArena a) w =
      upd_port p (\<lambda>pt. pt\<lparr>port_packets := remove1 (PktArena a) (port_packets pt),
                          port_num_ephemeral := port_num_ephemeral pt - 1\<rparr>) w"
    and "a \<in> set (kw_arena w)"
proof -
  show a: "a \<in> set (kw_arena w)" using I r by (auto simp: kobj_inv0_def arena_ok_def)
  then show "unqueued p (PktArena a) w =
      upd_port p (\<lambda>pt. pt\<lparr>port_packets := remove1 (PktArena a) (port_packets pt),
                          port_num_ephemeral := port_num_ephemeral pt - 1\<rparr>) w"
    using I by (simp add: kobj_inv0_def arena_ok_def unqueued_def reset_pkt_observer_def IsDefaultAllocatedEphemeral_def)
qed

lemma kobj_inv0_unqueued_obs:
  assumes I: "kobj_inv0 w" and r: "PktObs i \<in> set (port_packets (kw_ports w p))"
  shows "kobj_inv0 (unqueued p (PktObs i) w)"
proof -
  let ?w = "unqueued p (PktObs i) w"
  note U = unqueued_obs [OF I r]
  have L: "obs_link ?w = obs_link w" and Q: "obs_queued ?w = (obs_queued w)(i := False)"
    using U(2) by (auto simp: U(1) obs_link_def obs_queued_def fun_eq_iff)
  have "objs_ok ?w" using I L by (simp add: kobj_inv0_def objs_ok_def U(1))
  moreover have "links_ok ?w" using I L by (auto simp: kobj_inv0_def links_ok_def U(1))
  moreover have "queues_ok ?w" using I Q U(3) by (auto simp: kobj_inv0_def queues_ok_def U(1))
  moreover have "owners_ok ?w" using I Q by (auto simp: kobj_inv0_def owners_ok_def U(1))
  moreover have "arena_ok ?w"
    using I arena_ok_same [of w ?w] by (simp add: kobj_inv0_def U(1) filter_remove1_notin)
  moreover have "waits_ok ?w" using I by (simp add: kobj_inv0_def waits_ok_def U(1))
  ultimately show ?thesis by (simp add: kobj_inv0_def)
qed

lemma kobj_inv0_unqueued_arena:
  assumes I: "kobj_inv0 w" and r: "PktArena a \<in> set (port_packets (kw_ports w p))"
  shows "kobj_inv0 (unqueued p (PktArena a) w)"
proof -
  let ?w = "unqueued p (PktArena a) w"
  note U = unqueued_arena [OF I r]
  have L: "obs_link ?w = obs_link w" and Q: "obs_queued ?w = obs_queued w"
    by (auto simp: U(1) obs_link_def obs_queued_def fun_eq_iff)
  have sub: "set (port_packets (kw_ports ?w q)) \<subseteq> set (port_packets (kw_ports w q))" for q
    by (simp add: U(1) set_remove1_subset)
  have len: "length (filter is_arena (remove1 (PktArena a) xs)) = length (filter is_arena xs) - 1"
    if "PktArena a \<in> set xs" for xs
    using that by (simp add: filter_remove1 length_remove1)
  have "arena_ok ?w" unfolding arena_ok_def
  proof (intro conjI allI impI ballI)
    fix q
    show "port_num_ephemeral (kw_ports ?w q) = length (filter is_arena (port_packets (kw_ports ?w q)))"
      using I r len by (auto simp: U(1) kobj_inv0_def arena_ok_def)
  next
    fix q q' b
    assume "PktArena b \<in> set (port_packets (kw_ports ?w q)) \<and> PktArena b \<in> set (port_packets (kw_ports ?w q'))"
    then have "PktArena b \<in> set (port_packets (kw_ports w q))" "PktArena b \<in> set (port_packets (kw_ports w q'))"
      using sub by auto
    then show "q = q'" using I unfolding kobj_inv0_def arena_ok_def by blast
  next
    fix q b
    assume "PktArena b \<in> set (port_packets (kw_ports ?w q))"
    then have "PktArena b \<in> set (port_packets (kw_ports w q))" using sub by auto
    then show "b \<in> set (kw_arena ?w)" using I by (auto simp: kobj_inv0_def arena_ok_def U(1))
  qed (use I in \<open>simp_all add: U(1) kobj_inv0_def arena_ok_def\<close>)
  moreover have "queues_ok ?w" using I Q by (auto simp: kobj_inv0_def queues_ok_def U(1))
  moreover have "objs_ok ?w" "links_ok ?w" "owners_ok ?w" "waits_ok ?w"
    using I L Q by (auto simp: kobj_inv0_def objs_ok_def links_ok_def owners_ok_def waits_ok_def U(1))
  ultimately show ?thesis by (simp add: kobj_inv0_def)
qed

lemma kobj_inv0_unqueued:
  "kobj_inv0 w \<Longrightarrow> r \<in> set (port_packets (kw_ports w p)) \<Longrightarrow> kobj_inv0 (unqueued p r w)"
  by (cases r) (auto intro: kobj_inv0_unqueued_obs kobj_inv0_unqueued_arena)

subsection \<open>The loops over an object's observers\<close>

text \<open>What a port observer's packet says once it has fired.\<close>

definition fired_payload :: "kobj_world \<Rightarrow> nat \<Rightarrow> zx_signals \<Rightarrow> nat \<Rightarrow> pkt_payload" where
  "fired_payload w i s n = set_observed s n
     ((if po_options (kw_pobs w i) AND ZX_WAIT_ASYNC_TIMESTAMP \<noteq> 0 then set_timestamp (kw_now w) else id)
        (pk_payload (packet (kw_pkts w (PktObs i)))))"

lemma MaybeQueue_waiting:
  assumes I: "kobj_inv w" and link: "obs_link w i = Some k" and trig: "po_trigger (kw_pobs w i) AND s \<noteq> 0"
  shows "\<exists>w2. PortObserver_MaybeQueue i s n w = (\<lparr>kNeedRemoval = True, kHandled = False\<rparr>, w2) \<and>
     same_links (upd_port (po_port (kw_pobs w i)) (\<lambda>pt. pt\<lparr>port_packets := port_packets pt @ [PktObs i]\<rparr>) w) w2 \<and>
     kw_objs w2 = kw_objs w \<and> kw_pobs w2 = kw_pobs w \<and> kw_now w2 = kw_now w \<and>
     (\<forall>p. sem_count (port_sema (kw_ports w2 p)) =
            sem_count (port_sema (kw_ports w p)) + (if p = po_port (kw_pobs w i) then 1 else 0)) \<and>
     kw_pkts w2 = (kw_pkts w)(PktObs i := (kw_pkts w (PktObs i))
        \<lparr>packet := (packet (kw_pkts w (PktObs i)))\<lparr>pk_payload := fired_payload w i s n\<rparr>\<rparr>)"
proof -
  have s: "s \<noteq> 0" using trig by auto
  show ?thesis
    using waiting_port_open [OF I link] waiting_observer(3,4) [OF I link] trig s
    by (auto simp: PortObserver_MaybeQueue_def PortDispatcher_Queue_def Let_def IsDefaultAllocatedEphemeral_def
        pkt_in_container_def same_links_def fired_payload_def upd_payload_def kw_now_frame)
qed

definition packet_of_fired :: "kobj_world \<Rightarrow> nat \<Rightarrow> zx_signals \<Rightarrow> nat \<Rightarrow> port_packet" where
  "packet_of_fired w i s n = (kw_pkts w (PktObs i))
     \<lparr>packet := (packet (kw_pkts w (PktObs i)))\<lparr>pk_payload := fired_payload w i s n\<rparr>, pkt_observer := Some i\<rparr>"

lemma notify_port_fires:
  assumes I: "kobj_inv w" and link: "obs_link w i = Some k" and trig: "po_trigger (kw_pobs w i) AND s \<noteq> 0"
  shows "\<exists>w'. notify_one (OnStateChange s) k (PortObs i) w = (\<lparr>kNeedRemoval = True, kHandled = False\<rparr>, w') \<and>
     same_links (fired k i w) w' \<and> kw_pkts w' = (kw_pkts w)(PktObs i := packet_of_fired w i s 1) \<and>
     kw_pobs w' = (kw_pobs w)(i := (kw_pobs w i)\<lparr>po_dispatcher := None\<rparr>) \<and> kw_now w' = kw_now w \<and>
     (\<forall>p. sem_count (port_sema (kw_ports w' p)) =
            sem_count (port_sema (kw_ports w p)) + (if p = po_port (kw_pobs w i) then 1 else 0))"
proof -
  obtain w2 where q: "PortObserver_MaybeQueue i s 1 w = (\<lparr>kNeedRemoval = True, kHandled = False\<rparr>, w2)"
    and sl: "same_links (upd_port (po_port (kw_pobs w i)) (\<lambda>pt. pt\<lparr>port_packets := port_packets pt @ [PktObs i]\<rparr>) w) w2"
    and fr: "kw_objs w2 = kw_objs w" "kw_pobs w2 = kw_pobs w" "kw_now w2 = kw_now w"
      "\<forall>p. sem_count (port_sema (kw_ports w2 p)) =
            sem_count (port_sema (kw_ports w p)) + (if p = po_port (kw_pobs w i) then 1 else 0)"
      "kw_pkts w2 = (kw_pkts w)(PktObs i := (kw_pkts w (PktObs i))
        \<lparr>packet := (packet (kw_pkts w (PktObs i)))\<lparr>pk_payload := fired_payload w i s 1\<rparr>\<rparr>)"
    using MaybeQueue_waiting [OF I link trig, of 1] by metis
  have "PktObs i \<in> set (port_packets (kw_ports w2 (po_port (kw_pobs w i))))"
    using sl by (simp add: same_links_def)
  then show ?thesis
    using q sl fr waiting_observer(1,2) [OF I link]
    by (auto simp: notify_one_def PortDispatcher_MaybeReap_def pkt_in_container_def Let_def same_links_def fired_def
        packet_of_fired_def)
qed

lemma notify_wait:
  "same_links w (snd (notify_one (OnStateChange s) k (WaitObs i) w)) \<and>
   kw_pkts (snd (notify_one (OnStateChange s) k (WaitObs i) w)) = kw_pkts w \<and>
   kw_pobs (snd (notify_one (OnStateChange s) k (WaitObs i) w)) = kw_pobs w \<and>
   kw_ports (snd (notify_one (OnStateChange s) k (WaitObs i) w)) = kw_ports w \<and>
   kw_now (snd (notify_one (OnStateChange s) k (WaitObs i) w)) = kw_now w"
  by (simp add: notify_one_def WaitStateObserver_OnStateChange_def Let_def same_links_def)

text \<open>The packets that a new state queues on port \<open>p\<close>, in the order of the observers.\<close>

fun fires :: "kobj_world \<Rightarrow> zx_signals \<Rightarrow> obs_ref \<Rightarrow> bool" where
  "fires w s (PortObs i) \<longleftrightarrow> po_trigger (kw_pobs w i) AND s \<noteq> 0"
| "fires w s (WaitObs i) \<longleftrightarrow> False"

fun fired_pkts :: "kobj_world \<Rightarrow> zx_signals \<Rightarrow> port_id \<Rightarrow> obs_ref list \<Rightarrow> pkt_ref list" where
  "fired_pkts w s p [] = []"
| "fired_pkts w s p (WaitObs i # rs) = fired_pkts w s p rs"
| "fired_pkts w s p (PortObs i # rs) =
     (if po_port (kw_pobs w i) = p \<and> po_trigger (kw_pobs w i) AND s \<noteq> 0 then PktObs i # fired_pkts w s p rs
      else fired_pkts w s p rs)"

definition notified :: "kobj_world \<Rightarrow> zx_signals \<Rightarrow> koid \<Rightarrow> obs_ref list \<Rightarrow> kobj_world \<Rightarrow> bool" where
  "notified w s k rs w' \<longleftrightarrow> kobj_inv w' \<and>
     (\<forall>p. port_packets (kw_ports w' p) = port_packets (kw_ports w p) @ fired_pkts w s p rs \<and>
          sem_count (port_sema (kw_ports w' p)) = sem_count (port_sema (kw_ports w p)) + int (length (fired_pkts w s p rs))) \<and>
     (\<forall>i. kw_pkts w' (PktObs i) = (if PortObs i \<in> set rs \<and> fires w s (PortObs i) then packet_of_fired w i s 1
                                   else kw_pkts w (PktObs i))) \<and>
     (\<forall>i. kw_pobs w' i = (if PortObs i \<in> set rs \<and> fires w s (PortObs i) then (kw_pobs w i)\<lparr>po_dispatcher := None\<rparr>
                          else kw_pobs w i)) \<and>
     obj_observers (kw_objs w' k) = filter (\<lambda>r. r \<notin> set rs \<or> \<not> fires w s r) (obj_observers (kw_objs w k)) \<and>
     kw_now w' = kw_now w"

lemma fired_pkts_cong:
  "(\<And>i. po_port (kw_pobs w' i) = po_port (kw_pobs w i) \<and> po_trigger (kw_pobs w' i) = po_trigger (kw_pobs w i)) \<Longrightarrow>
   fired_pkts w' s p rs = fired_pkts w s p rs"
  by (induction w s p rs rule: fired_pkts.induct) auto

lemma remove1_filter_distinct: "distinct xs \<Longrightarrow> remove1 x xs = filter (\<lambda>y. y \<noteq> x) xs"
  by (simp add: distinct_remove1_removeAll removeAll_filter_not_eq) (metis)

lemma notified_fire:
  assumes N: "notified w1 s k rs w'" and ni: "PortObs i \<notin> set rs" and trig: "po_trigger (kw_pobs w i) AND s \<noteq> 0"
    and ob: "obj_observers (kw_objs w1 k) = filter (\<lambda>y. y \<noteq> PortObs i) (obj_observers (kw_objs w k))"
    and pp: "\<And>p. port_packets (kw_ports w1 p) = port_packets (kw_ports w p) @ (if p = po_port (kw_pobs w i) then [PktObs i] else [])"
    and sc: "\<And>p. sem_count (port_sema (kw_ports w1 p)) =
            sem_count (port_sema (kw_ports w p)) + (if p = po_port (kw_pobs w i) then 1 else 0)"
    and pk: "kw_pkts w1 = (kw_pkts w)(PktObs i := packet_of_fired w i s 1)"
    and po: "kw_pobs w1 = (kw_pobs w)(i := (kw_pobs w i)\<lparr>po_dispatcher := None\<rparr>)" and nw: "kw_now w1 = kw_now w"
  shows "notified w s k (PortObs i # rs) w'"
proof -
  have fp: "fired_pkts w1 s p rs = fired_pkts w s p rs" for p by (rule fired_pkts_cong) (simp add: po)
  have fr: "fires w1 s x = fires w s x" for x by (cases x) (simp_all add: po)
  have pf: "packet_of_fired w1 j s n = packet_of_fired w j s n" if "j \<noteq> i" for j n
    using that by (simp add: packet_of_fired_def fired_payload_def po pk nw)
  have fi: "fires w s (PortObs i)" using trig by simp
  have "kw_pkts w' (PktObs j) = (if PortObs j \<in> set (PortObs i # rs) \<and> fires w s (PortObs j)
      then packet_of_fired w j s 1 else kw_pkts w (PktObs j))" for j
    using N ni fi by (cases "j = i") (simp_all add: notified_def fr pf pk del: fires.simps)
  moreover have "kw_pobs w' j = (if PortObs j \<in> set (PortObs i # rs) \<and> fires w s (PortObs j)
      then (kw_pobs w j)\<lparr>po_dispatcher := None\<rparr> else kw_pobs w j)" for j
    using N ni fi by (cases "j = i") (simp_all add: notified_def fr po del: fires.simps)
  moreover have "obj_observers (kw_objs w' k) =
      filter (\<lambda>r. r \<notin> set (PortObs i # rs) \<or> \<not> fires w s r) (obj_observers (kw_objs w k))"
  proof -
    have "obj_observers (kw_objs w' k) =
        filter (\<lambda>r. r \<noteq> PortObs i \<and> (r \<notin> set rs \<or> \<not> fires w s r)) (obj_observers (kw_objs w k))"
      using N by (simp add: notified_def fr ob filter_filter conj_commute del: fires.simps)
    also have "\<dots> = filter (\<lambda>r. r \<notin> set (PortObs i # rs) \<or> \<not> fires w s r) (obj_observers (kw_objs w k))"
      by (rule filter_cong [OF refl]) (use ni fi in auto)
    finally show ?thesis .
  qed
  moreover have "port_packets (kw_ports w' p) = port_packets (kw_ports w p) @ fired_pkts w s p (PortObs i # rs)" for p
    using N trig by (simp add: notified_def fp pp)
  moreover have "sem_count (port_sema (kw_ports w' p)) =
      sem_count (port_sema (kw_ports w p)) + int (length (fired_pkts w s p (PortObs i # rs)))" for p
    using N trig by (simp add: notified_def fp sc)
  ultimately show ?thesis using N unfolding notified_def nw by blast
qed

lemma notify_loop_spec:
  assumes "kobj_inv w" "distinct rs" "\<And>i. PortObs i \<in> set rs \<Longrightarrow> obs_link w i = Some k"
  shows "notified w s k rs (snd (notify_loop (OnStateChange s) k rs w))"
  using assms
proof (induction rs arbitrary: w)
  case Nil
  then show ?case by (simp add: notified_def)
next
  case (Cons r rs)
  let ?w1 = "snd (notify_one (OnStateChange s) k r w)"
  have tail: "snd (notify_loop (OnStateChange s) k (r # rs) w) = snd (notify_loop (OnStateChange s) k rs ?w1)"
    by (simp add: case_prod_beta)
  have IH: "notified ?w1 s k rs (snd (notify_loop (OnStateChange s) k rs ?w1))"
    if "kobj_inv ?w1" "\<And>i. PortObs i \<in> set rs \<Longrightarrow> obs_link ?w1 i = Some k"
    using Cons.IH [OF that(1)] Cons.prems(2) that(2) by simp
  show ?case
  proof (cases r)
    case (WaitObs i)
    note W = notify_wait [of w s k i, folded WaitObs]
    have inv1: "kobj_inv ?w1" using kobj_inv_same W Cons.prems(1) by blast
    have link1: "obs_link ?w1 i = Some k" if "PortObs i \<in> set rs" for i
      using Cons.prems(3) [of i] that W by (auto simp: obs_link_def split: if_splits)
    have "fired_pkts ?w1 s p rs = fired_pkts w s p rs" for p using W by (intro fired_pkts_cong) simp
    moreover have "fires ?w1 s x = fires w s x" for x using W by (cases x) simp_all
    ultimately show ?thesis
      using IH [OF inv1 link1] W WaitObs unfolding tail
      by (auto simp: notified_def same_links_def packet_of_fired_def fired_payload_def intro!: filter_cong)
  next
    case (PortObs i)
    have link: "obs_link w i = Some k" using Cons.prems(3) PortObs by simp
    show ?thesis
    proof (cases "po_trigger (kw_pobs w i) AND s = 0")
      case True
      then have "?w1 = w" by (simp add: PortObs notify_one_def PortObserver_MaybeQueue_def)
      then show ?thesis
        using IH Cons.prems(1,3) True PortObs unfolding tail
        by (auto simp: notified_def intro!: filter_cong)
    next
      case False
      note F = notify_port_fires [OF Cons.prems(1) link False, folded PortObs]
      have sl: "same_links (fired k i w) ?w1" and pk: "kw_pkts ?w1 = (kw_pkts w)(PktObs i := packet_of_fired w i s 1)"
        and po: "kw_pobs ?w1 = (kw_pobs w)(i := (kw_pobs w i)\<lparr>po_dispatcher := None\<rparr>)" and nw: "kw_now ?w1 = kw_now w"
        and sc: "\<forall>p. sem_count (port_sema (kw_ports ?w1 p)) =
            sem_count (port_sema (kw_ports w p)) + (if p = po_port (kw_pobs w i) then 1 else 0)"
        using F by auto
      have inv1: "kobj_inv ?w1" using kobj_inv_same [OF sl] kobj_inv_fired [OF Cons.prems(1) link] by simp
      have link1: "obs_link ?w1 j = Some k" if "PortObs j \<in> set rs" for j
      proof -
        have "j \<noteq> i" using Cons.prems(2) that PortObs by auto
        then show ?thesis using Cons.prems(3) [of j] that obs_link_cong [of ?w1 j w] by (simp add: po)
      qed
      have "distinct (obj_observers (kw_objs w k))" using Cons.prems(1) by (simp add: kobj_inv_def objs_ok_def)
      then have ob: "obj_observers (kw_objs ?w1 k) = filter (\<lambda>y. y \<noteq> PortObs i) (obj_observers (kw_objs w k))"
        using sl by (simp add: same_links_def fired_def Let_def remove1_filter_distinct)
      have pp: "port_packets (kw_ports ?w1 p) = port_packets (kw_ports w p) @
          (if p = po_port (kw_pobs w i) then [PktObs i] else [])" for p
        using sl by (simp add: same_links_def fired_def Let_def)
      have ni: "PortObs i \<notin> set rs" using Cons.prems(2) PortObs by simp
      show ?thesis
        unfolding tail unfolding PortObs
        by (rule notified_fire [OF IH [OF inv1 link1, unfolded PortObs] ni False ob [unfolded PortObs]
              pp [unfolded PortObs] sc [unfolded PortObs, rule_format] pk [unfolded PortObs] po [unfolded PortObs]
              nw [unfolded PortObs]])
    qed
  qed
qed

text \<open>The loop of a cancellation destroys the observers it is about and leaves the rest.\<close>

lemma notify_loop_cancel_inv:
  assumes "kobj_inv w" "distinct rs" "\<And>i. PortObs i \<in> set rs \<Longrightarrow> obs_link w i = Some k"
    and port: "\<And>i w. snd (f (PortObs i) w) = w"
    and wait: "\<And>i w. same_links w (snd (f (WaitObs i) w)) \<and> kw_pobs (snd (f (WaitObs i) w)) = kw_pobs w \<and>
                       \<not> kNeedRemoval (fst (f (WaitObs i) w))"
  shows "kobj_inv (snd (notify_loop f k rs w))"
  using assms(1-3)
proof (induction rs arbitrary: w)
  case (Cons r rs)
  let ?w1 = "snd (notify_one f k r w)"
  have tail: "snd (notify_loop f k (r # rs) w) = snd (notify_loop f k rs ?w1)" by (simp add: case_prod_beta)
  have "kobj_inv ?w1 \<and> (\<forall>j. PortObs j \<in> set rs \<longrightarrow> obs_link ?w1 j = Some k)"
  proof (cases r)
    case (WaitObs i)
    have "?w1 = snd (f (WaitObs i) w)" using wait [of w i] by (simp add: WaitObs notify_one_def case_prod_beta)
    then show ?thesis
      using wait [of w i] kobj_inv_same [of w ?w1] obs_link_cong [of ?w1 _ w] Cons.prems(1,3) by simp
  next
    case (PortObs i)
    have link: "obs_link w i = Some k" using Cons.prems(3) PortObs by simp
    note wo = waiting_observer [OF Cons.prems(1) link]
    have "\<not> pkt_in_container (po_port (kw_pobs w i)) (PktObs i) w" using wo(4) by (simp add: pkt_in_container_def)
    then have "?w1 = w \<or> ?w1 = cancelled k i w"
      using wo(1) port [of i w]
      by (auto simp: PortObs notify_one_def case_prod_beta PortDispatcher_MaybeReap_def pkt_in_container_def Let_def
          cancelled_def destroy_observer_def upd_defs)
    moreover have "obs_link (cancelled k i w) j = Some k" if "PortObs j \<in> set rs" for j
    proof -
      have "j \<noteq> i" using Cons.prems(2) that PortObs by auto
      then show ?thesis
        using Cons.prems(3) [of j] that obs_link_cong [of "cancelled k i w" j w] by (simp add: cancelled_def Let_def)
    qed
    ultimately show ?thesis using kobj_inv_cancelled [OF Cons.prems(1) link] Cons.prems(1,3) by auto
  qed
  then show ?case unfolding tail using Cons.IH [of ?w1] Cons.prems(2) by simp
qed simp

lemma obj_observers_linked:
  "kobj_inv w \<Longrightarrow> distinct (obj_observers (kw_objs w k)) \<and>
     (PortObs i \<in> set (obj_observers (kw_objs w k)) \<longleftrightarrow> obs_link w i = Some k)"
  by (auto simp: kobj_inv_def objs_ok_def)

lemma kobj_inv_Cancel:
  assumes "kobj_inv w"
  shows "kobj_inv (Dispatcher_Cancel k h w)" "kobj_inv (snd (Dispatcher_CancelByKey k h p key w))"
proof -
  have "kobj_inv (snd (notify_loop (OnCancel h) k (obj_observers (kw_objs w k)) w))"
    by (rule notify_loop_cancel_inv [OF assms])
      (use assms in \<open>simp_all add: obj_observers_linked WaitStateObserver_OnCancel_def Let_def same_links_def\<close>)
  then show "kobj_inv (Dispatcher_Cancel k h w)" by (simp add: Dispatcher_Cancel_def CancelWithFunc_def case_prod_beta)
  have "kobj_inv (snd (notify_loop (OnCancelByKey h p key) k (obj_observers (kw_objs w k)) w))"
    by (rule notify_loop_cancel_inv [OF assms])
      (use assms in \<open>simp_all add: obj_observers_linked same_links_def\<close>)
  then show "kobj_inv (snd (Dispatcher_CancelByKey k h p key w))"
    by (simp add: Dispatcher_CancelByKey_def CancelWithFunc_def case_prod_beta)
qed

lemma UpdateState_notified:
  assumes I: "kobj_inv w" and ch: "signals_update c t (obj_signals (kw_objs w k)) \<noteq> obj_signals (kw_objs w k)"
  shows "notified (upd_obj k (\<lambda>d. d\<lparr>obj_signals := signals_update c t (obj_signals (kw_objs w k))\<rparr>) w)
     (signals_update c t (obj_signals (kw_objs w k))) k (obj_observers (kw_objs w k)) (UpdateStateLocked k c t w)"
proof -
  let ?w1 = "upd_obj k (\<lambda>d. d\<lparr>obj_signals := signals_update c t (obj_signals (kw_objs w k))\<rparr>) w"
  have sl: "same_links w ?w1" by (simp add: same_links_def)
  have I1: "kobj_inv ?w1" using kobj_inv_same [OF sl] I by simp
  have "notified ?w1 s k (obj_observers (kw_objs w k))
      (snd (notify_loop (OnStateChange s) k (obj_observers (kw_objs w k)) ?w1))" for s
    by (rule notify_loop_spec [OF I1]) (use I in \<open>simp_all add: obj_observers_linked obs_link_cong [of ?w1 _ w]\<close>)
  then show ?thesis using ch by (simp add: UpdateStateLocked_def Let_def)
qed

lemma kobj_inv_UpdateState: "kobj_inv w \<Longrightarrow> kobj_inv (UpdateStateLocked k c t w)"
proof (cases "signals_update c t (obj_signals (kw_objs w k)) = obj_signals (kw_objs w k)")
  case True
  assume "kobj_inv w"
  moreover have "same_links w (UpdateStateLocked k c t w)"
    using True by (simp add: UpdateStateLocked_def Let_def same_links_def)
  ultimately show ?thesis using kobj_inv_same by blast
next
  case False
  assume "kobj_inv w"
  then show ?thesis using UpdateState_notified [OF _ False] by (auto simp: notified_def)
qed

subsection \<open>Every operation keeps the invariant\<close>

lemma unqueued_other:
  assumes "kobj_inv0 w" "r \<in> set (port_packets (kw_ports w p))"
  shows "port_packets (kw_ports (unqueued p r w) q) =
      (if q = p then remove1 r (port_packets (kw_ports w p)) else port_packets (kw_ports w q))"
    "port_observers (kw_ports (unqueued p r w) q) = port_observers (kw_ports w q)"
    "port_zero_handles (kw_ports (unqueued p r w) q) = port_zero_handles (kw_ports w q)"
    "kw_arena (unqueued p r w) = kw_arena w"
  using assms by (cases r; auto simp: unqueued_obs(1) unqueued_arena(1))+

lemma zero_ok_unqueued:
  "kobj_inv0 w \<Longrightarrow> r \<in> set (port_packets (kw_ports w p)) \<Longrightarrow> zero_ok w \<Longrightarrow> zero_ok (unqueued p r w)"
  by (auto simp: zero_ok_def unqueued_other)

lemma kobj_inv_unqueued:
  "kobj_inv w \<Longrightarrow> r \<in> set (port_packets (kw_ports w p)) \<Longrightarrow> kobj_inv (unqueued p r w)"
  by (auto simp: kobj_inv_zero kobj_inv0_unqueued zero_ok_unqueued)

lemma kobj_inv0_free:
  assumes "kobj_inv0 w" and "\<And>p. r \<notin> set (port_packets (kw_ports w p))"
  shows "kobj_inv0 (pkt_free r w)"
proof (cases r)
  case (PktArena a)
  have "arena_ok (PortAllocator_Free a w)"
    using assms PktArena unfolding kobj_inv0_def arena_ok_def
    by (auto simp: PortAllocator_Free_def length_remove1 intro: le_trans [OF diff_le_self] dest: notin_set_remove1)
  then show ?thesis
    using assms(1) PktArena
    by (simp add: kobj_inv0_def pkt_free_def PortAllocator_Free_def objs_ok_def links_ok_def queues_ok_def owners_ok_def
        waits_ok_def obs_link_def obs_queued_def)
qed (use assms in \<open>simp add: pkt_free_def\<close>)

lemma pkt_free_ports [simp]: "kw_ports (pkt_free r w) = kw_ports w"
  by (cases r) (simp_all add: pkt_free_def PortAllocator_Free_def)

lemma zero_ok_free [simp]: "zero_ok (pkt_free r w) = zero_ok w"
  by (simp add: zero_ok_def)

lemma unqueued_gone:
  assumes I: "kobj_inv0 w" and r: "r \<in> set (port_packets (kw_ports w p))"
  shows "r \<notin> set (port_packets (kw_ports (unqueued p r w) q))"
proof (cases "q = p")
  case True
  then show ?thesis using I r by (simp add: unqueued_other kobj_inv0_def queues_ok_def)
next
  case False
  have "p = q" if "r \<in> set (port_packets (kw_ports w q))"
  proof (cases r)
    case (PktObs i)
    then show ?thesis using I r that by (auto simp: kobj_inv0_def queues_ok_def)
  next
    case (PktArena a)
    then show ?thesis using I r that unfolding kobj_inv0_def arena_ok_def by blast
  qed
  then have "r \<notin> set (port_packets (kw_ports w q))" using False by auto
  then show ?thesis using I r False by (simp add: unqueued_other)
qed

lemma kobj_inv_Dequeue_take:
  assumes I: "kobj_inv w"
  shows "kobj_inv (snd (PortDispatcher_Dequeue_take p w))"
proof -
  have intr: "kobj_inv (upd_port p (\<lambda>pt. pt\<lparr>port_interrupts := tl (port_interrupts pt)\<rparr>) w)"
    by (rule kobj_inv_sameD [OF _ I]) (simp add: same_links_def)
  have reg: "kobj_inv (if pkt_ephemeral (kw_pkts w r) then pkt_free r (unqueued p r w) else unqueued p r w)"
    if "port_packets (kw_ports w p) = r # rs" for r rs
  proof -
    have r: "r \<in> set (port_packets (kw_ports w p))" using that by simp
    have I0: "kobj_inv0 w" using I by (simp add: kobj_inv_zero)
    have "kobj_inv0 (pkt_free r (unqueued p r w))"
      by (rule kobj_inv0_free [OF kobj_inv0_unqueued [OF I0 r] unqueued_gone [OF I0 r]])
    then show ?thesis using kobj_inv_unqueued [OF I r] by (simp add: kobj_inv_zero)
  qed
  show ?thesis
  proof (cases "port_packets (kw_ports w p)")
    case Nil
    then show ?thesis using I intr by (simp add: PortDispatcher_Dequeue_take_def Let_def)
  next
    case (Cons r rs)
    have "unqueued p r w = reset_pkt_observer r (upd_port p (\<lambda>pt. pt\<lparr>port_packets := rs,
        port_num_ephemeral := (if IsDefaultAllocatedEphemeral (kw_pkts w r) then port_num_ephemeral pt - 1
                               else port_num_ephemeral pt)\<rparr>) w)"
      by (simp add: unqueued_def upd_port_def Cons)
    then show ?thesis
      using reg [OF Cons] intr Cons
      by (cases "pkt_ephemeral (kw_pkts w r)") (simp_all add: PortDispatcher_Dequeue_take_def Let_def)
  qed
qed

lemma kobj_inv_sema:
  "kobj_inv w \<Longrightarrow> kobj_inv (upd_port p (\<lambda>pt. pt\<lparr>port_sema := m\<rparr>) (w\<lparr>kw_sched := sw\<rparr>))"
  by (rule kobj_inv_sameD) (simp_all add: same_links_def)

lemma kobj_inv_Dequeue: "kobj_inv w \<Longrightarrow> kobj_inv (snd (PortDispatcher_Dequeue cur deadline now p w))"
proof (induction cur deadline now p w rule: PortDispatcher_Dequeue.induct)
  case (1 cur deadline now p w)
  obtain r w1 where sw: "sema_Wait cur deadline now p w = (r, w1)" by fastforce
  have I1: "kobj_inv w1"
    using sw 1(2) kobj_inv_sema by (auto simp: sema_Wait_def case_prod_beta)
  obtain o' w2 where tk: "PortDispatcher_Dequeue_take p w1 = (o', w2)" by fastforce
  have I2: "kobj_inv w2" using kobj_inv_Dequeue_take [OF I1, of p] tk by simp
  show ?case
  proof (cases "r = Some ZX_OK \<and> o' = None")
    case True
    then show ?thesis
      using 1(1) [OF sw [symmetric], of ZX_OK o' w2] tk I2 sw
      by (simp add: PortDispatcher_Dequeue.simps [of cur deadline now p w])
  next
    case False
    then show ?thesis using sw tk I1 I2
      by (auto simp: PortDispatcher_Dequeue.simps [of cur deadline now p w] split: option.splits)
  qed
qed

lemma kobj_inv_cancel_queued:
  assumes "kobj_inv w" "distinct rs" "set rs \<subseteq> set (port_packets (kw_ports w p))"
  shows "kobj_inv (snd (cancel_queued_loop p h key rs b w))"
  using assms
proof (induction p h key rs b w rule: cancel_queued_loop.induct)
  case (2 p h key r rs b w)
  have I1: "kobj_inv (unqueued p r w)" using kobj_inv_unqueued 2 by simp
  have "set rs \<subseteq> set (port_packets (kw_ports (unqueued p r w) p))"
    using 2(3-5) by (auto simp: unqueued_other kobj_inv_zero kobj_inv0_def queues_ok_def)
  moreover have "cancel_queued_loop p h key (r # rs) b w =
      (if pkt_handle (kw_pkts w r) = h \<and> pk_key (packet (kw_pkts w r)) = key
       then cancel_queued_loop p h key rs True (unqueued p r w) else cancel_queued_loop p h key rs b w)"
    by (simp add: unqueued_def Let_def)
  ultimately show ?case
    using 2 I1 by (simp add: unqueued_def [symmetric] del: cancel_queued_loop.simps)
qed simp

lemma kobj_inv_CancelQueued:
  assumes "kobj_inv w"
  shows "kobj_inv (snd (PortDispatcher_CancelQueued_key p h key w))" "kobj_inv (snd (PortDispatcher_CancelQueued_packet p r w))"
proof -
  have "distinct (port_packets (kw_ports w p))" using assms by (simp add: kobj_inv_def queues_ok_def)
  then show "kobj_inv (snd (PortDispatcher_CancelQueued_key p h key w))"
    unfolding PortDispatcher_CancelQueued_key_def by (rule kobj_inv_cancel_queued [OF assms]) simp
  show "kobj_inv (snd (PortDispatcher_CancelQueued_packet p r w))"
    using kobj_inv_unqueued [OF assms, of r p] assms
    by (simp add: PortDispatcher_CancelQueued_packet_def pkt_in_container_def unqueued_def)
qed

lemma fresh_packet_notin: "fresh_packet w \<notin> set (kw_arena w)"
proof -
  have *: "(\<forall>x \<in> set xs. x \<le> fold max xs n) \<and> n \<le> fold max xs n" for xs and n :: nat
  proof (induction xs arbitrary: n)
    case (Cons y ys)
    show ?case using Cons.IH [of "max y n"] by simp
  qed simp
  show ?thesis using * [of "kw_arena w" 0] Suc_n_not_le_n unfolding fresh_packet_def by blast
qed

lemma kobj_inv_Alloc:
  assumes I: "kobj_inv w" and al: "PortAllocator_Alloc w = Some (a, w1)"
  shows "kobj_inv w1" "a \<in> set (kw_arena w1)" "PktArena a \<notin> set (port_packets (kw_ports w1 q))"
    "pkt_ephemeral (kw_pkts w1 (PktArena a))"
proof -
  have a: "a = fresh_packet w" "length (kw_arena w) < kMaxAllocatedPacketCount"
    and w1: "w1 = upd_pkt (PktArena a)
             (\<lambda>_. \<lparr>packet = \<lparr>pk_key = 0, pk_type = 0, pk_status = 0, pk_payload = PayloadUser []\<rparr>,
                   pkt_handle = None, pkt_observer = None, pkt_ephemeral = True\<rparr>)
             (w\<lparr>kw_arena := a # kw_arena w\<rparr>)"
    using al by (auto simp: PortAllocator_Alloc_def split: if_splits)
  have na: "a \<notin> set (kw_arena w)" using fresh_packet_notin a(1) by simp
  have A: "arena_ok w" using I by (simp add: kobj_inv_def)
  have nq: "PktArena a \<notin> set (port_packets (kw_ports w q))" for q using A na unfolding arena_ok_def by blast
  have "arena_ok w1" unfolding arena_ok_def
  proof (intro conjI allI impI ballI)
    fix p q b
    assume "PktArena b \<in> set (port_packets (kw_ports w1 p)) \<and> PktArena b \<in> set (port_packets (kw_ports w1 q))"
    then show "p = q" using A unfolding arena_ok_def w1 by (simp del: fun_upd_apply) blast
  qed (use A a(2) na in \<open>auto simp: w1 arena_ok_def\<close>)
  moreover have "obs_link w1 = obs_link w" "obs_queued w1 = obs_queued w"
    by (auto simp: w1 obs_link_def obs_queued_def fun_eq_iff)
  ultimately show "kobj_inv w1"
    using I by (simp add: kobj_inv_def objs_ok_def links_ok_def queues_ok_def owners_ok_def waits_ok_def zero_ok_def w1)
  show "a \<in> set (kw_arena w1)" "PktArena a \<notin> set (port_packets (kw_ports w1 q))"
    "pkt_ephemeral (kw_pkts w1 (PktArena a))"
    using nq by (simp_all add: w1)
qed

lemma kobj_inv_enqueue_arena:
  assumes I: "kobj_inv w" and a: "a \<in> set (kw_arena w)" and nq: "\<And>q. PktArena a \<notin> set (port_packets (kw_ports w q))"
    and nz: "\<not> port_zero_handles (kw_ports w p)"
  shows "kobj_inv (upd_port p (\<lambda>pt. pt\<lparr>port_packets := port_packets pt @ [PktArena a],
                                       port_num_ephemeral := port_num_ephemeral pt + 1\<rparr>) w)" (is "kobj_inv ?w")
proof -
  have A: "arena_ok w" using I by (simp add: kobj_inv_def)
  have "arena_ok ?w" unfolding arena_ok_def
  proof (intro conjI allI impI ballI)
    fix q q' b
    assume *: "PktArena b \<in> set (port_packets (kw_ports ?w q)) \<and> PktArena b \<in> set (port_packets (kw_ports ?w q'))"
    show "q = q'"
    proof (cases "b = a")
      case True
      then show ?thesis using * nq by (auto split: if_splits)
    next
      case False
      then have "PktArena b \<in> set (port_packets (kw_ports w q)) \<and> PktArena b \<in> set (port_packets (kw_ports w q'))"
        using * by (auto split: if_splits)
      then show ?thesis using A unfolding arena_ok_def by blast
    qed
  qed (use A a in \<open>auto simp: arena_ok_def split: if_splits\<close>)
  moreover have "obs_link ?w = obs_link w" "obs_queued ?w = obs_queued w"
    by (auto simp: obs_link_def obs_queued_def fun_eq_iff)
  moreover have "queues_ok ?w"
    using I nq calculation by (auto simp: kobj_inv_def queues_ok_def)
  ultimately show ?thesis
    using I nz by (simp add: kobj_inv_def objs_ok_def links_ok_def owners_ok_def waits_ok_def zero_ok_def)
qed

lemma kobj_inv_QueueUser:
  assumes I: "kobj_inv w"
  shows "kobj_inv (snd (PortDispatcher_QueueUser p pkt w))"
proof (cases "PortAllocator_Alloc w")
  case None
  then show ?thesis using I by (simp add: PortDispatcher_QueueUser_def)
next
  case (Some aw)
  obtain a w1 where al: "PortAllocator_Alloc w = Some (a, w1)" using Some by (cases aw) simp
  let ?w2 = "upd_pkt (PktArena a) (\<lambda>pp. pp\<lparr>packet := pkt\<lparr>pk_type := ZX_PKT_TYPE_USER\<rparr>\<rparr>) w1"
  note A = kobj_inv_Alloc [OF I al]
  have I2: "kobj_inv ?w2" by (rule kobj_inv_sameD [OF _ A(1)]) (simp add: same_links_def)
  have nq: "PktArena a \<notin> set (port_packets (kw_ports ?w2 q))" for q using A(3) by simp
  have free: "kobj_inv (pkt_free (PktArena a) ?w2)"
    using I2 kobj_inv0_free [of ?w2 "PktArena a"] nq by (simp add: kobj_inv_zero)
  let ?enq = "upd_port p (\<lambda>pt. pt\<lparr>port_packets := port_packets pt @ [PktArena a],
                                  port_num_ephemeral := port_num_ephemeral pt + 1\<rparr>) ?w2"
  have post: "kobj_inv (sema_Post p ?enq)" if "\<not> port_zero_handles (kw_ports ?w2 p)"
  proof (rule kobj_inv_sameD)
    show "kobj_inv ?enq" by (rule kobj_inv_enqueue_arena [OF I2 _ nq that]) (use A(2) in simp)
    show "same_links ?enq (sema_Post p ?enq)" by (simp add: same_links_def)
  qed
  show ?thesis
    using free post al A(4)
    by (auto simp: PortDispatcher_QueueUser_def PortDispatcher_Queue_def Let_def IsDefaultAllocatedEphemeral_def)
qed

text \<open>A new observer waits on its object, or fires at once.\<close>

definition linked_new :: "koid \<Rightarrow> port_id \<Rightarrow> u32 \<Rightarrow> handle_id \<Rightarrow> u64 \<Rightarrow> zx_signals \<Rightarrow> kobj_world \<Rightarrow> kobj_world" where
  "linked_new k p options h key signals w =
     (let i = kw_next_obs w in
      upd_obj k (\<lambda>d. d\<lparr>obj_observers := PortObs i # obj_observers d\<rparr>)
       (upd_port p (\<lambda>pt. pt\<lparr>port_observers := i # port_observers pt\<rparr>)
        (upd_pkt (PktObs i) (\<lambda>_. \<lparr>packet = \<lparr>pk_key = key, pk_type = ZX_PKT_TYPE_SIGNAL_ONE, pk_status = 0,
                                            pk_payload = PayloadSignal signals 0 0 0\<rparr>,
                                 pkt_handle = Some h, pkt_observer = None, pkt_ephemeral = False\<rparr>)
         (upd_pobs i (\<lambda>_. \<lparr>po_options = options, po_trigger = signals, po_port = p, po_dispatcher = Some k,
                           po_alive = True\<rparr>) (w\<lparr>kw_next_obs := i + 1\<rparr>)))))"

lemma kobj_inv_linked_new:
  assumes I: "kobj_inv w" and nz: "\<not> port_zero_handles (kw_ports w p)"
  shows "kobj_inv (linked_new k p options h key signals w)" "obs_link (linked_new k p options h key signals w) (kw_next_obs w) = Some k"
proof -
  let ?i = "kw_next_obs w" and ?w = "linked_new k p options h key signals w"
  have dead: "\<not> po_alive (kw_pobs w ?i)" using I by (auto simp: kobj_inv_def owners_ok_def)
  have L: "obs_link ?w = (obs_link w)(?i := Some k)" and Q: "obs_queued ?w = obs_queued w"
    using dead by (auto simp: linked_new_def obs_link_def obs_queued_def Let_def fun_eq_iff)
  show "obs_link ?w ?i = Some k" by (simp add: L)
  have nl: "obs_link w ?i = None" "\<not> obs_queued w ?i" using dead by (simp_all add: obs_link_def obs_queued_def)
  have "objs_ok ?w" using I nl L by (auto simp: kobj_inv_def objs_ok_def linked_new_def Let_def)
  moreover have "links_ok ?w" using I nl L by (auto simp: kobj_inv_def links_ok_def linked_new_def Let_def)
  moreover have "queues_ok ?w" using I nl Q by (auto simp: kobj_inv_def queues_ok_def linked_new_def Let_def)
  moreover have "owners_ok ?w" using I nl Q by (auto simp: kobj_inv_def owners_ok_def linked_new_def Let_def less_SucI)
  moreover have "arena_ok ?w" using I arena_ok_same [of w ?w] by (simp add: kobj_inv_def linked_new_def Let_def)
  moreover have "waits_ok ?w" using I by (auto simp: kobj_inv_def waits_ok_def linked_new_def Let_def)
  moreover have "zero_ok ?w" using I nz by (auto simp: kobj_inv_def zero_ok_def linked_new_def Let_def)
  ultimately show "kobj_inv ?w" by (simp add: kobj_inv_def)
qed

text \<open>
  Adding the observer right away, or firing it before it is linked, gives the same store up
  to what the invariant does not look at.
\<close>

lemma kobj_inv_MakeObserver:
  assumes I: "kobj_inv w" and nz: "\<not> port_zero_handles (kw_ports w p)"
  shows "kobj_inv (snd (PortDispatcher_MakeObserver alloc_ok p options h k key signals w))"
proof (cases "obj_waitable (kw_objs w k) \<and> alloc_ok")
  case True
  let ?i = "kw_next_obs w" and ?L = "linked_new k p options h key signals w"
  let ?w3 = "upd_port p (\<lambda>pt. pt\<lparr>port_observers := ?i # port_observers pt\<rparr>)
     (upd_pkt (PktObs ?i) (\<lambda>_. \<lparr>packet = \<lparr>pk_key = key, pk_type = ZX_PKT_TYPE_SIGNAL_ONE, pk_status = 0,
                                          pk_payload = PayloadSignal signals 0 0 0\<rparr>,
                               pkt_handle = Some h, pkt_observer = None, pkt_ephemeral = False\<rparr>)
       (upd_pobs ?i (\<lambda>_. \<lparr>po_options = options, po_trigger = signals, po_port = p, po_dispatcher = Some k,
                         po_alive = True\<rparr>) (w\<lparr>kw_next_obs := ?i + 1\<rparr>)))"
  note N = kobj_inv_linked_new [OF I nz, of k options h key signals]
  have run: "snd (PortDispatcher_MakeObserver alloc_ok p options h k key signals w) = AddObserverHelper k (PortObs ?i) None ?w3"
    using True by (simp add: PortDispatcher_MakeObserver_def Dispatcher_AddObserver_def Let_def)
  have L: "?L = upd_obj k (\<lambda>d. d\<lparr>obj_observers := PortObs ?i # obj_observers d\<rparr>) ?w3"
    by (simp add: linked_new_def Let_def)
  have nin: "PktObs ?i \<notin> set (port_packets (kw_ports w p))"
    using I by (auto simp: kobj_inv_def queues_ok_def owners_ok_def obs_queued_def)
  show ?thesis
  proof (cases "signals AND obj_signals (kw_objs w k) = 0")
    case True
    then show ?thesis
      using N(1) by (simp add: run L AddObserverHelper_def PortObserver_MaybeQueue_def)
  next
    case False
    then have s: "obj_signals (kw_objs w k) \<noteq> 0" by auto
    have "same_links (fired k ?i ?L) (AddObserverHelper k (PortObs ?i) None ?w3)"
      using False s nz nin
      by (auto simp: AddObserverHelper_def PortObserver_MaybeQueue_def PortDispatcher_Queue_def pkt_in_container_def
          IsDefaultAllocatedEphemeral_def PortDispatcher_MaybeReap_def Let_def fired_def L same_links_def initial_count_def)
    then show ?thesis
      unfolding run by (rule kobj_inv_sameD [OF _ kobj_inv_fired [OF N]])
  qed
qed (use I in \<open>auto simp: PortDispatcher_MakeObserver_def\<close>)

lemma kobj_inv_Begin:
  assumes I: "kobj_inv w" and new: "wo_dispatcher (kw_wobs w i) = None"
  shows "kobj_inv (snd (WaitStateObserver_Begin i e h k watched w))"
proof (cases "obj_waitable (kw_objs w k)")
  case True
  let ?w1 = "upd_obj k (\<lambda>d. d\<lparr>obj_observers := WaitObs i # obj_observers d\<rparr>)
     (upd_wobs i (\<lambda>wo. wo\<lparr>wo_dispatcher := Some k\<rparr>) w)"
  have L: "obs_link ?w1 = obs_link w" "obs_queued ?w1 = obs_queued w"
    by (auto simp: obs_link_def obs_queued_def fun_eq_iff)
  have nin: "WaitObs i \<notin> set (obj_observers (kw_objs w j))" for j using I new by (auto simp: kobj_inv_def waits_ok_def)
  have "objs_ok ?w1" using I nin L by (auto simp: kobj_inv_def objs_ok_def)
  moreover have "waits_ok ?w1" using I nin by (auto simp: kobj_inv_def waits_ok_def)
  moreover have "arena_ok ?w1" using I arena_ok_same [of w ?w1] by (simp add: kobj_inv_def)
  ultimately have "kobj_inv ?w1"
    using I L by (auto simp: kobj_inv_def links_ok_def queues_ok_def owners_ok_def zero_ok_def)
  moreover have "same_links ?w1 (snd (WaitStateObserver_Begin i e h k watched w))"
    using True by (simp add: WaitStateObserver_Begin_def Dispatcher_AddObserver_def AddObserverHelper_def
        WaitStateObserver_OnInitialize_def Let_def same_links_def)
  ultimately show ?thesis by (rule kobj_inv_sameD [rotated])
next
  case False
  have "same_links w (snd (WaitStateObserver_Begin i e h k watched w))"
    using False new by (simp add: WaitStateObserver_Begin_def Dispatcher_AddObserver_def Let_def same_links_def)
  then show ?thesis by (rule kobj_inv_sameD [OF _ I])
qed

lemma kobj_inv_End:
  assumes I: "kobj_inv w"
  shows "kobj_inv (snd (WaitStateObserver_End i w))"
proof (cases "wo_dispatcher (kw_wobs w i)")
  case (Some k)
  let ?w1 = "snd (WaitStateObserver_End i w)"
  have w1: "?w1 = upd_wobs i (\<lambda>wo. wo\<lparr>wo_dispatcher := None\<rparr>)
      (upd_obj k (\<lambda>d. d\<lparr>obj_observers := remove1 (WaitObs i) (obj_observers d)\<rparr>) w)"
    using I Some by (simp add: WaitStateObserver_End_def RemoveObserver_def kobj_inv_def waits_ok_def)
  have L: "obs_link ?w1 = obs_link w" "obs_queued ?w1 = obs_queued w"
    by (auto simp: w1 obs_link_def obs_queued_def fun_eq_iff)
  have "objs_ok ?w1" using I L by (auto simp: kobj_inv_def objs_ok_def w1)
  moreover have "waits_ok ?w1" using I Some by (auto simp: kobj_inv_def waits_ok_def objs_ok_def w1)
  moreover have "arena_ok ?w1" using I arena_ok_same [of w ?w1] by (simp add: kobj_inv_def w1)
  ultimately show ?thesis
    using I L by (auto simp: kobj_inv_def links_ok_def queues_ok_def owners_ok_def zero_ok_def w1)
qed (use I in \<open>simp add: WaitStateObserver_End_def\<close>)

lemma drain_packets_inv:
  assumes "kobj_inv0 w" "port_packets (kw_ports w p) = rs"
  shows "kobj_inv0 (drain_packets p rs w) \<and>
    (\<forall>q. port_packets (kw_ports (drain_packets p rs w) q) = (if q = p then [] else port_packets (kw_ports w q)) \<and>
         port_observers (kw_ports (drain_packets p rs w) q) = port_observers (kw_ports w q) \<and>
         port_zero_handles (kw_ports (drain_packets p rs w) q) = port_zero_handles (kw_ports w q))"
  using assms
proof (induction rs arbitrary: w)
  case (Cons r rs)
  have r: "r \<in> set (port_packets (kw_ports w p))" using Cons.prems(2) by simp
  let ?w1 = "if pkt_ephemeral (kw_pkts w r) then pkt_free r (unqueued p r w) else unqueued p r w"
  have step: "drain_packets p (r # rs) w = drain_packets p rs ?w1"
  proof (cases r)
    case (PktObs i)
    have "\<not> pkt_ephemeral (kw_pkts w r)"
      using Cons.prems(1) r PktObs by (auto simp: kobj_inv0_def queues_ok_def owners_ok_def obs_queued_def)
    then show ?thesis
      using Cons.prems(2) by (simp add: Let_def unqueued_def IsDefaultAllocatedEphemeral_def upd_port_def)
  next
    case (PktArena a)
    have "pkt_ephemeral (kw_pkts w r)" "pkt_observer (kw_pkts w r) = None"
      using unqueued_arena(2) [OF Cons.prems(1)] r Cons.prems(1) PktArena by (auto simp: kobj_inv0_def arena_ok_def)
    then show ?thesis
      using Cons.prems(2)
      by (simp add: Let_def unqueued_def IsDefaultAllocatedEphemeral_def upd_port_def reset_pkt_observer_def)
  qed
  have I1: "kobj_inv0 ?w1"
    using kobj_inv0_unqueued [OF Cons.prems(1) r] kobj_inv0_free [OF _ unqueued_gone [OF Cons.prems(1) r]] by simp
  have pk: "port_packets (kw_ports ?w1 p) = rs"
    using unqueued_other(1) [OF Cons.prems(1) r, of p] Cons.prems(2) by simp
  show ?case
    unfolding step using Cons.IH [OF I1 pk] unqueued_other [OF Cons.prems(1) r] by simp
qed simp

lemma drain_observers_inv:
  assumes "kobj_inv0 w" "port_observers (kw_ports w p) = is"
  shows "kobj_inv0 (drain_observers p is w) \<and>
    (\<forall>q. port_observers (kw_ports (drain_observers p is w) q) = (if q = p then [] else port_observers (kw_ports w q)) \<and>
         port_packets (kw_ports (drain_observers p is w) q) = port_packets (kw_ports w q) \<and>
         port_zero_handles (kw_ports (drain_observers p is w) q) = port_zero_handles (kw_ports w q))"
  using assms
proof (induction "is" arbitrary: w)
  case (Cons i "is")
  have "i \<in> set (port_observers (kw_ports w p))" using Cons.prems(2) by simp
  then obtain k where link: "obs_link w i = Some k" and port: "po_port (kw_pobs w i) = p"
    using Cons.prems(1) by (auto simp: kobj_inv0_def links_ok_def)
  have al: "po_dispatcher (kw_pobs w i) = Some k" using link by (auto simp: obs_link_def split: if_splits)
  have "PortObs i \<in> set (obj_observers (kw_objs w k))" using Cons.prems(1) link by (auto simp: kobj_inv0_def objs_ok_def)
  moreover have "destroy_observer i (upd_obj k (\<lambda>d. d\<lparr>obj_observers := remove1 (PortObs i) (obj_observers d)\<rparr>)
      (upd_pobs i (\<lambda>po. po\<lparr>po_dispatcher := None\<rparr>) (upd_port p (\<lambda>pt. pt\<lparr>port_observers := is\<rparr>) w))) = cancelled k i w"
    using Cons.prems(2)
    by (intro kobj_world.equality) (simp_all add: cancelled_def port destroy_observer_def upd_defs Let_def)
  ultimately have step: "drain_observers p (i # is) w = drain_observers p is (cancelled k i w)"
    using al by (simp add: Let_def RemoveObserver_def)
  have I1: "kobj_inv0 (cancelled k i w)" by (rule kobj_inv0_cancelled [OF Cons.prems(1) link])
  have ob: "port_observers (kw_ports (cancelled k i w) p) = is"
    using Cons.prems(2) by (simp add: cancelled_def Let_def port)
  show ?case unfolding step using Cons.IH [OF I1 ob] by (auto simp: cancelled_def Let_def port)
qed simp

lemma on_zero_handles_inv:
  assumes I: "kobj_inv w"
  shows "kobj_inv (PortDispatcher_on_zero_handles p w) \<and>
    port_packets (kw_ports (PortDispatcher_on_zero_handles p w) p) = [] \<and>
    port_observers (kw_ports (PortDispatcher_on_zero_handles p w) p) = []"
proof -
  let ?w1 = "upd_port p (\<lambda>pt. pt\<lparr>port_zero_handles := True\<rparr>) w"
  have L: "obs_link ?w1 = obs_link w" "obs_queued ?w1 = obs_queued w" by (auto simp: obs_link_def obs_queued_def fun_eq_iff)
  have A: "arena_ok ?w1" using I arena_ok_same [of w ?w1] by (simp add: kobj_inv_def)
  have I1: "kobj_inv0 ?w1"
    using I A L
    by (simp add: kobj_inv_def kobj_inv0_def objs_ok_def links_ok_def queues_ok_def owners_ok_def waits_ok_def)
  let ?w2 = "drain_packets p (port_packets (kw_ports ?w1 p)) ?w1"
  note P = drain_packets_inv [OF I1, of p, OF refl]
  have I2: "kobj_inv0 ?w2" using P by blast
  note O = drain_observers_inv [OF I2, of p, OF refl]
  have run: "PortDispatcher_on_zero_handles p w = drain_observers p (port_observers (kw_ports ?w2 p)) ?w2"
    by (simp add: PortDispatcher_on_zero_handles_def Let_def)
  show ?thesis
    unfolding run using P O I by (auto simp: kobj_inv_zero zero_ok_def)
qed

section \<open>All executions\<close>

inductive kobj_step :: "kobj_world \<Rightarrow> kobj_world \<Rightarrow> bool" where
  ks_update: "kobj_step w (UpdateStateLocked k c t w)"
| ks_async: "\<not> port_zero_handles (kw_ports w p) \<Longrightarrow>
     kobj_step w (snd (PortDispatcher_MakeObserver alloc_ok p options h k key signals w))"
| ks_wait_begin: "wo_dispatcher (kw_wobs w i) = None \<Longrightarrow> kobj_step w (snd (WaitStateObserver_Begin i e h k watched w))"
| ks_wait_end: "kobj_step w (snd (WaitStateObserver_End i w))"
| ks_cancel: "kobj_step w (Dispatcher_Cancel k h w)"
| ks_cancel_key: "kobj_step w (snd (Dispatcher_CancelByKey k h p key w))"
| ks_cancel_queued: "kobj_step w (snd (PortDispatcher_CancelQueued_key p h' key w))"
| ks_cancel_packet: "kobj_step w (snd (PortDispatcher_CancelQueued_packet p r w))"
| ks_queue_user: "kobj_step w (snd (PortDispatcher_QueueUser p pkt w))"
| ks_queue_interrupt: "kobj_step w (snd (PortDispatcher_QueueInterruptPacket p i ts w))"
| ks_remove_interrupt: "kobj_step w (snd (PortDispatcher_RemoveInterruptPacket p i w))"
| ks_dequeue: "kobj_step w (snd (PortDispatcher_Dequeue cur deadline now p w))"
| ks_dequeue_resume: "kobj_step w (snd (PortDispatcher_Dequeue_resume cur deadline now p w))"
| ks_close_port: "kobj_step w (PortDispatcher_on_zero_handles p w)"
| ks_time: "kobj_step w (w\<lparr>kw_now := now, kw_sched := sw\<rparr>)"

definition kobj_init :: "(koid \<Rightarrow> zx_signals) \<Rightarrow> (koid \<Rightarrow> bool) \<Rightarrow> (port_id \<Rightarrow> u32) \<Rightarrow> (port_id \<Rightarrow> wq_id) \<Rightarrow> sched_world \<Rightarrow> kobj_world" where
  "kobj_init sg wt opts wqs sw =
     \<lparr>kw_objs = (\<lambda>k. \<lparr>obj_signals = sg k, obj_observers = [], obj_handle_count = 1, obj_waitable = wt k\<rparr>),
      kw_ports = (\<lambda>p. \<lparr>port_options = opts p, port_sema = \<lparr>sem_count = 0, sem_waitq = wqs p\<rparr>, port_zero_handles = False,
                       port_num_ephemeral = 0, port_packets = [], port_interrupts = [], port_observers = []\<rparr>),
      kw_pobs = (\<lambda>_. \<lparr>po_options = 0, po_trigger = 0, po_port = 0, po_dispatcher = None, po_alive = False\<rparr>),
      kw_wobs = (\<lambda>_. \<lparr>wo_event = 0, wo_handle = 0, wo_watched = 0, wo_reasons = 0, wo_dispatcher = None\<rparr>),
      kw_pkts = (\<lambda>_. \<lparr>packet = \<lparr>pk_key = 0, pk_type = 0, pk_status = 0, pk_payload = PayloadUser []\<rparr>,
                      pkt_handle = None, pkt_observer = None, pkt_ephemeral = False\<rparr>),
      kw_ipkts = (\<lambda>_. \<lparr>ip_timestamp = 0, ip_key = 0\<rparr>), kw_events = (\<lambda>e. event_init False 0 e),
      kw_sched = sw, kw_now = 0, kw_next_obs = 0, kw_arena = []\<rparr>"

inductive kobj_reachable :: "kobj_world \<Rightarrow> bool" where
  kr_start: "kobj_reachable (kobj_init sg wt opts wqs sw)"
| kr_next: "kobj_reachable w \<Longrightarrow> kobj_step w w' \<Longrightarrow> kobj_reachable w'"

lemma kobj_inv_init: "kobj_inv (kobj_init sg wt opts wqs sw)"
  by (simp add: kobj_init_def kobj_inv_def inv_parts obs_link_def obs_queued_def)

lemma kobj_inv_step: "kobj_step w w' \<Longrightarrow> kobj_inv w \<Longrightarrow> kobj_inv w'"
proof (induction rule: kobj_step.induct)
  case (ks_queue_interrupt w p i ts)
  show ?case
    by (rule kobj_inv_sameD [OF _ ks_queue_interrupt])
      (simp add: PortDispatcher_QueueInterruptPacket_def same_links_def)
next
  case (ks_remove_interrupt w p i)
  show ?case
    by (rule kobj_inv_sameD [OF _ ks_remove_interrupt])
      (simp add: PortDispatcher_RemoveInterruptPacket_def same_links_def)
next
  case (ks_dequeue_resume w cur deadline now p)
  let ?w1 = "case Semaphore_Wait_resume cur (port_sema (kw_ports w p)) (kw_sched w) of (st, m, sw) \<Rightarrow>
     upd_port p (\<lambda>pt. pt\<lparr>port_sema := m\<rparr>) (w\<lparr>kw_sched := sw\<rparr>)"
  have I1: "kobj_inv ?w1" using ks_dequeue_resume kobj_inv_sema by (simp add: case_prod_beta)
  then show ?case
    using kobj_inv_Dequeue_take [OF I1, of p] kobj_inv_Dequeue
    by (auto simp: PortDispatcher_Dequeue_resume_def Let_def case_prod_beta split: option.splits)
next
  case (ks_time w now sw)
  show ?case by (rule kobj_inv_sameD [OF _ ks_time]) (simp add: same_links_def)
qed (auto intro: kobj_inv_UpdateState kobj_inv_MakeObserver kobj_inv_Begin kobj_inv_End kobj_inv_Cancel
    kobj_inv_CancelQueued kobj_inv_QueueUser kobj_inv_Dequeue dest: on_zero_handles_inv)

lemma kobj_reachable_inv: "kobj_reachable w \<Longrightarrow> kobj_inv w"
  by (induction rule: kobj_reachable.induct) (auto intro: kobj_inv_init kobj_inv_step)


text \<open>
  Property C9: a signal change is delivered exactly once. When an update changes the signals of an
  object, every port observer waiting on it whose trigger meets the new signals gets its one
  packet appended to its port, in the order of the observers, saying what was observed; the
  port's semaphore is posted once per packet; these observers, and only these, leave the
  object. Without a change nothing is queued anywhere.
\<close>

theorem signal_delivered_once:
  assumes "kobj_reachable w" and "new = signals_update c t (obj_signals (kw_objs w k))"
  shows "if new = obj_signals (kw_objs w k)
         then kw_ports (UpdateStateLocked k c t w) = kw_ports w \<and>
              obj_observers (kw_objs (UpdateStateLocked k c t w) k) = obj_observers (kw_objs w k)
         else (\<forall>p. port_packets (kw_ports (UpdateStateLocked k c t w) p) =
                      port_packets (kw_ports w p) @ fired_pkts w new p (obj_observers (kw_objs w k)) \<and>
                    sem_count (port_sema (kw_ports (UpdateStateLocked k c t w) p)) =
                      sem_count (port_sema (kw_ports w p)) + int (length (fired_pkts w new p (obj_observers (kw_objs w k))))) \<and>
              obj_observers (kw_objs (UpdateStateLocked k c t w) k) =
                filter (\<lambda>r. \<not> fires w new r) (obj_observers (kw_objs w k)) \<and>
              (\<forall>i. PortObs i \<in> set (obj_observers (kw_objs w k)) \<and> fires w new (PortObs i) \<longrightarrow>
                   kw_pkts (UpdateStateLocked k c t w) (PktObs i) = packet_of_fired w i new 1)"
proof (cases "new = obj_signals (kw_objs w k)")
  case True
  then show ?thesis using assms(2) by (simp add: UpdateStateLocked_def Let_def)
next
  case False
  let ?w1 = "upd_obj k (\<lambda>d. d\<lparr>obj_signals := new\<rparr>) w"
  have N: "notified ?w1 new k (obj_observers (kw_objs w k)) (UpdateStateLocked k c t w)"
    using UpdateState_notified [OF kobj_reachable_inv [OF assms(1)]] False assms(2) by simp
  have fp: "fired_pkts ?w1 new p rs = fired_pkts w new p rs" for p rs by (rule fired_pkts_cong) simp
  have fr: "fires ?w1 new r = fires w new r" for r by (cases r) simp_all
  have pf: "packet_of_fired ?w1 i new n = packet_of_fired w i new n" for i n
    by (simp add: packet_of_fired_def fired_payload_def)
  have "obj_observers (kw_objs (UpdateStateLocked k c t w) k) =
      filter (\<lambda>r. \<not> fires w new r) (obj_observers (kw_objs w k))"
    using N by (auto simp: notified_def fr intro!: filter_cong)
  then show ?thesis using N False by (simp add: notified_def fp fr pf del: fires.simps)
qed

text \<open>
  Property C27: closing a port leaves nothing behind: all of its observers are destroyed, no object and no
  queue refers to any of them, and from then on the port accepts no packet.
\<close>

theorem port_close_no_leak:
  assumes "kobj_reachable w" and "po_port (kw_pobs w' i) = p" and "w' = PortDispatcher_on_zero_handles p w"
  shows "\<not> po_alive (kw_pobs w' i) \<and> PortObs i \<notin> set (obj_observers (kw_objs w' k)) \<and>
    port_packets (kw_ports w' p) = [] \<and> port_observers (kw_ports w' p) = []"
proof -
  have Z: "kobj_inv w'" "port_packets (kw_ports w' p) = []" "port_observers (kw_ports w' p) = []"
    using on_zero_handles_inv [OF kobj_reachable_inv [OF assms(1)], of p] assms(3) by auto
  have "i \<in> set (port_observers (kw_ports w' p)) \<longleftrightarrow> obs_link w' i \<noteq> None \<and> po_port (kw_pobs w' i) = p"
    using Z(1) by (simp add: kobj_inv_def links_ok_def)
  then have "obs_link w' i = None" using Z(3) assms(2) by simp
  moreover have "PktObs i \<in> set (port_packets (kw_ports w' p)) \<longleftrightarrow> obs_queued w' i \<and> po_port (kw_pobs w' i) = p"
    using Z(1) by (simp add: kobj_inv_def queues_ok_def)
  then have "\<not> obs_queued w' i" using Z(2) assms(2) by simp
  ultimately show ?thesis
    using Z by (auto simp: kobj_inv_def objs_ok_def obs_queued_def obs_link_def)
qed

definition kobj_example :: kobj_world where
  "kobj_example = snd (PortDispatcher_MakeObserver True 4 0 7 3 42 ZX_OBJECT_READABLE
     (kobj_init (\<lambda>_. 0) (\<lambda>_. True) (\<lambda>_. 0) (\<lambda>p. p) (sched_init int)))"

lemma kobj_example_reachable: "kobj_reachable kobj_example"
  unfolding kobj_example_def by (rule kr_next [OF kr_start ks_async]) (simp add: kobj_init_def)

lemma kobj_example_state:
  "obj_observers (kw_objs kobj_example 3) = [PortObs 0]" "obj_signals (kw_objs kobj_example 3) = 0"
  "port_packets (kw_ports kobj_example 4) = []"
  "kw_pobs kobj_example 0 = \<lparr>po_options = 0, po_trigger = ZX_OBJECT_READABLE, po_port = 4, po_dispatcher = Some 3, po_alive = True\<rparr>"
  by (simp_all add: kobj_example_def PortDispatcher_MakeObserver_def Dispatcher_AddObserver_def AddObserverHelper_def
      PortObserver_MaybeQueue_def kobj_init_def Let_def)


theorem signal_delivered_once_witness:
  "kobj_reachable kobj_example \<and>
   port_packets (kw_ports (UpdateStateLocked 3 0 ZX_OBJECT_READABLE kobj_example) 4) = [PktObs 0]"
  using signal_delivered_once [OF kobj_example_reachable refl, of 0 ZX_OBJECT_READABLE 3] kobj_example_reachable
  by (simp add: kobj_example_state signals_update_def zx_defs)

theorem port_close_no_leak_witness:
  "kobj_reachable kobj_example \<and> \<not> po_alive (kw_pobs (PortDispatcher_on_zero_handles 4 kobj_example) 0)"
proof -
  have obs: "port_observers (kw_ports kobj_example 4) = [0]"
    by (simp add: kobj_example_def PortDispatcher_MakeObserver_def Dispatcher_AddObserver_def AddObserverHelper_def
        PortObserver_MaybeQueue_def kobj_init_def Let_def)
  have "po_port (kw_pobs (PortDispatcher_on_zero_handles 4 kobj_example) 0) = 4"
    by (simp add: PortDispatcher_on_zero_handles_def Let_def RemoveObserver_def kobj_example_state obs)
  then show ?thesis
    using port_close_no_leak [OF kobj_example_reachable _ refl] kobj_example_reachable by blast
qed

end
