(* ===== verification/Peered.thy ===== *)
theory Peered
  imports Port_Safety
begin

text \<open>
  Objects that come in connected pairs (\<^verbatim>\<open>PeeredDispatcher\<close> of \<^verbatim>\<open>object/dispatcher.h\<close>) and the
  simplest of them, the event pair (\<^verbatim>\<open>object/event_pair_dispatcher.cc\<close>). The state is a record
  that the theories of FIFOs, channels and sockets extend with the data of their objects; what
  each of these classes does when a handle count reaches zero is a parameter here, with its
  contract as the locale \<open>peered_class\<close>.
\<close>

section \<open>State and operations\<close>

record peered_sys =
  pd_ko :: kobj_world
  pd_peer :: "koid \<Rightarrow> koid option"

abbreviation sig_of :: "koid \<Rightarrow> 'a peered_sys_scheme \<Rightarrow> zx_signals" where
  "sig_of k s \<equiv> obj_signals (kw_objs (pd_ko s) k)"

definition update_state :: "koid \<Rightarrow> zx_signals \<Rightarrow> zx_signals \<Rightarrow> 'a peered_sys_scheme \<Rightarrow> 'a peered_sys_scheme" where
  "update_state k c t s = s\<lparr>pd_ko := UpdateStateLocked k c t (pd_ko s)\<rparr>"

text \<open>A new object with its initial signals; a class is waitable when its default rights say so.\<close>

definition new_dispatcher :: "zx_signals \<Rightarrow> dispatcher" where
  "new_dispatcher signals = \<lparr>obj_signals = signals, obj_observers = [], obj_handle_count = 0, obj_waitable = True\<rparr>"

text \<open>The construction of a pair: two objects with the given signals, connected by \<open>Init\<close>.\<close>

definition init_pair :: "zx_signals \<Rightarrow> koid \<Rightarrow> koid \<Rightarrow> 'a peered_sys_scheme \<Rightarrow> 'a peered_sys_scheme" where
  "init_pair signals k0 k1 s =
     s\<lparr>pd_ko := upd_obj k1 (\<lambda>_. new_dispatcher signals) (upd_obj k0 (\<lambda>_. new_dispatcher signals) (pd_ko s)),
       pd_peer := (pd_peer s)(k0 := Some k1, k1 := Some k0)\<rparr>"

definition peered_user_signal_self ::
    "zx_signals \<Rightarrow> koid \<Rightarrow> zx_signals \<Rightarrow> zx_signals \<Rightarrow> 'a peered_sys_scheme \<Rightarrow> zx_status \<times> 'a peered_sys_scheme" where
  "peered_user_signal_self extra k clear_mask set_mask s =
     (let allowed = ZX_USER_SIGNAL_ALL OR extra in
      if set_mask AND NOT allowed \<noteq> 0 \<or> clear_mask AND NOT allowed \<noteq> 0 then (ZX_ERR_INVALID_ARGS, s)
      else (ZX_OK, update_state k clear_mask set_mask s))"

definition peered_user_signal_peer ::
    "zx_signals \<Rightarrow> koid \<Rightarrow> zx_signals \<Rightarrow> zx_signals \<Rightarrow> 'a peered_sys_scheme \<Rightarrow> zx_status \<times> 'a peered_sys_scheme" where
  "peered_user_signal_peer extra k clear_mask set_mask s =
     (let allowed = ZX_USER_SIGNAL_ALL OR extra in
      if set_mask AND NOT allowed \<noteq> 0 \<or> clear_mask AND NOT allowed \<noteq> 0 then (ZX_ERR_INVALID_ARGS, s)
      else case pd_peer s k of
             None \<Rightarrow> (ZX_ERR_PEER_CLOSED, s)
           | Some pk \<Rightarrow> (ZX_OK, update_state pk clear_mask set_mask s))"

text \<open>The two hooks are the class's \<open>on_zero_handles_locked\<close> and \<open>OnPeerZeroHandlesLocked\<close>.\<close>

definition peered_on_zero_handles ::
    "(koid \<Rightarrow> 'a peered_sys_scheme \<Rightarrow> 'a peered_sys_scheme) \<Rightarrow> (koid \<Rightarrow> 'a peered_sys_scheme \<Rightarrow> 'a peered_sys_scheme) \<Rightarrow>
     koid \<Rightarrow> 'a peered_sys_scheme \<Rightarrow> 'a peered_sys_scheme" where
  "peered_on_zero_handles on_zero_handles_locked on_peer_zero_handles_locked k s =
     (let peer = pd_peer s k;
          s1 = on_zero_handles_locked k (s\<lparr>pd_peer := (pd_peer s)(k := None)\<rparr>)
      in case peer of
           None \<Rightarrow> s1
         | Some pk \<Rightarrow> on_peer_zero_handles_locked pk (s1\<lparr>pd_peer := (pd_peer s1)(pk := None)\<rparr>))"

definition PeerHasClosed :: "koid \<Rightarrow> 'a peered_sys_scheme \<Rightarrow> bool" where
  "PeerHasClosed k s \<longleftrightarrow> pd_peer s k = None"

section \<open>Event pairs\<close>

abbreviation "ZX_EVENT_SIGNALED \<equiv> ZX_OBJECT_SIGNALED"
abbreviation "ZX_EVENTPAIR_PEER_CLOSED \<equiv> ZX_OBJECT_PEER_CLOSED"

definition EventPair_Create :: "bool \<Rightarrow> koid \<Rightarrow> koid \<Rightarrow> peered_sys \<Rightarrow> zx_status \<times> peered_sys" where
  "EventPair_Create alloc_ok k0 k1 s =
     (if \<not> alloc_ok then (ZX_ERR_NO_MEMORY, s) else (ZX_OK, init_pair 0 k0 k1 s))"

definition EventPair_on_zero_handles_locked :: "koid \<Rightarrow> peered_sys \<Rightarrow> peered_sys" where
  "EventPair_on_zero_handles_locked k s = s"

definition EventPair_OnPeerZeroHandlesLocked :: "koid \<Rightarrow> peered_sys \<Rightarrow> peered_sys" where
  "EventPair_OnPeerZeroHandlesLocked k s = update_state k 0 ZX_EVENTPAIR_PEER_CLOSED s"

abbreviation "EventPair_close \<equiv> peered_on_zero_handles EventPair_on_zero_handles_locked EventPair_OnPeerZeroHandlesLocked"

section \<open>The contract of the classes\<close>

lemma update_state_sels [simp]:
  "pd_peer (update_state k c t s) = pd_peer s"
  "sig_of j (update_state k c t s) = (if j = k then signals_update c t (sig_of k s) else sig_of j s)"
  "peered_sys.more (update_state k c t s) = peered_sys.more s"
  by (simp_all add: update_state_def)

lemma init_pair_sels [simp]:
  "pd_peer (init_pair v k0 k1 s) = (pd_peer s)(k0 := Some k1, k1 := Some k0)"
  "sig_of j (init_pair v k0 k1 s) = (if j = k1 \<or> j = k0 then v else sig_of j s)"
  "peered_sys.more (init_pair v k0 k1 s) = peered_sys.more s"
  by (simp_all add: init_pair_def new_dispatcher_def upd_obj_def)

text \<open>Peers point at each other, and a connected endpoint does not show its peer as closed.\<close>

definition peers_ok :: "'a peered_sys_scheme \<Rightarrow> bool" where
  "peers_ok s \<longleftrightarrow> (\<forall>j k. pd_peer s j = Some k \<longrightarrow> pd_peer s k = Some j \<and> j \<noteq> k \<and> \<not> bit (sig_of j s) 2)"

lemma peers_okD:
  "peers_ok s \<Longrightarrow> pd_peer s j = Some k \<Longrightarrow> pd_peer s k = Some j \<and> j \<noteq> k \<and> \<not> bit (sig_of j s) 2 \<and> \<not> bit (sig_of k s) 2"
  by (metis peers_ok_def)

lemma peers_ok_cong:
  "pd_peer s' = pd_peer s \<Longrightarrow> (\<And>j. bit (sig_of j s') 2 = bit (sig_of j s) 2) \<Longrightarrow> peers_ok s' = peers_ok s"
  by (simp add: peers_ok_def)

lemma peers_ok_init_pair:
  assumes ok: "peers_ok s" and k: "k0 \<noteq> k1" "pd_peer s k0 = None" "pd_peer s k1 = None" and v: "\<not> bit v 2"
  shows "peers_ok (init_pair v k0 k1 s)"
  unfolding peers_ok_def
proof (intro allI impI)
  fix i j assume a: "pd_peer (init_pair v k0 k1 s) i = Some j"
  show "pd_peer (init_pair v k0 k1 s) j = Some i \<and> i \<noteq> j \<and> \<not> bit (sig_of i (init_pair v k0 k1 s)) 2"
  proof (cases "i = k0 \<or> i = k1")
    case True
    then show ?thesis using a k(1) v by auto
  next
    case False
    then have "pd_peer s i = Some j" using a by auto
    from peers_okD [OF ok this] show ?thesis using False k by auto
  qed
qed

lemma allowed_mask_bits:
  assumes "(m :: zx_signals) AND NOT a = 0" "bit m n" shows "bit a n"
proof (rule ccontr)
  assume "\<not> bit a n"
  then have "bit (m AND NOT a) n" using assms(2) by (auto simp: bit_simps dest: bit_imp_le_length)
  then show False using assms(1) by simp
qed

lemma user_signal_bits: "bit ZX_USER_SIGNAL_ALL n \<longleftrightarrow> 24 \<le> n \<and> n < 32"
proof -
  have "ZX_USER_SIGNAL_ALL = push_bit 24 (mask 8)" by (simp add: zx_defs mask_eq_exp_minus_1)
  then have "bit ZX_USER_SIGNAL_ALL n = bit (push_bit 24 (mask 8 :: zx_signals)) n" by (rule arg_cong)
  then show ?thesis by (simp only: bit_simps) auto
qed

lemma user_signal_keeps:
  assumes "(m :: zx_signals) AND NOT (ZX_USER_SIGNAL_ALL OR extra) = 0" "n < 24" "\<not> bit extra n"
  shows "\<not> bit m n"
  using allowed_mask_bits [OF assms(1), of n] assms(2,3) by (auto simp: user_signal_bits bit_simps)

text \<open>What a user may signal leaves the signals that the class owns alone.\<close>

lemma user_signal_self_bits:
  assumes "peered_user_signal_self extra k c t s = (st, s')" "n < 24" "\<not> bit extra n"
  shows "pd_peer s' = pd_peer s \<and> peered_sys.more s' = peered_sys.more s \<and> (\<forall>j. bit (sig_of j s') n = bit (sig_of j s) n)"
  using assms(1) user_signal_keeps [OF _ assms(2,3), of c] user_signal_keeps [OF _ assms(2,3), of t]
  by (auto simp: peered_user_signal_self_def Let_def sig_bits split: if_splits)

lemma user_signal_peer_bits:
  assumes "peered_user_signal_peer extra k c t s = (st, s')" "n < 24" "\<not> bit extra n"
  shows "pd_peer s' = pd_peer s \<and> peered_sys.more s' = peered_sys.more s \<and> (\<forall>j. bit (sig_of j s') n = bit (sig_of j s) n)"
  using assms(1) user_signal_keeps [OF _ assms(2,3), of c] user_signal_keeps [OF _ assms(2,3), of t]
  by (auto simp: peered_user_signal_peer_def Let_def sig_bits split: if_splits option.splits)

locale peered_class =
  fixes on_zero :: "koid \<Rightarrow> 'a peered_sys_scheme \<Rightarrow> 'a peered_sys_scheme"
    and on_peer_zero :: "koid \<Rightarrow> 'a peered_sys_scheme \<Rightarrow> 'a peered_sys_scheme"
  assumes on_zero_peer: "pd_peer (on_zero k s) = pd_peer s"
    and on_zero_closed: "bit (sig_of j (on_zero k s)) 2 = bit (sig_of j s) 2"
    and on_peer_zero_peer: "pd_peer (on_peer_zero k s) = pd_peer s"
    and on_peer_zero_closed: "bit (sig_of j (on_peer_zero k s)) 2 \<longleftrightarrow> j = k \<or> bit (sig_of j s) 2"
begin

lemma close_peers:
  "pd_peer (peered_on_zero_handles on_zero on_peer_zero k s) =
     (case pd_peer s k of None \<Rightarrow> (pd_peer s)(k := None) | Some pk \<Rightarrow> (pd_peer s)(k := None, pk := None))"
  by (simp add: peered_on_zero_handles_def Let_def on_zero_peer on_peer_zero_peer split: option.splits)

lemma close_closed:
  "bit (sig_of j (peered_on_zero_handles on_zero on_peer_zero k s)) 2 \<longleftrightarrow> bit (sig_of j s) 2 \<or> pd_peer s k = Some j"
  by (auto simp: peered_on_zero_handles_def Let_def on_zero_closed on_peer_zero_closed split: option.splits)

lemma close_peers_ok:
  assumes "peers_ok s" shows "peers_ok (peered_on_zero_handles on_zero on_peer_zero k s)"
  unfolding peers_ok_def
proof (intro allI impI)
  fix i j assume "pd_peer (peered_on_zero_handles on_zero on_peer_zero k s) i = Some j"
  then have ij: "i \<noteq> k" "pd_peer s i = Some j" "pd_peer s k \<noteq> Some i"
    by (auto simp: close_peers split: option.splits if_splits)
  with peers_okD [OF assms ij(2)] show
    "pd_peer (peered_on_zero_handles on_zero on_peer_zero k s) j = Some i \<and> i \<noteq> j \<and>
     \<not> bit (sig_of i (peered_on_zero_handles on_zero on_peer_zero k s)) 2"
    using peers_okD [OF assms, of k] by (auto simp: close_peers close_closed split: option.splits)
qed

text \<open>Closing one end disconnects the pair for good and tells the other end.\<close>

lemma close_tells_peer:
  assumes "peers_ok s" "pd_peer s k = Some pk"
  shows "PeerHasClosed k (peered_on_zero_handles on_zero on_peer_zero k s) \<and>
         PeerHasClosed pk (peered_on_zero_handles on_zero on_peer_zero k s) \<and>
         bit (sig_of pk (peered_on_zero_handles on_zero on_peer_zero k s)) 2"
  using assms by (simp add: PeerHasClosed_def close_peers close_closed)

end

interpretation eventpair: peered_class EventPair_on_zero_handles_locked EventPair_OnPeerZeroHandlesLocked
  by unfold_locales
    (auto simp: EventPair_on_zero_handles_locked_def EventPair_OnPeerZeroHandlesLocked_def sig_bits)

section \<open>Runs of event pairs\<close>

inductive eventpair_step :: "peered_sys \<Rightarrow> peered_sys \<Rightarrow> bool" where
  ep_create: "k0 \<noteq> k1 \<Longrightarrow> pd_peer s k0 = None \<Longrightarrow> pd_peer s k1 = None \<Longrightarrow>
     eventpair_step s (snd (EventPair_Create ok k0 k1 s))"
| ep_signal: "eventpair_step s (snd (peered_user_signal_self ZX_EVENT_SIGNALED k c t s))"
| ep_signal_peer: "eventpair_step s (snd (peered_user_signal_peer ZX_EVENT_SIGNALED k c t s))"
| ep_close: "eventpair_step s (EventPair_close k s)"

inductive_cases eventpair_stepE: "eventpair_step s s'"

lemma eventpair_step_ok:
  assumes "eventpair_step s s'" "peers_ok s" shows "peers_ok s'"
  using assms(1)
proof cases
  case (ep_create k0 k1 ok)
  then show ?thesis using assms(2) peers_ok_init_pair [OF assms(2), of k0 k1 0] by (simp add: EventPair_Create_def)
next
  case (ep_signal k c t)
  then obtain st where "peered_user_signal_self ZX_EVENT_SIGNALED k c t s = (st, s')" by (metis prod.collapse)
  from user_signal_self_bits [OF this, of 2] show ?thesis
    using assms(2) peers_ok_cong [of s' s] by (simp add: sig_bits)
next
  case (ep_signal_peer k c t)
  then obtain st where "peered_user_signal_peer ZX_EVENT_SIGNALED k c t s = (st, s')" by (metis prod.collapse)
  from user_signal_peer_bits [OF this, of 2] show ?thesis
    using assms(2) peers_ok_cong [of s' s] by (simp add: sig_bits)
next
  case (ep_close k)
  then show ?thesis using eventpair.close_peers_ok [OF assms(2)] by simp
qed

lemma eventpair_steps_ok: "eventpair_step\<^sup>*\<^sup>* s s' \<Longrightarrow> peers_ok s \<Longrightarrow> peers_ok s'"
  by (induction rule: rtranclp_induct) (auto intro: eventpair_step_ok)

text \<open>
  After any sequence of creations, signals and closes of event pairs, closing one
  end of a connected pair disconnects both ends, asserts \<open>PEER_CLOSED\<close> on the other end, which
  did not show it before, and makes signalling the peer fail from either end.
\<close>

lemma eventpair_close_tells_peer:
  assumes "peers_ok s0" "eventpair_step\<^sup>*\<^sup>* s0 s" "pd_peer s k = Some pk"
  shows "let s' = EventPair_close k s in
     pd_peer s pk = Some k \<and> \<not> bit (sig_of pk s) 2 \<and>
     PeerHasClosed k s' \<and> PeerHasClosed pk s' \<and> bit (sig_of pk s') 2 \<and> peers_ok s' \<and>
     fst (peered_user_signal_peer ZX_EVENT_SIGNALED pk 0 ZX_EVENT_SIGNALED s') = ZX_ERR_PEER_CLOSED"
proof -
  have ok: "peers_ok s" by (rule eventpair_steps_ok [OF assms(2,1)])
  have m: "ZX_EVENT_SIGNALED AND NOT (ZX_USER_SIGNAL_ALL OR ZX_EVENT_SIGNALED) = 0"
    by (rule bit_word_eqI) (auto simp: bit_simps)
  show ?thesis
    using peers_okD [OF ok assms(3)] eventpair.close_tells_peer [OF ok assms(3)] eventpair.close_peers_ok [OF ok, of k] m
    by (simp add: Let_def peered_user_signal_peer_def PeerHasClosed_def)
qed


text \<open>A pair of events beside the objects of the earlier example.\<close>

definition ep_init :: peered_sys where "ep_init = \<lparr>pd_ko = kobj_example, pd_peer = \<lambda>_. None\<rparr>"
definition ep_example :: peered_sys where "ep_example = snd (EventPair_Create True 1 2 ep_init)"

lemma eventpair_close_tells_peer_witness:
  "pd_peer ep_example 1 = Some 2 \<and> PeerHasClosed 1 (EventPair_close 1 ep_example) \<and>
   bit (sig_of 2 (EventPair_close 1 ep_example)) 2"
proof -
  have ok: "peers_ok ep_init" by (simp add: peers_ok_def ep_init_def)
  have st: "eventpair_step\<^sup>*\<^sup>* ep_init ep_example"
    unfolding ep_example_def by (intro r_into_rtranclp ep_create) (simp_all add: ep_init_def)
  have p: "pd_peer ep_example 1 = Some 2" by (simp add: ep_example_def EventPair_Create_def)
  show ?thesis using eventpair_close_tells_peer [OF ok st p] p by (simp add: Let_def)
qed

end
