(* ===== verification/Stream_Buffer.thy ===== *)
theory Stream_Buffer
  imports Zx_Prelude
begin

text \<open>
  The contract of a buffer that data passes through: what \<open>push\<close> accepts is appended, what
  \<open>pop\<close> delivers is taken from the front. FIFO objects and stream sockets implement it; what
  follows for every sequence of calls is proved here once.
\<close>

datatype 'a buffer_call = Push "'a list" | Pop nat

locale stream_buffer =
  fixes invar :: "'s \<Rightarrow> bool"
    and contents :: "'s \<Rightarrow> 'a list"
    and push :: "'a list \<Rightarrow> 's \<Rightarrow> nat \<times> 's"
    and pop :: "nat \<Rightarrow> 's \<Rightarrow> 'a list \<times> 's"
  assumes invar_push: "invar s \<Longrightarrow> invar (snd (push xs s))"
    and invar_pop: "invar s \<Longrightarrow> invar (snd (pop n s))"
    and contents_push: "invar s \<Longrightarrow> contents (snd (push xs s)) = contents s @ take (fst (push xs s)) xs"
    and contents_pop: "invar s \<Longrightarrow> fst (pop n s) @ contents (snd (pop n s)) = contents s"
    and length_pop: "invar s \<Longrightarrow> length (fst (pop n s)) = min n (length (contents s))"
begin

text \<open>A sequence of calls: what went in, what came out, and the state after it.\<close>

fun buffer_run :: "'a buffer_call list \<Rightarrow> 's \<Rightarrow> 'a list \<times> 'a list \<times> 's" where
  "buffer_run [] s = ([], [], s)"
| "buffer_run (Push xs # cs) s =
     (let (n, s1) = push xs s; (ins, outs, s2) = buffer_run cs s1 in (take n xs @ ins, outs, s2))"
| "buffer_run (Pop n # cs) s =
     (let (ys, s1) = pop n s; (ins, outs, s2) = buffer_run cs s1 in (ins, ys @ outs, s2))"

lemma buffer_run_stream:
  assumes "invar s" "buffer_run cs s = (ins, outs, s')"
  shows "invar s' \<and> contents s @ ins = outs @ contents s'"
  using assms
proof (induction cs s arbitrary: ins outs s' rule: buffer_run.induct)
  case (2 xs cs s)
  obtain n s1 where p: "push xs s = (n, s1)" by fastforce
  obtain ins' outs' s2 where r: "buffer_run cs s1 = (ins', outs', s2)" by (metis prod_cases3)
  have io: "ins = take n xs @ ins'" "outs = outs'" "s' = s2" using 2(3) p r by auto
  show ?case
    using 2(1) [OF p [symmetric] refl _ r] invar_push [OF 2(2), of xs] contents_push [OF 2(2), of xs] p io by simp
next
  case (3 n cs s)
  obtain ys s1 where p: "pop n s = (ys, s1)" by fastforce
  obtain ins' outs' s2 where r: "buffer_run cs s1 = (ins', outs', s2)" by (metis prod_cases3)
  have io: "ins = ins'" "outs = ys @ outs'" "s' = s2" using 3(3) p r by auto
  show ?case
    using 3(1) [OF p [symmetric] refl _ r] invar_pop [OF 3(2), of n] contents_pop [OF 3(2), of n] p io
    by (metis append.assoc fst_conv snd_conv)
qed auto

text \<open>Popping everything gives back exactly what was in the buffer, followed by what was accepted.\<close>

lemma buffer_run_flush:
  assumes "invar s" "buffer_run cs s = (ins, outs, s')" "length (contents s') \<le> n"
  shows "outs @ fst (pop n s') = contents s @ ins"
proof -
  have inv: "invar s'" and eq: "contents s @ ins = outs @ contents s'" using buffer_run_stream [OF assms(1,2)] by auto
  have "length (fst (pop n s')) = length (contents s')" using length_pop [OF inv, of n] assms(3) by simp
  then have "fst (pop n s') = contents s'"
    using contents_pop [OF inv, of n] by (metis append_eq_conv_conj take_all_iff order_refl)
  then show ?thesis using eq by simp
qed

end

end
