(* ===== verification/Fifo.thy ===== *)
theory Fifo
  imports Peered Stream_Buffer
begin

text \<open>
  The FIFO object (\<^verbatim>\<open>object/fifo_dispatcher.cc\<close>): a ring of fixed-size elements with 32-bit head
  and tail counters that only grow and wrap around. Proved: reading and writing refine a
  bounded queue of elements, across the wrap-around of the ring and of the counters, and the
  readable and writable signals are exact.
\<close>

section \<open>State\<close>

record fifo =
  ff_elem_count :: u32
  ff_elem_size :: u32
  ff_mask :: u32
  ff_head :: u32
  ff_tail :: u32
  ff_data :: "u8 list"

record fifo_sys = peered_sys +
  fs_fifo :: "koid \<Rightarrow> fifo"

definition kFifoMaxSizeBytes :: nat where "kFifoMaxSizeBytes = 4096"

abbreviation "ZX_FIFO_READABLE \<equiv> ZX_OBJECT_READABLE"
abbreviation "ZX_FIFO_WRITABLE \<equiv> ZX_OBJECT_WRITABLE"
abbreviation "ZX_FIFO_PEER_CLOSED \<equiv> ZX_OBJECT_PEER_CLOSED"

section \<open>Operations\<close>

definition fifo_ctor :: "u32 \<Rightarrow> u32 \<Rightarrow> u8 list \<Rightarrow> fifo" where
  "fifo_ctor count elem_size data =
     \<lparr>ff_elem_count = count, ff_elem_size = elem_size, ff_mask = count - 1, ff_head = 0, ff_tail = 0, ff_data = data\<rparr>"

text \<open>The checks of \<open>Create\<close>, on 64-bit sizes; the \<open>junk\<close> is the uninitialised storage of the two rings.\<close>

definition fifo_Create_check :: "u64 \<Rightarrow> u64 \<Rightarrow> bool" where
  "fifo_Create_check count elemsize \<longleftrightarrow>
     \<not> (count = 0 \<or> elemsize = 0 \<or> count AND (count - 1) \<noteq> 0 \<or> count > of_nat kFifoMaxSizeBytes \<or>
        elemsize > of_nat kFifoMaxSizeBytes \<or> count * elemsize > of_nat kFifoMaxSizeBytes)"

definition fifo_Create ::
    "bool \<Rightarrow> (nat \<Rightarrow> u8) \<Rightarrow> (nat \<Rightarrow> u8) \<Rightarrow> u64 \<Rightarrow> u64 \<Rightarrow> koid \<Rightarrow> koid \<Rightarrow> fifo_sys \<Rightarrow> zx_status \<times> fifo_sys" where
  "fifo_Create alloc_ok junk0 junk1 count elemsize k0 k1 s =
     (if \<not> fifo_Create_check count elemsize then (ZX_ERR_OUT_OF_RANGE, s)
      else if \<not> alloc_ok then (ZX_ERR_NO_MEMORY, s)
      else
        (let new = (\<lambda>junk. fifo_ctor (ucast count) (ucast elemsize) (map junk [0..<unat (count * elemsize)]));
             s1 = s\<lparr>fs_fifo := (fs_fifo s)(k0 := new junk0, k1 := new junk1)\<rparr>
         in (ZX_OK, init_pair ZX_FIFO_WRITABLE k0 k1 s1)))"

definition write_at :: "nat \<Rightarrow> u8 list \<Rightarrow> u8 list \<Rightarrow> u8 list" where
  "write_at off bytes data = take off data @ bytes @ drop (off + length bytes) data"

text \<open>The bytes a copy from user memory delivers before it meets a fault.\<close>

definition readable_prefix :: "user_in \<Rightarrow> nat \<Rightarrow> nat \<Rightarrow> u8 list" where
  "readable_prefix src off n = map the (takeWhile (\<lambda>x. x \<noteq> None) (map (\<lambda>i. src (off + i)) [0..<n]))"

text \<open>
  The copy loops of write and read: the flag tells whether all copies succeeded. They are
  partial functions because a ring of size zero would make them run forever.
\<close>

partial_function (option) fifo_write_loop :: "user_in \<Rightarrow> nat \<Rightarrow> nat \<Rightarrow> fifo \<Rightarrow> (bool \<times> fifo) option" where
  "fifo_write_loop ptr off count f =
     (if count = 0 then Some (True, f)
      else
        let esz = unat (ff_elem_size f);
            offset = unat (ff_head f AND ff_mask f);
            n = unat (ff_elem_count f - (ff_head f AND ff_mask f));
            to_copy = (if n < count then n else count)
        in case copy_array_from_user ptr off (to_copy * esz) of
             None \<Rightarrow> Some (False, f\<lparr>ff_data := write_at (offset * esz) (readable_prefix ptr off (to_copy * esz)) (ff_data f)\<rparr>)
           | Some bytes \<Rightarrow>
               fifo_write_loop ptr (off + to_copy * esz) (count - to_copy)
                 (f\<lparr>ff_data := write_at (offset * esz) bytes (ff_data f), ff_head := ff_head f + of_nat to_copy\<rparr>))"

partial_function (option) fifo_read_loop :: "user_out \<Rightarrow> nat \<Rightarrow> nat \<Rightarrow> u8 list \<Rightarrow> fifo \<Rightarrow> (bool \<times> u8 list \<times> fifo) option" where
  "fifo_read_loop ptr off count out f =
     (if count = 0 then Some (True, out, f)
      else
        let esz = unat (ff_elem_size f);
            offset = unat (ff_tail f AND ff_mask f);
            n = unat (ff_elem_count f - (ff_tail f AND ff_mask f));
            to_copy = (if n < count then n else count)
        in if \<not> copy_array_to_user ptr off (to_copy * esz) then Some (False, out, f)
           else fifo_read_loop ptr (off + to_copy * esz) (count - to_copy)
                  (out @ take (to_copy * esz) (drop (offset * esz) (ff_data f)))
                  (f\<lparr>ff_tail := ff_tail f + of_nat to_copy\<rparr>))"

text \<open>The ring's part of \<open>WriteSelfLocked\<close>: status, number of elements written, ring.\<close>

definition fifo_write_ring :: "nat \<Rightarrow> user_in \<Rightarrow> nat \<Rightarrow> fifo \<Rightarrow> (zx_status \<times> nat \<times> fifo) option" where
  "fifo_write_ring elem_size ptr count f =
     (if elem_size \<noteq> unat (ff_elem_size f) then Some (ZX_ERR_OUT_OF_RANGE, 0, f)
      else if count = 0 then Some (ZX_ERR_OUT_OF_RANGE, 0, f)
      else
        (let old_head = ff_head f;
             avail = unat (ff_elem_count f - (ff_head f - ff_tail f))
         in if avail = 0 then Some (ZX_ERR_SHOULD_WAIT, 0, f)
            else case fifo_write_loop ptr 0 (if avail < count then avail else count) f of
                   None \<Rightarrow> None
                 | Some (False, f') \<Rightarrow> Some (ZX_ERR_INVALID_ARGS, 0, f'\<lparr>ff_head := old_head\<rparr>)
                 | Some (True, f') \<Rightarrow> Some (ZX_OK, unat (ff_head f' - old_head), f')))"

definition fifo_read_ring :: "nat \<Rightarrow> user_out \<Rightarrow> nat \<Rightarrow> bool \<Rightarrow> fifo \<Rightarrow> (zx_status \<times> u8 list \<times> nat \<times> fifo) option" where
  "fifo_read_ring elem_size ptr count has_peer f =
     (if elem_size \<noteq> unat (ff_elem_size f) then Some (ZX_ERR_OUT_OF_RANGE, [], 0, f)
      else if count = 0 then Some (ZX_ERR_OUT_OF_RANGE, [], 0, f)
      else
        (let old_tail = ff_tail f;
             avail = unat (ff_head f - ff_tail f)
         in if avail = 0 then Some (if has_peer then ZX_ERR_SHOULD_WAIT else ZX_ERR_PEER_CLOSED, [], 0, f)
            else case fifo_read_loop ptr 0 (if avail < count then avail else count) [] f of
                   None \<Rightarrow> None
                 | Some (False, out, f') \<Rightarrow> Some (ZX_ERR_INVALID_ARGS, out, 0, f'\<lparr>ff_tail := old_tail\<rparr>)
                 | Some (True, out, f') \<Rightarrow> Some (ZX_OK, out, unat (ff_tail f' - old_tail), f')))"

definition fifo_WriteSelfLocked ::
    "koid \<Rightarrow> nat \<Rightarrow> user_in \<Rightarrow> nat \<Rightarrow> fifo_sys \<Rightarrow> (zx_status \<times> nat \<times> fifo_sys) option" where
  "fifo_WriteSelfLocked k elem_size ptr count s =
     (let f = fs_fifo s k in
      case fifo_write_ring elem_size ptr count f of
        None \<Rightarrow> None
      | Some (st, actual, f') \<Rightarrow>
          (let s1 = s\<lparr>fs_fifo := (fs_fifo s)(k := f')\<rparr> in
           if st \<noteq> ZX_OK then Some (st, 0, s1)
           else
             (let was_empty = (ff_elem_count f - (ff_head f - ff_tail f) = ff_elem_count f);
                  s2 = (if was_empty then update_state k 0 ZX_FIFO_READABLE s1 else s1);
                  s3 = (if ff_elem_count f' = ff_head f' - ff_tail f'
                        then (case pd_peer s k of None \<Rightarrow> s2 | Some pk \<Rightarrow> update_state pk ZX_FIFO_WRITABLE 0 s2)
                        else s2)
              in Some (ZX_OK, actual, s3))))"

definition fifo_WriteFromUser ::
    "koid \<Rightarrow> nat \<Rightarrow> user_in \<Rightarrow> nat \<Rightarrow> fifo_sys \<Rightarrow> (zx_status \<times> nat \<times> fifo_sys) option" where
  "fifo_WriteFromUser k elem_size ptr count s =
     (case pd_peer s k of
        None \<Rightarrow> Some (ZX_ERR_PEER_CLOSED, 0, s)
      | Some pk \<Rightarrow> fifo_WriteSelfLocked pk elem_size ptr count s)"

definition fifo_ReadToUser ::
    "koid \<Rightarrow> nat \<Rightarrow> user_out \<Rightarrow> nat \<Rightarrow> fifo_sys \<Rightarrow> (zx_status \<times> u8 list \<times> nat \<times> fifo_sys) option" where
  "fifo_ReadToUser k elem_size ptr count s =
     (let f = fs_fifo s k in
      case fifo_read_ring elem_size ptr count (pd_peer s k \<noteq> None) f of
        None \<Rightarrow> None
      | Some (st, out, actual, f') \<Rightarrow>
          (let s1 = s\<lparr>fs_fifo := (fs_fifo s)(k := f')\<rparr> in
           if st \<noteq> ZX_OK then Some (st, out, 0, s1)
           else
             (let was_full = (ff_head f - ff_tail f = ff_elem_count f);
                  s2 = (if was_full
                        then (case pd_peer s k of None \<Rightarrow> s1 | Some pk \<Rightarrow> update_state pk 0 ZX_FIFO_WRITABLE s1)
                        else s1);
                  s3 = (if ff_head f' - ff_tail f' = 0 then update_state k ZX_FIFO_READABLE 0 s2 else s2)
              in Some (ZX_OK, out, actual, s3))))"

definition fifo_on_zero_handles_locked :: "koid \<Rightarrow> fifo_sys \<Rightarrow> fifo_sys" where
  "fifo_on_zero_handles_locked k s = s"

definition fifo_OnPeerZeroHandlesLocked :: "koid \<Rightarrow> fifo_sys \<Rightarrow> fifo_sys" where
  "fifo_OnPeerZeroHandlesLocked k s = update_state k ZX_FIFO_WRITABLE ZX_FIFO_PEER_CLOSED s"

abbreviation "fifo_close \<equiv> peered_on_zero_handles fifo_on_zero_handles_locked fifo_OnPeerZeroHandlesLocked"

interpretation fifo_class: peered_class fifo_on_zero_handles_locked fifo_OnPeerZeroHandlesLocked
  by unfold_locales (auto simp: fifo_on_zero_handles_locked_def fifo_OnPeerZeroHandlesLocked_def sig_bits)

section \<open>The ring as a queue of elements\<close>

definition slot :: "nat \<Rightarrow> u8 list \<Rightarrow> nat \<Rightarrow> u8 list" where
  "slot sz d j = take sz (drop (j * sz) d)"

definition elements :: "nat \<Rightarrow> nat \<Rightarrow> u8 list \<Rightarrow> u8 list list" where
  "elements sz n bs = map (slot sz bs) [0..<n]"

definition fifo_len :: "fifo \<Rightarrow> nat" where "fifo_len f = unat (ff_head f - ff_tail f)"

definition fifo_cap :: "fifo \<Rightarrow> nat" where "fifo_cap f = unat (ff_elem_count f)"

definition fifo_contents :: "fifo \<Rightarrow> u8 list list" where
  "fifo_contents f =
     map (\<lambda>i. slot (unat (ff_elem_size f)) (ff_data f) ((unat (ff_tail f) + i) mod fifo_cap f)) [0..<fifo_len f]"

definition fifo_ok :: "fifo \<Rightarrow> bool" where
  "fifo_ok f \<longleftrightarrow> (\<exists>n \<le> 12. ff_elem_count f = 2 ^ n) \<and> ff_mask f = ff_elem_count f - 1 \<and> 0 < unat (ff_elem_size f) \<and>
     length (ff_data f) = fifo_cap f * unat (ff_elem_size f) \<and> fifo_len f \<le> fifo_cap f"

lemma fifo_ok_cap:
  assumes "fifo_ok f"
  obtains n where "n \<le> 12" "fifo_cap f = 2 ^ n" "\<And>x. unat (x AND ff_mask f) = unat x mod fifo_cap f"
    "0 < fifo_cap f" "fifo_cap f dvd 2 ^ 32" "fifo_cap f \<le> 4096"
proof -
  obtain n where n: "n \<le> 12" "ff_elem_count f = 2 ^ n" and m: "ff_mask f = ff_elem_count f - 1"
    using assms by (auto simp: fifo_ok_def)
  have "(2 :: nat) ^ n < 2 ^ 32" using n(1) by (intro power_strict_increasing) auto
  then have "unat (of_nat (2 ^ n) :: u32) = 2 ^ n" by (simp only: unat_of_nat) (simp add: take_bit_nat_eq_self)
  then have c: "fifo_cap f = 2 ^ n" using n by (simp add: fifo_cap_def)
  have mk: "ff_mask f = mask n" using n m by (simp add: mask_eq_exp_minus_1)
  have "unat (x AND ff_mask f) = unat x mod fifo_cap f" for x
    by (simp only: mk c take_bit_eq_mask [symmetric] unsigned_take_bit_eq) (simp add: take_bit_eq_mod)
  moreover have "fifo_cap f dvd 2 ^ 32" unfolding c using n(1) by (intro le_imp_power_dvd) simp
  moreover have "fifo_cap f \<le> 2 ^ 12" unfolding c using n(1) by (rule power_increasing) simp
  ultimately show thesis using that n c by simp
qed

lemma unat_add_mod_cap:
  "N dvd 2 ^ 32 \<Longrightarrow> unat (x + of_nat k :: u32) mod N = (unat x + k) mod N"
  by (simp add: unat_word_ariths unat_of_nat mod_mod_cancel mod_add_right_eq)

lemma ring_positions_distinct:
  assumes "i < l" "l + c \<le> N" "j < c"
  shows "(T + i) mod N \<noteq> (T + l + j) mod (N :: nat)"
proof
  assume "(T + i) mod N = (T + l + j) mod N"
  then have "N dvd (T + l + j) - (T + i)" using assms by (metis mod_eq_dvd_iff_nat add.assoc add_le_cancel_left le_add1 less_imp_le_nat order_trans)
  moreover have "(T + l + j) - (T + i) < N" "0 < (T + l + j) - (T + i)" using assms by auto
  ultimately show False by (meson dvd_imp_le not_le)
qed

lemma slot_length: "(j + 1) * sz \<le> length d \<Longrightarrow> length (slot sz d j) = sz"
  by (simp add: slot_def)

lemma slot_nth: "x < sz \<Longrightarrow> (j + 1) * sz \<le> length d \<Longrightarrow> slot sz d j ! x = d ! (j * sz + x)"
  by (simp add: slot_def)

lemma write_at_length [simp]: "off + length bs \<le> length d \<Longrightarrow> length (write_at off bs d) = length d"
  by (simp add: write_at_def)

lemma write_at_nth:
  "off + length bs \<le> length d \<Longrightarrow> i < length d \<Longrightarrow>
   write_at off bs d ! i = (if off \<le> i \<and> i < off + length bs then bs ! (i - off) else d ! i)"
  by (auto simp: write_at_def nth_append)

lemma slot_write_at:
  assumes d: "length d = N * sz" and b: "length bs = c * sz" and o: "off + c \<le> N" and j: "j < N"
  shows "slot sz (write_at (off * sz) bs d) j = (if off \<le> j \<and> j < off + c then slot sz bs (j - off) else slot sz d j)"
proof -
  have le: "off * sz + c * sz \<le> N * sz" using o by (metis add_mult_distrib mult_le_mono1)
  have jl: "(j + 1) * sz \<le> N * sz" using j by (intro mult_le_mono1) simp
  have pos: "off * sz \<le> j * sz + x \<and> j * sz + x < off * sz + c * sz \<longleftrightarrow> off \<le> j \<and> j < off + c" if "x < sz" for x
  proof -
    have "off * sz \<le> j * sz + x \<longleftrightarrow> off \<le> j"
      by (metis add_lessD1 div_mult_self3 div_less that add.commute add.right_neutral less_nat_zero_code
          less_eq_div_iff_mult_less_eq not_gr_zero)
    moreover have "j * sz + x < (off + c) * sz \<longleftrightarrow> j < off + c"
      by (metis add.commute div_less div_less_iff_less_mult div_mult_self3 that add.right_neutral less_nat_zero_code
          not_gr_zero)
    ultimately show ?thesis by (simp add: add_mult_distrib)
  qed
  show ?thesis
  proof (rule nth_equalityI)
    have "(j - off + 1) * sz \<le> c * sz" if "off \<le> j" "j < off + c" using that by (intro mult_le_mono1) simp
    then show "length (slot sz (write_at (off * sz) bs d) j) =
        length (if off \<le> j \<and> j < off + c then slot sz bs (j - off) else slot sz d j)"
      using le jl by (simp add: slot_length d b)
  next
    fix x assume "x < length (slot sz (write_at (off * sz) bs d) j)"
    then have x: "x < sz" using le jl by (simp add: slot_length d b)
    have "j * sz + x < N * sz" using jl x by simp
    then have *: "slot sz (write_at (off * sz) bs d) j ! x =
        (if off \<le> j \<and> j < off + c then bs ! (j * sz + x - off * sz) else d ! (j * sz + x))"
      using le jl x pos [OF x] by (simp add: slot_nth write_at_nth d b)
    have "slot sz bs (j - off) ! x = bs ! (j * sz + x - off * sz)" if "off \<le> j" "j < off + c"
    proof -
      have "(j - off + 1) * sz \<le> c * sz" using that by (intro mult_le_mono1) simp
      moreover have "(j - off) * sz + x = j * sz + x - off * sz" using that by (simp add: diff_mult_distrib)
      ultimately show ?thesis using x by (simp add: slot_nth b)
    qed
    then show "slot sz (write_at (off * sz) bs d) j ! x =
        (if off \<le> j \<and> j < off + c then slot sz bs (j - off) else slot sz d j) ! x"
      using * jl x by (simp add: slot_nth d)
  qed
qed

lemma slot_write_at_other:
  assumes d: "length d = N * sz" and b: "length bs \<le> c * sz" and o: "off + c \<le> N" and j: "j < N" "\<not> (off \<le> j \<and> j < off + c)"
  shows "slot sz (write_at (off * sz) bs d) j = slot sz d j"
proof -
  have le: "off * sz + c * sz \<le> N * sz" using o by (metis add_mult_distrib mult_le_mono1)
  define m where "m = c * sz - length bs"
  define p where "p = off * sz + length bs"
  define bs' where "bs' = bs @ take m (drop p d)"
  have l: "length bs' = c * sz" using b d le by (simp add: bs'_def m_def p_def)
  have e: "drop (off * sz + c * sz) d = drop m (drop p d)" using b by (simp add: m_def p_def add.commute)
  have "take m (drop p d) @ drop (off * sz + c * sz) d = drop p d" by (simp only: e append_take_drop_id)
  then have "write_at (off * sz) bs' d = write_at (off * sz) bs d"
    by (simp add: write_at_def l) (simp add: bs'_def p_def)
  then show ?thesis using slot_write_at [OF d l o j(1)] j(2) by simp
qed

lemma elements_length [simp]: "length (elements sz n bs) = n"
  by (simp add: elements_def)

lemma elements_append:
  assumes "length xs = m * sz"
  shows "elements sz (m + n) (xs @ ys) = elements sz m xs @ elements sz n ys"
proof (rule nth_equalityI)
  fix i assume i: "i < length (elements sz (m + n) (xs @ ys))"
  show "elements sz (m + n) (xs @ ys) ! i = (elements sz m xs @ elements sz n ys) ! i"
  proof (cases "i < m")
    case True
    then have "(i + 1) * sz \<le> m * sz" by (intro mult_le_mono1) simp
    then show ?thesis using True assms by (simp add: elements_def slot_def nth_append)
  next
    case False
    then have "m * sz \<le> i * sz" "i * sz - m * sz = (i - m) * sz" by (simp_all add: diff_mult_distrib)
    then show ?thesis using False i assms by (simp add: elements_def slot_def nth_append)
  qed
qed simp

text \<open>A ring that still holds the elements of another one, whatever else its free slots hold.\<close>

definition ring_same :: "fifo \<Rightarrow> fifo \<Rightarrow> bool" where
  "ring_same f f' \<longleftrightarrow>
     ff_elem_count f' = ff_elem_count f \<and> ff_elem_size f' = ff_elem_size f \<and> ff_mask f' = ff_mask f \<and>
     ff_tail f' = ff_tail f \<and> length (ff_data f') = length (ff_data f) \<and>
     (\<forall>i < fifo_len f. slot (unat (ff_elem_size f)) (ff_data f') ((unat (ff_tail f) + i) mod fifo_cap f) =
                     slot (unat (ff_elem_size f)) (ff_data f) ((unat (ff_tail f) + i) mod fifo_cap f))"

lemma ring_same_refl [simp]: "ring_same f f"
  by (simp add: ring_same_def)

lemma ring_same_trans: "ring_same f g \<Longrightarrow> ring_same g h \<Longrightarrow> fifo_len f \<le> fifo_len g \<Longrightarrow> ring_same f h"
  by (simp add: ring_same_def fifo_cap_def)

lemma ring_same_restore:
  assumes "fifo_ok f" "ring_same f f'"
  shows "fifo_ok (f'\<lparr>ff_head := ff_head f\<rparr>) \<and> fifo_contents (f'\<lparr>ff_head := ff_head f\<rparr>) = fifo_contents f"
  using assms by (simp add: ring_same_def fifo_ok_def fifo_cap_def fifo_len_def fifo_contents_def)

lemma fifo_head_slot:
  assumes "fifo_ok f"
  shows "unat (ff_head f AND ff_mask f) = (unat (ff_tail f) + fifo_len f) mod fifo_cap f"
proof -
  obtain n where m: "\<And>x. unat (x AND ff_mask f) = unat x mod fifo_cap f" and d: "fifo_cap f dvd 2 ^ 32"
    using fifo_ok_cap [OF assms] by metis
  have "ff_head f = ff_tail f + of_nat (fifo_len f)" by (simp add: fifo_len_def)
  then show ?thesis using unat_add_mod_cap [OF d, of "ff_tail f" "fifo_len f"] m by metis
qed

lemma fifo_slot_after:
  assumes "fifo_ok f" "unat (ff_head f AND ff_mask f) + j < fifo_cap f"
  shows "(unat (ff_tail f) + (fifo_len f + j)) mod fifo_cap f = unat (ff_head f AND ff_mask f) + j"
proof -
  have "(unat (ff_tail f) + (fifo_len f + j)) mod fifo_cap f = ((unat (ff_tail f) + fifo_len f) mod fifo_cap f + j) mod fifo_cap f"
    by (simp add: mod_add_left_eq add.assoc)
  then show ?thesis using assms(2) by (simp add: fifo_head_slot [OF assms(1)])
qed

lemma fifo_free_slots:
  assumes ok: "fifo_ok f" and len: "fifo_len f + c \<le> fifo_cap f" and i: "i < fifo_len f"
    and c: "unat (ff_head f AND ff_mask f) + c \<le> fifo_cap f"
  shows "\<not> (unat (ff_head f AND ff_mask f) \<le> (unat (ff_tail f) + i) mod fifo_cap f \<and>
            (unat (ff_tail f) + i) mod fifo_cap f < unat (ff_head f AND ff_mask f) + c)"
proof
  let ?o = "unat (ff_head f AND ff_mask f)" and ?p = "(unat (ff_tail f) + i) mod fifo_cap f"
  assume a: "?o \<le> ?p \<and> ?p < ?o + c"
  define j where "j = ?p - ?o"
  have j: "?p = ?o + j" "j < c" using a by (auto simp: j_def)
  have "?o + j < fifo_cap f" using c j(2) by simp
  from fifo_slot_after [OF ok this] have "(unat (ff_tail f) + fifo_len f + j) mod fifo_cap f = ?p"
    by (simp only: j(1) add.assoc)
  then show False using ring_positions_distinct [OF i len j(2), of "unat (ff_tail f)"] by simp
qed

lemma fifo_len_advance:
  assumes "fifo_ok f" "fifo_len f + c \<le> fifo_cap f"
  shows "unat (ff_head f + of_nat c - ff_tail f) = fifo_len f + c"
proof -
  have "fifo_cap f \<le> 4096" using fifo_ok_cap [OF assms(1)] by metis
  then have l: "fifo_len f + c < 2 ^ 32" using assms(2) by simp
  have "ff_head f + of_nat c - ff_tail f = of_nat (fifo_len f + c)" by (simp add: fifo_len_def)
  then show ?thesis using l by (simp only: unat_of_nat) (simp add: take_bit_nat_eq_self)
qed

lemma write_free_slots:
  assumes "fifo_ok f" "length bs \<le> c * unat (ff_elem_size f)" "fifo_len f + c \<le> fifo_cap f"
    "unat (ff_head f AND ff_mask f) + c \<le> fifo_cap f"
  shows "ring_same f (f\<lparr>ff_data := write_at (unat (ff_head f AND ff_mask f) * unat (ff_elem_size f)) bs (ff_data f)\<rparr>)"
proof -
  let ?o = "unat (ff_head f AND ff_mask f)" and ?z = "unat (ff_elem_size f)"
  have d: "length (ff_data f) = fifo_cap f * ?z" using assms(1) by (simp add: fifo_ok_def)
  have pos: "0 < fifo_cap f" using fifo_ok_cap [OF assms(1)] by metis
  have "(?o + c) * ?z \<le> fifo_cap f * ?z" using assms(4) by (rule mult_le_mono1)
  then have "?o * ?z + length bs \<le> length (ff_data f)" using assms(2) d by (simp add: add_mult_distrib)
  then show ?thesis
    using slot_write_at_other [OF d assms(2,4)] fifo_free_slots [OF assms(1,3) _ assms(4)] pos
    by (simp add: ring_same_def)
qed

lemma write_chunk:
  assumes ok: "fifo_ok f" and bs: "length bs = c * unat (ff_elem_size f)" and len: "fifo_len f + c \<le> fifo_cap f"
    and c: "unat (ff_head f AND ff_mask f) + c \<le> fifo_cap f"
    and f': "f' = f\<lparr>ff_data := write_at (unat (ff_head f AND ff_mask f) * unat (ff_elem_size f)) bs (ff_data f),
                     ff_head := ff_head f + of_nat c\<rparr>"
  shows "fifo_ok f' \<and> ring_same f f' \<and> fifo_len f' = fifo_len f + c \<and>
         fifo_contents f' = fifo_contents f @ elements (unat (ff_elem_size f)) c bs"
proof -
  let ?o = "unat (ff_head f AND ff_mask f)" and ?z = "unat (ff_elem_size f)" and ?T = "unat (ff_tail f)"
  have d: "length (ff_data f) = fifo_cap f * ?z" using ok by (simp add: fifo_ok_def)
  have pos: "0 < fifo_cap f" using fifo_ok_cap [OF ok] by metis
  have same: "ring_same f f'" using write_free_slots [OF ok _ len c, of bs] bs f' by (simp add: ring_same_def)
  have l: "fifo_len f' = fifo_len f + c" using fifo_len_advance [OF ok len] f' by (simp add: fifo_len_def)
  have new: "slot ?z (ff_data f') ((?T + (fifo_len f + j)) mod fifo_cap f) = slot ?z bs j" if "j < c" for j
  proof -
    have p: "(?T + (fifo_len f + j)) mod fifo_cap f = ?o + j"
      using c that by (intro fifo_slot_after [OF ok]) simp
    show ?thesis unfolding p using slot_write_at [OF d bs c, of "?o + j"] c that f' by simp
  qed
  have sels: "ff_elem_size f' = ff_elem_size f" "ff_tail f' = ff_tail f" "fifo_cap f' = fifo_cap f"
    using same by (simp_all add: ring_same_def fifo_cap_def)
  have old: "slot ?z (ff_data f') ((?T + i) mod fifo_cap f) = slot ?z (ff_data f) ((?T + i) mod fifo_cap f)" if "i < fifo_len f" for i
    using same that by (simp add: ring_same_def)
  have upt: "[0..<fifo_len f + c] = [0..<fifo_len f] @ map (\<lambda>j. fifo_len f + j) [0..<c]"
    by (rule nth_equalityI) (auto simp: nth_append)
  have "fifo_contents f' = fifo_contents f @ elements ?z c bs"
    unfolding fifo_contents_def l upt map_append sels by (simp add: elements_def old new)
  moreover have "fifo_ok f'" using ok same l len by (simp add: fifo_ok_def ring_same_def fifo_cap_def)
  ultimately show ?thesis using same l by simp
qed

text \<open>The copy loops, for any number of elements the ring has room for or holds.\<close>

lemma fifo_slots_to_end:
  assumes "fifo_ok f"
  shows "unat (ff_elem_count f - (x AND ff_mask f)) = fifo_cap f - unat (x AND ff_mask f) \<and> unat (x AND ff_mask f) < fifo_cap f"
proof -
  have m: "unat (x AND ff_mask f) = unat x mod fifo_cap f" and "0 < fifo_cap f" using fifo_ok_cap [OF assms] by metis+
  then have lt: "unat (x AND ff_mask f) < fifo_cap f" by simp
  then have "x AND ff_mask f \<le> ff_elem_count f" by (simp add: fifo_cap_def word_le_nat_alt)
  then have "unat (ff_elem_count f - (x AND ff_mask f)) = fifo_cap f - unat (x AND ff_mask f)"
    unfolding fifo_cap_def by (rule unat_sub)
  with lt show ?thesis by simp
qed

lemma min_split:
  assumes "0 < n" "0 < count" "c = (if n < count then n else count)"
  shows "0 < c \<and> c \<le> n \<and> c \<le> count \<and> count * z = c * z + (count - c) * z \<and> count - c < (count :: nat)"
  using assms by (auto simp: diff_mult_distrib)

lemma write_loop_ok:
  assumes "fifo_ok f" "fifo_len f + count \<le> fifo_cap f" "z = unat (ff_elem_size f)"
    "copy_array_from_user ptr off (count * z) = Some bs"
  shows "\<exists>f'. fifo_write_loop ptr off count f = Some (True, f') \<and> fifo_ok f' \<and> ring_same f f' \<and>
     ff_head f' = ff_head f + of_nat count \<and> fifo_contents f' = fifo_contents f @ elements z count bs"
  using assms
proof (induction count arbitrary: off f bs rule: less_induct)
  case (less count)
  show ?case
  proof (cases "count = 0")
    case True
    then show ?thesis using less.prems by (simp add: fifo_write_loop.simps elements_def)
  next
    case False
    let ?o = "unat (ff_head f AND ff_mask f)" and ?n = "unat (ff_elem_count f - (ff_head f AND ff_mask f))"
    define c where "c = (if ?n < count then ?n else count)"
    have n: "?n = fifo_cap f - ?o" "?o < fifo_cap f" using fifo_slots_to_end [OF less.prems(1)] by auto
    have c: "0 < c" "c \<le> ?n" "c \<le> count" "count * z = c * z + (count - c) * z" "count - c < count"
      using min_split [of ?n count c z] n False c_def by auto
    obtain xs ys where xy: "copy_array_from_user ptr off (c * z) = Some xs"
        "copy_array_from_user ptr (off + c * z) ((count - c) * z) = Some ys" "bs = xs @ ys"
      using less.prems(4) unfolding c(4) by (rule copy_array_from_user_split)
    have lx: "length xs = c * z" using xy(1) by (rule copy_array_from_user_length)
    define f1 where "f1 = f\<lparr>ff_data := write_at (?o * z) xs (ff_data f), ff_head := ff_head f + of_nat c\<rparr>"
    have w: "fifo_ok f1 \<and> ring_same f f1 \<and> fifo_len f1 = fifo_len f + c \<and> fifo_contents f1 = fifo_contents f @ elements z c xs"
      using write_chunk [OF less.prems(1), of xs c f1] lx less.prems(2,3) c n by (simp add: f1_def)
    have z1: "z = unat (ff_elem_size f1)" and cap: "fifo_cap f1 = fifo_cap f" using less.prems(3) by (simp_all add: f1_def fifo_cap_def)
    have step: "fifo_write_loop ptr off count f = fifo_write_loop ptr (off + c * z) (count - c) f1"
      using False xy(1) less.prems(3) by (subst fifo_write_loop.simps) (simp add: f1_def Let_def flip: c_def)
    obtain f' where f': "fifo_write_loop ptr (off + c * z) (count - c) f1 = Some (True, f')" "fifo_ok f'" "ring_same f1 f'"
        "ff_head f' = ff_head f1 + of_nat (count - c)" "fifo_contents f' = fifo_contents f1 @ elements z (count - c) ys"
      using less.IH [OF c(5) _ _ z1 xy(2)] w cap less.prems(2) c(3) by auto
    have "ff_head f' = ff_head f + of_nat (c + (count - c))" using f'(4) by (simp add: f1_def)
    moreover have "fifo_contents f' = fifo_contents f @ elements z (c + (count - c)) bs"
      using f'(5) w xy(3) elements_append [OF lx, of "count - c" ys] by simp
    moreover have "ring_same f f'" using ring_same_trans [of f f1 f'] w f'(3) by simp
    ultimately show ?thesis using step f'(1,2) c(3) by simp
  qed
qed

lemma write_loop_fault:
  assumes "fifo_ok f" "fifo_len f + count \<le> fifo_cap f" "z = unat (ff_elem_size f)"
    "copy_array_from_user ptr off (count * z) = None"
  shows "\<exists>f'. fifo_write_loop ptr off count f = Some (False, f') \<and> ring_same f f'"
  using assms
proof (induction count arbitrary: off f rule: less_induct)
  case (less count)
  let ?o = "unat (ff_head f AND ff_mask f)" and ?n = "unat (ff_elem_count f - (ff_head f AND ff_mask f))"
  have False: "count \<noteq> 0" using less.prems(4) by (intro notI) simp
  define c where "c = (if ?n < count then ?n else count)"
  have n: "?n = fifo_cap f - ?o" "?o < fifo_cap f" using fifo_slots_to_end [OF less.prems(1)] by auto
  have c: "0 < c" "c \<le> ?n" "c \<le> count" "count * z = c * z + (count - c) * z" "count - c < count"
    using min_split [of ?n count c z] n False c_def by auto
  have room: "fifo_len f + c \<le> fifo_cap f" "?o + c \<le> fifo_cap f" using less.prems(2) c n by auto
  show ?case
  proof (cases "copy_array_from_user ptr off (c * z)")
    case None
    have "length (readable_prefix ptr off (c * z)) \<le> c * z"
      unfolding readable_prefix_def length_map by (rule order_trans [OF length_takeWhile_le]) simp
    then show ?thesis
      using write_free_slots [OF less.prems(1) _ room] None False less.prems(3)
      by (subst fifo_write_loop.simps) (simp add: Let_def flip: c_def)
  next
    case (Some xs)
    have lx: "length xs = c * z" using Some by (rule copy_array_from_user_length)
    define f1 where "f1 = f\<lparr>ff_data := write_at (?o * z) xs (ff_data f), ff_head := ff_head f + of_nat c\<rparr>"
    have w: "fifo_ok f1 \<and> ring_same f f1 \<and> fifo_len f1 = fifo_len f + c"
      using write_chunk [OF less.prems(1) _ room, of xs f1] lx less.prems(3) by (simp add: f1_def)
    have z1: "z = unat (ff_elem_size f1)" and cap: "fifo_cap f1 = fifo_cap f" using less.prems(3) by (simp_all add: f1_def fifo_cap_def)
    have none: "copy_array_from_user ptr (off + c * z) ((count - c) * z) = None"
      using less.prems(4) Some unfolding c(4) copy_array_from_user_None_append by simp
    have step: "fifo_write_loop ptr off count f = fifo_write_loop ptr (off + c * z) (count - c) f1"
      using False Some less.prems(3) by (subst fifo_write_loop.simps) (simp add: f1_def Let_def flip: c_def)
    show ?thesis
      using less.IH [OF c(5) _ _ z1 none] w cap less.prems(2) c(3) step ring_same_trans [of f f1] by auto
  qed
qed

lemma concat_slots: "k * z + c * z \<le> length d \<Longrightarrow> concat (map (\<lambda>i. slot z d (k + i)) [0..<c]) = take (c * z) (drop (k * z) d)"
proof (induction c)
  case (Suc c)
  have "take (z + c * z) (drop (k * z) d) = take (c * z) (drop (k * z) d) @ take z (drop (c * z) (drop (k * z) d))"
    by (metis add.commute take_add)
  then show ?case using Suc by (simp add: slot_def add_mult_distrib add.commute)
qed simp

lemma fifo_tail_slot:
  assumes "fifo_ok f" "unat (ff_tail f AND ff_mask f) + i < fifo_cap f"
  shows "(unat (ff_tail f) + i) mod fifo_cap f = unat (ff_tail f AND ff_mask f) + i"
proof -
  have "unat (ff_tail f AND ff_mask f) = unat (ff_tail f) mod fifo_cap f" using fifo_ok_cap [OF assms(1)] by metis
  then show ?thesis using assms(2) by (metis mod_add_left_eq mod_less)
qed

lemma read_chunk:
  assumes ok: "fifo_ok f" and len: "c \<le> fifo_len f" and o: "unat (ff_tail f AND ff_mask f) + c \<le> fifo_cap f"
    and z: "z = unat (ff_elem_size f)"
  shows "take (c * z) (drop (unat (ff_tail f AND ff_mask f) * z) (ff_data f)) = concat (take c (fifo_contents f)) \<and>
     fifo_ok (f\<lparr>ff_tail := ff_tail f + of_nat c\<rparr>) \<and>
     fifo_len (f\<lparr>ff_tail := ff_tail f + of_nat c\<rparr>) = fifo_len f - c \<and>
     fifo_contents (f\<lparr>ff_tail := ff_tail f + of_nat c\<rparr>) = drop c (fifo_contents f)"
proof -
  let ?o = "unat (ff_tail f AND ff_mask f)" and ?f' = "f\<lparr>ff_tail := ff_tail f + of_nat c\<rparr>"
  have cap: "fifo_cap f \<le> 4096" "fifo_cap f dvd 2 ^ 32" using fifo_ok_cap [OF ok] by metis+
  have d: "length (ff_data f) = fifo_cap f * z" and le: "fifo_len f \<le> fifo_cap f" using ok z by (simp_all add: fifo_ok_def)
  have "(?o + c) * z \<le> fifo_cap f * z" using o by (rule mult_le_mono1)
  then have "take (c * z) (drop (?o * z) (ff_data f)) = concat (map (\<lambda>i. slot z (ff_data f) (?o + i)) [0..<c])"
    using d by (subst concat_slots) (simp_all add: add_mult_distrib)
  also have "map (\<lambda>i. slot z (ff_data f) (?o + i)) [0..<c] = take c (fifo_contents f)"
    using o len fifo_tail_slot [OF ok] z by (simp add: fifo_contents_def take_map)
  finally have bytes: "take (c * z) (drop (?o * z) (ff_data f)) = concat (take c (fifo_contents f))" .
  have c32: "c < 2 ^ 32" using len le cap(1) by simp
  have "of_nat c \<le> ff_head f - ff_tail f" using len c32 by (simp add: word_le_nat_alt fifo_len_def unat_of_nat take_bit_nat_eq_self)
  then have "unat (ff_head f - ff_tail f - of_nat c) = fifo_len f - c"
    using c32 by (simp add: unat_sub fifo_len_def unat_of_nat take_bit_nat_eq_self)
  then have l: "fifo_len ?f' = fifo_len f - c" by (simp add: fifo_len_def diff_diff_eq)
  have pos: "(unat (ff_tail f + of_nat c) + i) mod fifo_cap f = (unat (ff_tail f) + (c + i)) mod fifo_cap f" for i
    using unat_add_mod_cap [OF cap(2), of "ff_tail f" c] by (metis add.assoc mod_add_left_eq)
  have upt: "[c..<fifo_len f] = map (\<lambda>i. c + i) [0..<fifo_len f - c]" by (rule nth_equalityI) auto
  have "fifo_contents ?f' = drop c (fifo_contents f)"
    unfolding fifo_contents_def l drop_map drop_upt add_0 upt
    by (simp add: pos fifo_cap_def [of ?f'] fifo_cap_def [of f, symmetric])
  moreover have cap': "fifo_cap ?f' = fifo_cap f" by (simp add: fifo_cap_def)
  have "fifo_len ?f' \<le> fifo_cap ?f'" unfolding cap' l using le by simp
  then have "fifo_ok ?f'" using ok unfolding fifo_ok_def by (simp add: fifo_cap_def)
  ultimately show ?thesis using bytes l by simp
qed

lemma read_loop_ok:
  assumes "fifo_ok f" "count \<le> fifo_len f" "z = unat (ff_elem_size f)" "copy_array_to_user ptr off (count * z)"
  shows "\<exists>f'. fifo_read_loop ptr off count out f = Some (True, out @ concat (take count (fifo_contents f)), f') \<and> fifo_ok f' \<and>
     f' = f\<lparr>ff_tail := ff_tail f + of_nat count\<rparr> \<and> fifo_contents f' = drop count (fifo_contents f)"
  using assms
proof (induction count arbitrary: off f out rule: less_induct)
  case (less count)
  show ?case
  proof (cases "count = 0")
    case True
    then show ?thesis using less.prems by (simp add: fifo_read_loop.simps)
  next
    case False
    let ?o = "unat (ff_tail f AND ff_mask f)" and ?n = "unat (ff_elem_count f - (ff_tail f AND ff_mask f))"
    define c where "c = (if ?n < count then ?n else count)"
    have n: "?n = fifo_cap f - ?o" "?o < fifo_cap f" using fifo_slots_to_end [OF less.prems(1)] by auto
    have c: "0 < c" "c \<le> ?n" "c \<le> count" "count * z = c * z + (count - c) * z" "count - c < count"
      using min_split [of ?n count c z] n False c_def by auto
    define f1 where "f1 = f\<lparr>ff_tail := ff_tail f + of_nat c\<rparr>"
    define out1 where "out1 = out @ take (c * z) (drop (?o * z) (ff_data f))"
    have r: "take (c * z) (drop (?o * z) (ff_data f)) = concat (take c (fifo_contents f))" "fifo_ok f1"
        "fifo_len f1 = fifo_len f - c" "fifo_contents f1 = drop c (fifo_contents f)"
      using read_chunk [OF less.prems(1), of c z] less.prems(2,3) c n by (auto simp: f1_def)
    have cp: "copy_array_to_user ptr off (c * z)" "copy_array_to_user ptr (off + c * z) ((count - c) * z)"
      using less.prems(4) unfolding c(4) copy_array_to_user_append by auto
    have z1: "z = unat (ff_elem_size f1)" using less.prems(3) by (simp add: f1_def)
    have step: "fifo_read_loop ptr off count out f = fifo_read_loop ptr (off + c * z) (count - c) out1 f1"
      using False cp(1) less.prems(3) by (subst fifo_read_loop.simps) (simp add: f1_def out1_def Let_def flip: c_def)
    obtain f' where f': "fifo_read_loop ptr (off + c * z) (count - c) out1 f1 = Some (True, out1 @ concat (take (count - c) (fifo_contents f1)), f')"
        "fifo_ok f'" "f' = f1\<lparr>ff_tail := ff_tail f1 + of_nat (count - c)\<rparr>" "fifo_contents f' = drop (count - c) (fifo_contents f1)"
      using less.IH [OF c(5) r(2) _ z1 cp(2), of out1] r(3) less.prems(2) by auto
    have "take count (fifo_contents f) = take c (fifo_contents f) @ take (count - c) (drop c (fifo_contents f))"
      using c(3) by (metis le_add_diff_inverse take_add)
    then have "out1 @ concat (take (count - c) (fifo_contents f1)) = out @ concat (take count (fifo_contents f))"
      using r(1,4) by (simp add: out1_def)
    moreover have "f' = f\<lparr>ff_tail := ff_tail f + of_nat (c + (count - c))\<rparr>" using f'(3) by (simp add: f1_def add.assoc)
    moreover have "fifo_contents f' = drop count (fifo_contents f)" using f'(4) r(4) c(3) by simp
    ultimately show ?thesis using step f'(1,2) c(3) by simp
  qed
qed

lemma read_loop_fault:
  assumes "fifo_ok f" "count \<le> fifo_len f" "z = unat (ff_elem_size f)" "\<not> copy_array_to_user ptr off (count * z)"
  shows "\<exists>out' t. fifo_read_loop ptr off count out f = Some (False, out', f\<lparr>ff_tail := t\<rparr>)"
  using assms
proof (induction count arbitrary: off f out rule: less_induct)
  case (less count)
  let ?o = "unat (ff_tail f AND ff_mask f)" and ?n = "unat (ff_elem_count f - (ff_tail f AND ff_mask f))"
  have False: "count \<noteq> 0" using less.prems(4) by (intro notI) (simp add: copy_array_to_user_def)
  define c where "c = (if ?n < count then ?n else count)"
  have n: "?n = fifo_cap f - ?o" "?o < fifo_cap f" using fifo_slots_to_end [OF less.prems(1)] by auto
  have c: "0 < c" "c \<le> ?n" "c \<le> count" "count * z = c * z + (count - c) * z" "count - c < count"
    using min_split [of ?n count c z] n False c_def by auto
  define out1 where "out1 = out @ take (c * z) (drop (?o * z) (ff_data f))"
  define f1 where "f1 = f\<lparr>ff_tail := ff_tail f + of_nat c\<rparr>"
  show ?case
  proof (cases "copy_array_to_user ptr off (c * z)")
    case F: False
    have "fifo_read_loop ptr off count out f = Some (False, out, f\<lparr>ff_tail := ff_tail f\<rparr>)"
      using F False less.prems(3) by (subst fifo_read_loop.simps) (simp add: Let_def flip: c_def)
    then show ?thesis by blast
  next
    case True
    have r: "fifo_ok f1" "fifo_len f1 = fifo_len f - c"
      using read_chunk [OF less.prems(1), of c z] less.prems(2,3) c n by (auto simp: f1_def)
    have z1: "z = unat (ff_elem_size f1)" using less.prems(3) by (simp add: f1_def)
    have none: "\<not> copy_array_to_user ptr (off + c * z) ((count - c) * z)"
      using less.prems(4) True unfolding c(4) copy_array_to_user_append by simp
    have "fifo_read_loop ptr off count out f = fifo_read_loop ptr (off + c * z) (count - c) out1 f1"
      using False True less.prems(3) by (subst fifo_read_loop.simps) (simp add: f1_def out1_def Let_def flip: c_def)
    then show ?thesis
      using less.IH [OF c(5) r(1) _ z1 none, of out1] r(2) less.prems(2) by (auto simp: f1_def)
  qed
qed

section \<open>Refinement of a bounded queue\<close>

text \<open>The abstract object: a queue of elements of size \<open>sz\<close> with a capacity.\<close>

definition queue_write_spec ::
    "nat \<Rightarrow> nat \<Rightarrow> nat \<Rightarrow> user_in \<Rightarrow> nat \<Rightarrow> u8 list list \<Rightarrow> zx_status \<times> nat \<times> u8 list list" where
  "queue_write_spec sz cap elem_size ptr count q =
     (if elem_size \<noteq> sz \<or> count = 0 then (ZX_ERR_OUT_OF_RANGE, 0, q)
      else if length q = cap then (ZX_ERR_SHOULD_WAIT, 0, q)
      else let m = min count (cap - length q)
           in case copy_array_from_user ptr 0 (m * sz) of
                None \<Rightarrow> (ZX_ERR_INVALID_ARGS, 0, q)
              | Some bs \<Rightarrow> (ZX_OK, m, q @ elements sz m bs))"

definition queue_read_spec ::
    "nat \<Rightarrow> nat \<Rightarrow> user_out \<Rightarrow> nat \<Rightarrow> bool \<Rightarrow> u8 list list \<Rightarrow> zx_status \<times> u8 list \<times> nat \<times> u8 list list" where
  "queue_read_spec sz elem_size ptr count has_peer q =
     (if elem_size \<noteq> sz \<or> count = 0 then (ZX_ERR_OUT_OF_RANGE, [], 0, q)
      else if q = [] then (if has_peer then ZX_ERR_SHOULD_WAIT else ZX_ERR_PEER_CLOSED, [], 0, q)
      else let m = min count (length q)
           in if copy_array_to_user ptr 0 (m * sz) then (ZX_OK, concat (take m q), m, drop m q)
              else (ZX_ERR_INVALID_ARGS, [], 0, q))"

lemma length_fifo_contents [simp]: "length (fifo_contents f) = fifo_len f"
  by (simp add: fifo_contents_def)

lemma fifo_ok_bounds:
  assumes "fifo_ok f" shows "0 < fifo_cap f \<and> fifo_cap f \<le> 4096 \<and> fifo_len f \<le> fifo_cap f"
proof -
  have "0 < fifo_cap f" "fifo_cap f \<le> 4096" using fifo_ok_cap [OF assms] by metis+
  then show ?thesis using assms by (simp add: fifo_ok_def)
qed

lemma fifo_avail:
  assumes "fifo_ok f"
  shows "unat (ff_elem_count f - (ff_head f - ff_tail f)) = fifo_cap f - fifo_len f"
proof -
  have "ff_head f - ff_tail f \<le> ff_elem_count f" using assms by (simp add: fifo_ok_def fifo_len_def fifo_cap_def word_le_nat_alt)
  then show ?thesis unfolding fifo_cap_def fifo_len_def by (rule unat_sub)
qed

lemma unat_of_small: "n \<le> 4096 \<Longrightarrow> unat (of_nat n :: u32) = n"
  by (simp add: unat_of_nat take_bit_nat_eq_self)

text \<open>What a call leaves alone: the shape of the ring.\<close>

definition same_shape :: "fifo \<Rightarrow> fifo \<Rightarrow> bool" where
  "same_shape f f' \<longleftrightarrow> ff_elem_size f' = ff_elem_size f \<and> fifo_cap f' = fifo_cap f"

lemma write_ring_refines:
  assumes ok: "fifo_ok f"
  shows "\<exists>st n f'. fifo_write_ring elem_size ptr count f = Some (st, n, f') \<and> fifo_ok f' \<and> same_shape f f' \<and>
     queue_write_spec (unat (ff_elem_size f)) (fifo_cap f) elem_size ptr count (fifo_contents f) = (st, n, fifo_contents f')"
proof (cases "elem_size \<noteq> unat (ff_elem_size f) \<or> count = 0 \<or> fifo_len f = fifo_cap f")
  case True
  then show ?thesis using ok by (auto simp: fifo_write_ring_def queue_write_spec_def fifo_avail same_shape_def)
next
  case False
  let ?z = "unat (ff_elem_size f)"
  define m where "m = min count (fifo_cap f - fifo_len f)"
  have le: "fifo_len f \<le> fifo_cap f" "fifo_cap f \<le> 4096" using fifo_ok_bounds [OF ok] by auto
  have m: "(if fifo_cap f - fifo_len f < count then fifo_cap f - fifo_len f else count) = m" "fifo_len f + m \<le> fifo_cap f"
    "m \<le> 4096" "fifo_cap f - fifo_len f \<noteq> 0" using le False by (auto simp: m_def)
  show ?thesis
  proof (cases "copy_array_from_user ptr 0 (m * ?z)")
    case None
    obtain f' where f': "fifo_write_loop ptr 0 m f = Some (False, f')" "ring_same f f'"
      using write_loop_fault [OF ok m(2) refl None] by blast
    have "same_shape f (f'\<lparr>ff_head := ff_head f\<rparr>)" using f'(2) by (simp add: same_shape_def ring_same_def fifo_cap_def)
    then show ?thesis using False None m ring_same_restore [OF ok f'(2)] f'(1)
      by (simp add: fifo_write_ring_def queue_write_spec_def fifo_avail [OF ok] Let_def flip: m_def)
  next
    case (Some bs)
    obtain f' where f': "fifo_write_loop ptr 0 m f = Some (True, f')" "fifo_ok f'" "ring_same f f'"
        "ff_head f' = ff_head f + of_nat m" "fifo_contents f' = fifo_contents f @ elements ?z m bs"
      using write_loop_ok [OF ok m(2) refl Some] by blast
    have "same_shape f f'" using f'(3) by (simp add: same_shape_def ring_same_def fifo_cap_def)
    then show ?thesis using False Some m unat_of_small [OF m(3)] f'
      by (simp add: fifo_write_ring_def queue_write_spec_def fifo_avail [OF ok] Let_def flip: m_def)
  qed
qed

lemma read_ring_refines:
  assumes ok: "fifo_ok f"
  shows "\<exists>st out n f'. fifo_read_ring elem_size ptr count has_peer f = Some (st, out, n, f') \<and> fifo_ok f' \<and> same_shape f f' \<and>
     queue_read_spec (unat (ff_elem_size f)) elem_size ptr count has_peer (fifo_contents f) =
       (st, if st = ZX_OK then out else [], n, fifo_contents f')"
proof (cases "elem_size \<noteq> unat (ff_elem_size f) \<or> count = 0 \<or> fifo_len f = 0")
  case True
  then show ?thesis using ok by (auto simp: fifo_read_ring_def queue_read_spec_def same_shape_def fifo_len_def [symmetric] simp flip: length_0_conv)
next
  case False
  let ?z = "unat (ff_elem_size f)"
  define m where "m = min count (fifo_len f)"
  have le: "fifo_len f \<le> fifo_cap f" "fifo_cap f \<le> 4096" using fifo_ok_bounds [OF ok] by auto
  have m: "(if fifo_len f < count then fifo_len f else count) = m" "m \<le> fifo_len f" "m \<le> 4096" using le by (auto simp: m_def)
  have ne: "fifo_contents f \<noteq> []" using False by (simp flip: length_0_conv)
  show ?thesis
  proof (cases "copy_array_to_user ptr 0 (m * ?z)")
    case True
    obtain f' where f': "fifo_read_loop ptr 0 m [] f = Some (True, [] @ concat (take m (fifo_contents f)), f')" "fifo_ok f'"
        "f' = f\<lparr>ff_tail := ff_tail f + of_nat m\<rparr>" "fifo_contents f' = drop m (fifo_contents f)"
      using read_loop_ok [OF ok m(2) refl True, of "[]"] by blast
    then show ?thesis using False True m ne unat_of_small [OF m(3)]
      by (simp add: fifo_read_ring_def queue_read_spec_def fifo_len_def [symmetric] Let_def same_shape_def fifo_cap_def flip: m_def)
  next
    case F: False
    obtain out t where "fifo_read_loop ptr 0 m [] f = Some (False, out, f\<lparr>ff_tail := t\<rparr>)"
      using read_loop_fault [OF ok m(2) refl F, of "[]"] by blast
    then show ?thesis using False F m ne ok
      by (simp add: fifo_read_ring_def queue_read_spec_def fifo_len_def [symmetric] Let_def same_shape_def flip: m_def)
  qed
qed

text \<open>
  Property C1: a FIFO is a bounded queue of elements. On every well-formed ring both copy loops
  end, also when the copy wraps around the end of the storage and when the 32-bit counters wrap,
  and status, element count, delivered bytes and remaining elements are those of the queue; a
  faulting copy leaves the elements as they were.
\<close>

theorem fifo_refines_queue:
  assumes "fifo_ok f"
  shows "(\<exists>st n f'. fifo_write_ring elem_size src count f = Some (st, n, f') \<and> fifo_ok f' \<and> same_shape f f' \<and>
       queue_write_spec (unat (ff_elem_size f)) (fifo_cap f) elem_size src count (fifo_contents f) = (st, n, fifo_contents f')) \<and>
    (\<exists>st out n f'. fifo_read_ring elem_size dst count has_peer f = Some (st, out, n, f') \<and> fifo_ok f' \<and> same_shape f f' \<and>
       queue_read_spec (unat (ff_elem_size f)) elem_size dst count has_peer (fifo_contents f) =
         (st, if st = ZX_OK then out else [], n, fifo_contents f'))"
  using write_ring_refines [OF assms] read_ring_refines [OF assms] by blast

section \<open>Streams of elements\<close>

definition fifo_push :: "u8 list list \<Rightarrow> fifo \<Rightarrow> nat \<times> fifo" where
  "fifo_push xs f =
     (let z = unat (ff_elem_size f) in
      if list_all (\<lambda>x. length x = z) xs
      then (case fifo_write_ring z (user_of_list (concat xs)) (length xs) f of Some (st, n, f') \<Rightarrow> (n, f') | None \<Rightarrow> (0, f))
      else (0, f))"

definition fifo_pop :: "nat \<Rightarrow> fifo \<Rightarrow> u8 list list \<times> fifo" where
  "fifo_pop n f =
     (let z = unat (ff_elem_size f) in
      case fifo_read_ring z (\<lambda>_. True) n True f of Some (st, out, m, f') \<Rightarrow> (elements z m out, f') | None \<Rightarrow> ([], f))"

lemma elements_concat:
  "\<forall>x \<in> set xs. length x = z \<Longrightarrow> m \<le> length xs \<Longrightarrow> elements z m (take (m * z) (concat xs)) = take m xs"
proof (induction xs arbitrary: m)
  case Nil
  then show ?case by (simp add: elements_def)
next
  case (Cons x xs)
  show ?case
  proof (cases m)
    case 0
    then show ?thesis by (simp add: elements_def)
  next
    case (Suc k)
    have "elements z (1 + k) (x @ take (k * z) (concat xs)) = elements z 1 x @ elements z k (take (k * z) (concat xs))"
      using Cons.prems by (intro elements_append) simp
    moreover have "elements z 1 x = [x]" using Cons.prems by (simp add: elements_def slot_def)
    ultimately show ?thesis using Cons Suc by simp
  qed
qed

lemma length_concat_same: "\<forall>x \<in> set xs. length x = z \<Longrightarrow> length (concat xs) = length xs * z"
  by (induction xs) auto

lemma fifo_element_size:
  assumes "fifo_ok f" "x \<in> set (fifo_contents f)" shows "length x = unat (ff_elem_size f)"
proof -
  obtain j where j: "x = slot (unat (ff_elem_size f)) (ff_data f) (j mod fifo_cap f)"
    using assms(2) by (auto simp: fifo_contents_def)
  have "(j mod fifo_cap f + 1) * unat (ff_elem_size f) \<le> fifo_cap f * unat (ff_elem_size f)"
    using fifo_ok_bounds [OF assms(1)] by (intro mult_le_mono1) (simp add: Suc_leI)
  then show ?thesis using assms(1) by (simp add: j slot_length fifo_ok_def)
qed

lemma fifo_push_spec:
  assumes ok: "fifo_ok f"
  shows "fifo_ok (snd (fifo_push xs f)) \<and> fifo_contents (snd (fifo_push xs f)) = fifo_contents f @ take (fst (fifo_push xs f)) xs"
proof (cases "list_all (\<lambda>x. length x = unat (ff_elem_size f)) xs")
  case True
  let ?z = "unat (ff_elem_size f)"
  have sz: "\<forall>x \<in> set xs. length x = ?z" using True by (simp add: list_all_iff)
  obtain st n f' where w: "fifo_write_ring ?z (user_of_list (concat xs)) (length xs) f = Some (st, n, f')" "fifo_ok f'"
      and q: "queue_write_spec ?z (fifo_cap f) ?z (user_of_list (concat xs)) (length xs) (fifo_contents f) = (st, n, fifo_contents f')"
    using write_ring_refines [OF ok] by blast
  have cp: "copy_array_from_user (user_of_list (concat xs)) 0 (m * ?z) = Some (take (m * ?z) (concat xs))" if "m \<le> length xs" for m
    using that copy_array_from_user_of_list [of 0 "m * ?z" "concat xs"] length_concat_same [OF sz] by simp
  have "fifo_contents f' = fifo_contents f @ take n xs"
    using q cp [of "min (length xs) (fifo_cap f - fifo_len f)"] elements_concat [OF sz, of "min (length xs) (fifo_cap f - fifo_len f)"]
    by (auto simp: queue_write_spec_def Let_def split: if_splits)
  then show ?thesis using True w by (simp add: fifo_push_def Let_def)
qed (use ok in \<open>simp add: fifo_push_def Let_def\<close>)

lemma fifo_pop_spec:
  assumes ok: "fifo_ok f"
  shows "fifo_ok (snd (fifo_pop n f)) \<and> fst (fifo_pop n f) = take n (fifo_contents f) \<and> fifo_contents (snd (fifo_pop n f)) = drop n (fifo_contents f)"
proof -
  let ?z = "unat (ff_elem_size f)" and ?q = "fifo_contents f"
  obtain st out m f' where r: "fifo_read_ring ?z (\<lambda>_. True) n True f = Some (st, out, m, f')" "fifo_ok f'"
      and q: "queue_read_spec ?z ?z (\<lambda>_. True) n True ?q = (st, if st = ZX_OK then out else [], m, fifo_contents f')"
    using read_ring_refines [OF ok] by blast
  have t: "copy_array_to_user (\<lambda>_. True) 0 k" for k by (simp add: copy_array_to_user_def list_all_iff)
  have e: "elements ?z k (concat (take k ?q)) = take k ?q" if "k \<le> length ?q" for k
    using elements_concat [of "take k ?q" ?z k] that fifo_element_size [OF ok] length_concat_same [of "take k ?q" ?z]
    by (auto dest: in_set_takeD)
  have z0: "elements ?z 0 bs = []" for bs by (simp add: elements_def)
  have "elements ?z m out = take n ?q \<and> fifo_contents f' = drop n ?q"
  proof (cases "n = 0 \<or> ?q = []")
    case True
    then have "m = 0 \<and> fifo_contents f' = ?q" using q by (auto simp: queue_read_spec_def split: if_splits)
    then show ?thesis using True z0 by auto
  next
    case False
    then have "st = ZX_OK" "m = min n (length ?q)" "out = concat (take m ?q)" "fifo_contents f' = drop m ?q"
      using q t by (auto simp: queue_read_spec_def Let_def)
    then show ?thesis using e [of m] by (auto simp: min_def split: if_splits)
  qed
  then show ?thesis using r by (simp add: fifo_pop_def Let_def)
qed

interpretation fifo_stream: stream_buffer fifo_ok fifo_contents fifo_push fifo_pop
  by unfold_locales (simp_all add: fifo_push_spec fifo_pop_spec)

text \<open>
  Elements travel through a FIFO in order, none lost, duplicated or altered: after
  any sequence of writes and reads from a well-formed ring, reading what is left completes the
  stream of what was in the ring at first and of all that the writes accepted.
\<close>

lemma fifo_stream_complete:
  assumes "fifo_ok f" "fifo_stream.buffer_run calls f = (ins, outs, f')"
  shows "fifo_ok f' \<and> outs @ fst (fifo_pop (fifo_cap f') f') = fifo_contents f @ ins"
  using fifo_stream.buffer_run_stream [OF assms] fifo_stream.buffer_run_flush [OF assms] fifo_ok_bounds by simp

section \<open>Creation\<close>

lemma fifo_Create_check_shape:
  assumes "fifo_Create_check count elemsize"
  shows "(\<exists>n \<le> 12. unat count = 2 ^ n) \<and> 0 < unat elemsize \<and> unat elemsize \<le> 4096 \<and>
         unat (count * elemsize) = unat count * unat elemsize"
proof -
  have c: "count \<noteq> 0" "elemsize \<noteq> 0" "count AND (count - 1) = 0" "count \<le> 4096" "elemsize \<le> 4096"
    using assms by (auto simp: fifo_Create_check_def kFifoMaxSizeBytes_def not_less)
  have u: "unat count \<le> 4096" "unat elemsize \<le> 4096" using c(4,5) by (simp_all add: word_le_nat_alt)
  have p: "0 < unat count" "0 < unat elemsize" using c(1,2) by (simp_all add: unat_gt_0)
  have "unat (count - 1) = unat count - 1" using p by (simp add: unat_sub word_le_nat_alt Suc_leI)
  then have "unat count AND (unat count - 1) = 0" using c(3) by (metis unsigned_and_eq unat_0)
  then obtain n where n: "unat count = 2 ^ n" using and_pred_power2 [OF p(1)] by blast
  have "n \<le> 12"
  proof (rule ccontr)
    assume "\<not> n \<le> 12"
    then have "(2 :: nat) ^ 13 \<le> 2 ^ n" by (intro power_increasing) auto
    then show False using u(1) n by simp
  qed
  moreover have "unat count * unat elemsize < 2 ^ 64"
    using mult_mono [OF u] by simp
  then have "unat (count * elemsize) = unat count * unat elemsize" by (simp add: unat_word_ariths)
  ultimately show ?thesis using n p u by blast
qed

lemma fifo_Create_ring_ok:
  assumes "fifo_Create_check count elemsize" "length d = unat (count * elemsize)"
  shows "fifo_ok (fifo_ctor (ucast count) (ucast elemsize) d) \<and> fifo_contents (fifo_ctor (ucast count) (ucast elemsize) d) = [] \<and>
         fifo_cap (fifo_ctor (ucast count) (ucast elemsize) d) = unat count"
proof -
  obtain n where n: "n \<le> 12" "unat count = 2 ^ n" and e: "0 < unat elemsize" "unat elemsize \<le> 4096"
    and m: "unat (count * elemsize) = unat count * unat elemsize"
    using fifo_Create_check_shape [OF assms(1)] by blast
  have "(2 :: nat) ^ n \<le> 2 ^ 12" using n(1) by (rule power_increasing) simp
  then have uc: "unat (ucast count :: u32) = 2 ^ n" "unat (ucast elemsize :: u32) = unat elemsize"
    using n e by (simp_all add: unsigned_ucast_eq take_bit_nat_eq_self)
  have "(ucast count :: u32) = of_nat (2 ^ n)" unfolding uc(1) [symmetric] by simp
  then have "(ucast count :: u32) = 2 ^ n" by simp
  then show ?thesis using n(1) uc e m assms(2) n(2)
    by (auto simp: fifo_ok_def fifo_ctor_def fifo_cap_def fifo_len_def fifo_contents_def)
qed

section \<open>Readable and writable\<close>

text \<open>
  One direction of a pair: \<open>k\<close> reads from its ring, \<open>j\<close> writes into it. \<open>k\<close> is readable exactly
  when the ring holds an element; while the pair is connected \<open>j\<close> is writable exactly when the
  ring has room; an endpoint whose peer has closed is not writable.
\<close>

definition fifo_dir_ok :: "koid \<Rightarrow> koid \<Rightarrow> fifo_sys \<Rightarrow> bool" where
  "fifo_dir_ok k j s \<longleftrightarrow>
     fifo_ok (fs_fifo s k) \<and> (bit (sig_of k s) 0 \<longleftrightarrow> 0 < fifo_len (fs_fifo s k)) \<and>
     (pd_peer s k = Some j \<and> pd_peer s j = Some k \<or> pd_peer s k = None \<and> pd_peer s j = None) \<and>
     (pd_peer s k = Some j \<longrightarrow> (bit (sig_of j s) 1 \<longleftrightarrow> fifo_len (fs_fifo s k) < fifo_cap (fs_fifo s k)) \<and> \<not> bit (sig_of j s) 2) \<and>
     (bit (sig_of j s) 2 \<longrightarrow> \<not> bit (sig_of j s) 1)"

inductive fifo_step :: "koid \<Rightarrow> koid \<Rightarrow> fifo_sys \<Rightarrow> fifo_sys \<Rightarrow> bool" for k0 k1 where
  fs_write: "k \<in> {k0, k1} \<Longrightarrow> fifo_WriteFromUser k elem_size src count s = Some (st, n, s') \<Longrightarrow> fifo_step k0 k1 s s'"
| fs_read: "k \<in> {k0, k1} \<Longrightarrow> fifo_ReadToUser k elem_size dst count s = Some (st, out, n, s') \<Longrightarrow> fifo_step k0 k1 s s'"
| fs_close: "k \<in> {k0, k1} \<Longrightarrow> fifo_step k0 k1 s (fifo_close k s)"
| fs_signal: "peered_user_signal_self 0 k c t s = (st, s') \<Longrightarrow> fifo_step k0 k1 s s'"
| fs_signal_peer: "peered_user_signal_peer 0 k c t s = (st, s') \<Longrightarrow> fifo_step k0 k1 s s'"
| fs_other: "\<forall>k. obj_signals (kw_objs w k) = sig_of k s \<Longrightarrow> fifo_step k0 k1 s (s\<lparr>pd_ko := w\<rparr>)"

inductive_cases fifo_stepE: "fifo_step k0 k1 s s'"

lemma fs_fifo_update_state [simp]: "fs_fifo (update_state k c t s) = fs_fifo s"
  by (simp add: update_state_def)

lemma fs_fifo_more: "peered_sys.more s' = peered_sys.more s \<Longrightarrow> fs_fifo s' = fs_fifo s"
  by (cases s; cases s') simp

lemma fifo_word_tests:
  assumes "fifo_ok f"
  shows "(ff_elem_count f - (ff_head f - ff_tail f) = ff_elem_count f) \<longleftrightarrow> fifo_len f = 0"
    "(ff_head f - ff_tail f = ff_elem_count f) \<longleftrightarrow> fifo_len f = fifo_cap f"
    "(ff_elem_count f = ff_head f - ff_tail f) \<longleftrightarrow> fifo_len f = fifo_cap f"
    "(ff_head f - ff_tail f = 0) \<longleftrightarrow> fifo_len f = 0"
proof -
  have "(unat (ff_elem_count f - (ff_head f - ff_tail f)) = unat (ff_elem_count f)) \<longleftrightarrow> fifo_len f = 0"
    unfolding fifo_avail [OF assms] fifo_cap_def [symmetric] using fifo_ok_bounds [OF assms] by auto
  then show "(ff_elem_count f - (ff_head f - ff_tail f) = ff_elem_count f) \<longleftrightarrow> fifo_len f = 0"
    by (simp add: word_unat_eq_iff)
qed (auto simp: fifo_len_def fifo_cap_def word_unat_eq_iff)

lemma queue_write_spec_len:
  "queue_write_spec sz cap elem_size ptr count q = (st, n, q') \<Longrightarrow> length q \<le> cap \<Longrightarrow>
   length q' = length q + (if st = ZX_OK then n else 0) \<and> (st = ZX_OK \<longrightarrow> 0 < n)"
  by (auto simp: queue_write_spec_def Let_def split: if_splits option.splits)

lemma queue_read_spec_len:
  "queue_read_spec sz elem_size ptr count hp q = (st, out, n, q') \<Longrightarrow>
   length q = length q' + (if st = ZX_OK then n else 0) \<and> (st = ZX_OK \<longrightarrow> 0 < n)"
  by (auto simp: queue_read_spec_def Let_def split: if_splits)

lemma write_ring_len:
  assumes ok: "fifo_ok f" and w: "fifo_write_ring elem_size ptr count f = Some (st, n, f')"
  shows "fifo_ok f' \<and> fifo_cap f' = fifo_cap f \<and> fifo_len f' = fifo_len f + (if st = ZX_OK then n else 0) \<and> (st = ZX_OK \<longrightarrow> 0 < n)"
  using write_ring_refines [OF ok, of elem_size ptr count] w queue_write_spec_len [of _ _ _ _ _ _ st n "fifo_contents f'"] fifo_ok_bounds [OF ok]
  by (fastforce simp: same_shape_def)

lemma read_ring_len:
  assumes ok: "fifo_ok f" and w: "fifo_read_ring elem_size ptr count hp f = Some (st, out, n, f')"
  shows "fifo_ok f' \<and> fifo_cap f' = fifo_cap f \<and> fifo_len f = fifo_len f' + (if st = ZX_OK then n else 0) \<and> (st = ZX_OK \<longrightarrow> 0 < n)"
  using read_ring_refines [OF ok, of elem_size ptr count hp] w queue_read_spec_len [of _ _ _ _ _ _ st _ n "fifo_contents f'"]
  by (fastforce simp: same_shape_def)

text \<open>The effect of a write and of a read on the ring and on the signal bits.\<close>

lemma WriteSelf_effect:
  assumes w: "fifo_WriteSelfLocked k elem_size ptr count s = Some (st, n, s')" and ok: "fifo_ok (fs_fifo s k)" and p: "pd_peer s k = Some j"
    and ne: "k \<noteq> j"
  shows "\<exists>f'. fs_fifo s' = (fs_fifo s)(k := f') \<and> pd_peer s' = pd_peer s \<and> fifo_ok f' \<and> fifo_cap f' = fifo_cap (fs_fifo s k) \<and>
    fifo_len f' = fifo_len (fs_fifo s k) + (if st = ZX_OK then n else 0) \<and> (st = ZX_OK \<longrightarrow> 0 < n) \<and>
    (\<forall>i b. bit (sig_of i s') b =
       (if st = ZX_OK \<and> i = k \<and> b = 0 \<and> fifo_len (fs_fifo s k) = 0 then True
        else if st = ZX_OK \<and> i = j \<and> b = 1 \<and> fifo_len f' = fifo_cap f' then False else bit (sig_of i s) b))"
proof -
  obtain st0 n0 f' where r: "fifo_write_ring elem_size ptr count (fs_fifo s k) = Some (st0, n0, f')"
    using write_ring_refines [OF ok] by blast
  note l = write_ring_len [OF ok r]
  have f': "fifo_ok f'" using l by simp
  show ?thesis
  proof (cases "st0 = ZX_OK")
    case True
    define s1 where "s1 = s\<lparr>fs_fifo := (fs_fifo s)(k := f')\<rparr>"
    define s2 where "s2 = (if fifo_len (fs_fifo s k) = 0 then update_state k 0 ZX_FIFO_READABLE s1 else s1)"
    have s': "s' = (if fifo_len f' = fifo_cap f' then update_state j ZX_FIFO_WRITABLE 0 s2 else s2)" and st: "st = ZX_OK" "n = n0"
      using w [unfolded fifo_WriteSelfLocked_def Let_def r p option.case prod.case fifo_word_tests [OF ok] fifo_word_tests [OF f']] True
      by (auto simp: s1_def s2_def)
    have "bit (sig_of i s') b = (if i = k \<and> b = 0 \<and> fifo_len (fs_fifo s k) = 0 then True
        else if i = j \<and> b = 1 \<and> fifo_len f' = fifo_cap f' then False else bit (sig_of i s) b)" for i b
      using ne by (auto simp: s' s2_def s1_def sig_bits)
    then show ?thesis using l st True by (intro exI [of _ f']) (simp add: s' s2_def s1_def)
  next
    case False
    then show ?thesis using w r l by (intro exI [of _ f']) (auto simp: fifo_WriteSelfLocked_def Let_def)
  qed
qed

lemma ReadToUser_effect:
  assumes w: "fifo_ReadToUser k elem_size ptr count s = Some (st, out, n, s')" and ok: "fifo_ok (fs_fifo s k)"
    and p: "pd_peer s k = Some j \<or> pd_peer s k = None" and ne: "k \<noteq> j"
  shows "\<exists>f'. fs_fifo s' = (fs_fifo s)(k := f') \<and> pd_peer s' = pd_peer s \<and> fifo_ok f' \<and> fifo_cap f' = fifo_cap (fs_fifo s k) \<and>
    fifo_len (fs_fifo s k) = fifo_len f' + (if st = ZX_OK then n else 0) \<and> (st = ZX_OK \<longrightarrow> 0 < n) \<and>
    (\<forall>i b. bit (sig_of i s') b =
       (if st = ZX_OK \<and> i = k \<and> b = 0 \<and> fifo_len f' = 0 then False
        else if st = ZX_OK \<and> i = j \<and> b = 1 \<and> pd_peer s k = Some j \<and> fifo_len (fs_fifo s k) = fifo_cap f' then True
        else bit (sig_of i s) b))"
proof -
  obtain st0 out0 n0 f' where r: "fifo_read_ring elem_size ptr count (pd_peer s k \<noteq> None) (fs_fifo s k) = Some (st0, out0, n0, f')"
    using read_ring_refines [OF ok] by blast
  note l = read_ring_len [OF ok r]
  have cap: "fifo_cap f' = fifo_cap (fs_fifo s k)" using l by simp
  have f': "fifo_ok f'" using l by simp
  show ?thesis
  proof (cases "st0 = ZX_OK")
    case True
    define s1 where "s1 = s\<lparr>fs_fifo := (fs_fifo s)(k := f')\<rparr>"
    define s2 where "s2 = (if fifo_len (fs_fifo s k) = fifo_cap (fs_fifo s k) \<and> pd_peer s k = Some j then update_state j 0 ZX_FIFO_WRITABLE s1 else s1)"
    have s': "s' = (if fifo_len f' = 0 then update_state k ZX_FIFO_READABLE 0 s2 else s2)" and st: "st = ZX_OK" "n = n0"
      using w [unfolded fifo_ReadToUser_def Let_def r option.case prod.case fifo_word_tests [OF ok] fifo_word_tests [OF f']] True p
      by (auto simp: s1_def s2_def split: if_splits)
    have "bit (sig_of i s') b = (if i = k \<and> b = 0 \<and> fifo_len f' = 0 then False
        else if i = j \<and> b = 1 \<and> pd_peer s k = Some j \<and> fifo_len (fs_fifo s k) = fifo_cap f' then True else bit (sig_of i s) b)" for i b
      using ne by (auto simp: s' s2_def s1_def sig_bits cap)
    moreover have "fs_fifo s' = (fs_fifo s)(k := f') \<and> pd_peer s' = pd_peer s" by (simp add: s' s2_def s1_def)
    ultimately show ?thesis using l st True by (intro exI [of _ f']) simp
  next
    case False
    then show ?thesis using w r l by (intro exI [of _ f']) (auto simp: fifo_ReadToUser_def Let_def)
  qed
qed

text \<open>A pair of endpoints: both directions.\<close>

definition fifo_pair_ok :: "koid \<Rightarrow> koid \<Rightarrow> fifo_sys \<Rightarrow> bool" where
  "fifo_pair_ok k j s \<longleftrightarrow> fifo_dir_ok k j s \<and> fifo_dir_ok j k s"

lemma fifo_pair_ok_sym: "fifo_pair_ok k j s = fifo_pair_ok j k s"
  by (auto simp: fifo_pair_ok_def)

lemma fifo_pair_ok_cong:
  assumes "fs_fifo s' k = fs_fifo s k" "fs_fifo s' j = fs_fifo s j" "pd_peer s' = pd_peer s"
    "\<And>i b. b < 3 \<Longrightarrow> bit (sig_of i s') b = bit (sig_of i s) b"
  shows "fifo_pair_ok k j s' = fifo_pair_ok k j s"
  using assms by (simp add: fifo_pair_ok_def fifo_dir_ok_def)

lemma fifo_write_pair:
  assumes P: "fifo_pair_ok k j s" and ne: "k \<noteq> j" and w: "fifo_WriteFromUser j elem_size src count s = Some (st, n, s')"
  shows "fifo_pair_ok k j s'"
proof (cases "pd_peer s j")
  case None
  then show ?thesis using P w by (simp add: fifo_WriteFromUser_def)
next
  case (Some x)
  then have p: "pd_peer s j = Some k" "pd_peer s k = Some j" and ok: "fifo_ok (fs_fifo s k)"
    using P by (auto simp: fifo_pair_ok_def fifo_dir_ok_def)
  have "fifo_WriteSelfLocked k elem_size src count s = Some (st, n, s')" using w p by (simp add: fifo_WriteFromUser_def)
  from WriteSelf_effect [OF this ok p(2) ne] obtain f' where f': "fs_fifo s' = (fs_fifo s)(k := f')" "pd_peer s' = pd_peer s"
      "fifo_ok f'" "fifo_cap f' = fifo_cap (fs_fifo s k)" "fifo_len f' = fifo_len (fs_fifo s k) + (if st = ZX_OK then n else 0)"
      "st = ZX_OK \<longrightarrow> 0 < n"
    and b: "\<And>i b. bit (sig_of i s') b = (if st = ZX_OK \<and> i = k \<and> b = 0 \<and> fifo_len (fs_fifo s k) = 0 then True
        else if st = ZX_OK \<and> i = j \<and> b = 1 \<and> fifo_len f' = fifo_cap f' then False else bit (sig_of i s) b)"
    by blast
  have "fifo_len f' \<le> fifo_cap f'" using fifo_ok_bounds [OF f'(3)] by simp
  then have "fifo_dir_ok k j s'" using P p ne f' by (auto simp: fifo_pair_ok_def fifo_dir_ok_def b split: if_splits)
  moreover have "fifo_dir_ok j k s'" using P p ne f' by (auto simp: fifo_pair_ok_def fifo_dir_ok_def b)
  ultimately show ?thesis by (simp add: fifo_pair_ok_def)
qed

lemma fifo_read_pair:
  assumes P: "fifo_pair_ok k j s" and ne: "k \<noteq> j" and r: "fifo_ReadToUser k elem_size dst count s = Some (st, out, n, s')"
  shows "fifo_pair_ok k j s'"
proof -
  have p: "pd_peer s k = Some j \<or> pd_peer s k = None" and ok: "fifo_ok (fs_fifo s k)"
    using P by (auto simp: fifo_pair_ok_def fifo_dir_ok_def)
  from ReadToUser_effect [OF r ok p ne] obtain f' where f': "fs_fifo s' = (fs_fifo s)(k := f')" "pd_peer s' = pd_peer s"
      "fifo_ok f'" "fifo_cap f' = fifo_cap (fs_fifo s k)" "fifo_len (fs_fifo s k) = fifo_len f' + (if st = ZX_OK then n else 0)"
      "st = ZX_OK \<longrightarrow> 0 < n"
    and b: "\<And>i b. bit (sig_of i s') b = (if st = ZX_OK \<and> i = k \<and> b = 0 \<and> fifo_len f' = 0 then False
        else if st = ZX_OK \<and> i = j \<and> b = 1 \<and> pd_peer s k = Some j \<and> fifo_len (fs_fifo s k) = fifo_cap f' then True
        else bit (sig_of i s) b)"
    by blast
  have le: "fifo_len (fs_fifo s k) \<le> fifo_cap f'" using fifo_ok_bounds [OF ok] f'(4) by simp
  have d: "fifo_dir_ok k j s" "fifo_dir_ok j k s" using P by (simp_all add: fifo_pair_ok_def)
  have "fifo_dir_ok k j s'"
    using d(1) ne f' le unfolding fifo_dir_ok_def b by (cases "st = ZX_OK"; cases "pd_peer s k = Some j") (auto split: if_splits)
  moreover have "fifo_dir_ok j k s'" using d(2) ne f' unfolding fifo_dir_ok_def b by auto
  ultimately show ?thesis by (simp add: fifo_pair_ok_def)
qed

lemma fifo_close_pair:
  assumes "fifo_pair_ok k j s" "k \<noteq> j" shows "fifo_pair_ok k j (fifo_close k s)"
proof (cases "pd_peer s k")
  case None
  then have "fifo_close k s = s\<lparr>pd_peer := (pd_peer s)(k := None)\<rparr>"
    by (simp add: peered_on_zero_handles_def fifo_on_zero_handles_locked_def Let_def)
  then show ?thesis using assms(1) None by (auto simp: fifo_pair_ok_def fifo_dir_ok_def)
next
  case (Some x)
  then have "fifo_close k s = update_state j ZX_FIFO_WRITABLE ZX_FIFO_PEER_CLOSED (s\<lparr>pd_peer := (pd_peer s)(k := None, j := None)\<rparr>)"
    using assms(1)
    by (auto simp: peered_on_zero_handles_def fifo_on_zero_handles_locked_def fifo_OnPeerZeroHandlesLocked_def Let_def
        fifo_pair_ok_def fifo_dir_ok_def)
  then show ?thesis using assms Some by (auto simp: fifo_pair_ok_def fifo_dir_ok_def sig_bits)
qed

lemma fifo_step_pair:
  assumes "fifo_step k0 k1 s s'" "fifo_pair_ok k0 k1 s" "k0 \<noteq> k1" shows "fifo_pair_ok k0 k1 s'"
  using assms(1)
proof cases
  case (fs_write k elem_size src count st n)
  then show ?thesis
    using fifo_write_pair [of k0 k1 s] fifo_write_pair [of k1 k0 s] assms(2,3) fifo_pair_ok_sym [of k0 k1] by blast
next
  case (fs_read k elem_size dst count st out n)
  then show ?thesis
    using fifo_read_pair [of k0 k1 s] fifo_read_pair [of k1 k0 s] assms(2,3) fifo_pair_ok_sym [of k0 k1] by blast
next
  case (fs_close k)
  then show ?thesis
    using fifo_close_pair [of k0 k1 s] fifo_close_pair [of k1 k0 s] assms(2,3) fifo_pair_ok_sym [of k0 k1] by blast
next
  case (fs_signal k c t st)
  note e = user_signal_self_bits [OF fs_signal]
  have "fs_fifo s' = fs_fifo s" "pd_peer s' = pd_peer s" using e [of 0] by (auto intro: fs_fifo_more)
  then show ?thesis using assms(2) e fifo_pair_ok_cong [of s' k0 s k1] by simp
next
  case (fs_signal_peer k c t st)
  note e = user_signal_peer_bits [OF fs_signal_peer]
  have "fs_fifo s' = fs_fifo s" "pd_peer s' = pd_peer s" using e [of 0] by (auto intro: fs_fifo_more)
  then show ?thesis using assms(2) e fifo_pair_ok_cong [of s' k0 s k1] by simp
next
  case (fs_other w)
  then show ?thesis using assms(2) fifo_pair_ok_cong [of s' k0 s k1] by simp
qed

lemma fifo_Create_pair:
  assumes "fifo_Create ok junk0 junk1 count elemsize k0 k1 s0 = (ZX_OK, s)" "k0 \<noteq> k1"
  shows "fifo_pair_ok k0 k1 s"
proof -
  have c: "fifo_Create_check count elemsize" using assms(1) by (auto simp: fifo_Create_def split: if_splits)
  define new where "new = (\<lambda>junk :: nat \<Rightarrow> u8. fifo_ctor (ucast count) (ucast elemsize) (map junk [0..<unat (count * elemsize)]))"
  have n: "fifo_ok (new g)" "fifo_contents (new g) = []" "fifo_cap (new g) = unat count" for g
    using fifo_Create_ring_ok [OF c, of "map g [0..<unat (count * elemsize)]"] by (simp_all add: new_def)
  then have l: "fifo_len (new g) = 0" "0 < fifo_cap (new g)" for g
    using length_fifo_contents [of "new g"] fifo_ok_bounds [of "new g"] by simp_all
  have s: "s = init_pair ZX_FIFO_WRITABLE k0 k1 (s0\<lparr>fs_fifo := (fs_fifo s0)(k0 := new junk0, k1 := new junk1)\<rparr>)"
    using assms(1) by (auto simp: fifo_Create_def Let_def new_def split: if_splits)
  have ff: "fs_fifo s = (fs_fifo s0)(k0 := new junk0, k1 := new junk1)" by (simp add: s init_pair_def)
  show ?thesis
    unfolding fifo_pair_ok_def fifo_dir_ok_def ff using assms(2) n(1) l by (simp add: s sig_bits)
qed

lemma fifo_steps_pair: "(fifo_step k0 k1)\<^sup>*\<^sup>* s s' \<Longrightarrow> fifo_pair_ok k0 k1 s \<Longrightarrow> k0 \<noteq> k1 \<Longrightarrow> fifo_pair_ok k0 k1 s'"
  by (induction rule: rtranclp_induct) (auto intro: fifo_step_pair)


section \<open>Examples\<close>

text \<open>A ring of four two-byte elements with two elements in it, at the wrap-around of the ring and of the counters.\<close>

definition fifo_example :: fifo where
  "fifo_example = \<lparr>ff_elem_count = 4, ff_elem_size = 2, ff_mask = 3, ff_head = 1, ff_tail = 0xFFFFFFFF, ff_data = [3, 4, 0, 0, 0, 0, 1, 2]\<rparr>"

lemma fifo_example_ok: "fifo_ok fifo_example"
  unfolding fifo_ok_def by (rule conjI, rule exI [of _ 2]) (simp_all add: fifo_example_def fifo_cap_def fifo_len_def)

lemma fifo_example_contents: "fifo_contents fifo_example = [[1, 2], [3, 4]]"
  by (simp add: fifo_contents_def fifo_example_def fifo_len_def fifo_cap_def slot_def upt_rec)

lemma fifo_example_shape: "unat (ff_elem_size fifo_example) = 2" "fifo_cap fifo_example = 4"
  by (simp_all add: fifo_example_def fifo_cap_def)

theorem fifo_refines_queue_witness:
  "fifo_ok fifo_example \<and>
   (\<exists>f'. fifo_write_ring 2 (user_of_list [9, 8, 7, 6]) 2 fifo_example = Some (ZX_OK, 2, f') \<and>
     fifo_contents f' = [[1, 2], [3, 4], [9, 8], [7, 6]])"
proof -
  have "queue_write_spec 2 4 2 (user_of_list [9, 8, 7, 6]) 2 [[1, 2], [3, 4]] = (ZX_OK, 2, [[1, 2], [3, 4], [9, 8], [7, 6]])"
    using copy_array_from_user_of_list [of 0 4 "[9, 8, 7, 6]"]
    by (simp add: queue_write_spec_def elements_def slot_def upt_rec)
  then show ?thesis
    using fifo_refines_queue [OF fifo_example_ok, of 2 "user_of_list [9, 8, 7, 6]" 2 "\<lambda>_. True" True] fifo_example_ok
    by (auto simp: fifo_example_contents fifo_example_shape)
qed

lemma fifo_stream_complete_witness:
  "fifo_ok fifo_example \<and> (\<exists>ins outs f'. fifo_stream.buffer_run [Push [[9, 8]], Pop 2] fifo_example = (ins, outs, f') \<and>
     outs @ fst (fifo_pop (fifo_cap f') f') = [[1, 2], [3, 4]] @ ins)"
proof -
  obtain ins outs f' where r: "fifo_stream.buffer_run [Push [[9, 8]], Pop 2] fifo_example = (ins, outs, f')"
    by (metis prod_cases3)
  show ?thesis using fifo_stream_complete [OF fifo_example_ok r] fifo_example_ok r fifo_example_contents by auto
qed

definition fifo_sys_example :: fifo_sys where
  "fifo_sys_example = \<lparr>pd_ko = kobj_example, pd_peer = \<lambda>_. None, fs_fifo = \<lambda>_. fifo_example\<rparr>"


end
