(* ===== verification/Region_Space.thy ===== *)
theory Region_Space
  imports Region_Alloc
begin

text \<open>
  Correctness of the region allocator: the space its lists stand for, the invariant, and what
  each operation does to the space.
\<close>

section \<open>Ranges\<close>

abbreviation rb :: "ralloc_region \<Rightarrow> nat" where "rb r \<equiv> unat (rg_base r)"

definition re :: "ralloc_region \<Rightarrow> nat" where "re r = unat (rg_base r) + unat (rg_size r)"

definition rg_ok :: "ralloc_region \<Rightarrow> bool" where
  "rg_ok r \<longleftrightarrow> rb r < re r \<and> re r < 2 ^ 64"

definition rset :: "ralloc_region \<Rightarrow> nat set" where "rset r = {rb r ..< re r}"

definition space :: "ralloc_region list \<Rightarrow> nat set" where "space xs = (\<Union>r \<in> set xs. rset r)"

text \<open>Ranges in order of their bases, \<open>g\<close> apart.\<close>

definition spaced :: "nat \<Rightarrow> ralloc_region list \<Rightarrow> bool" where
  "spaced g xs \<longleftrightarrow> sorted_wrt (\<lambda>x y. re x + g \<le> rb y) xs \<and> (\<forall>x \<in> set xs. rg_ok x)"

lemma unat_u64: "unat (x :: u64) < 2 ^ 64"
proof -
  have "unat x < 2 ^ LENGTH(64)" by (rule unsigned_less)
  then show ?thesis by simp
qed

lemma unat_rg_end: "rg_ok r \<Longrightarrow> unat (rg_end r) = re r"
  by (simp add: rg_ok_def re_def unat_word_ariths)

lemma rg_ok_less [dest]: "rg_ok r \<Longrightarrow> rb r < re r"
  by (simp add: rg_ok_def)

lemma rset_nonempty [simp]: "rg_ok r \<Longrightarrow> rset r \<noteq> {}"
  by (auto simp: rset_def)

lemma spaced_Nil [simp]: "spaced g []"
  by (simp add: spaced_def)

lemma spaced_Cons: "spaced g (x # xs) \<longleftrightarrow> rg_ok x \<and> (\<forall>y \<in> set xs. re x + g \<le> rb y) \<and> spaced g xs"
  by (auto simp: spaced_def)

lemma spaced_ok: "spaced g xs \<Longrightarrow> x \<in> set xs \<Longrightarrow> rg_ok x"
  by (simp add: spaced_def)

lemma spaced_apart:
  "spaced g xs \<Longrightarrow> x \<in> set xs \<Longrightarrow> y \<in> set xs \<Longrightarrow> x \<noteq> y \<Longrightarrow> re x + g \<le> rb y \<or> re y + g \<le> rb x"
  by (induction xs) (auto simp: spaced_Cons)

lemma spaced_distinct: "spaced g xs \<Longrightarrow> distinct xs"
proof (induction xs)
  case (Cons x xs)
  then have "x \<notin> set xs" by (auto simp: spaced_Cons dest!: bspec)
  then show ?case using Cons by (simp add: spaced_Cons)
qed simp

lemma spaced_disjoint:
  assumes "spaced g xs" "x \<in> set xs" "y \<in> set xs" "x \<noteq> y" shows "rset x \<inter> rset y = {}"
  using spaced_apart [OF assms] by (auto simp: rset_def)

lemma spaced_filter: "spaced g xs \<Longrightarrow> spaced g (filter P xs)"
  by (auto simp: spaced_def sorted_wrt_filter)

lemma remove1_eq_filter: "distinct xs \<Longrightarrow> remove1 r xs = filter (\<lambda>x. x \<noteq> r) xs"
  by (simp add: distinct_remove1_removeAll removeAll_filter_not_eq) (metis (mono_tags, lifting) filter_cong)

lemma spaced_remove1: "spaced g xs \<Longrightarrow> spaced g (remove1 r xs)"
  by (simp add: remove1_eq_filter spaced_distinct spaced_filter)

lemma set_tree_insert [simp]: "set (tree_insert lt r xs) = insert r (set xs)"
  by (induction xs) auto

lemma length_tree_insert [simp]: "length (tree_insert lt r xs) = Suc (length xs)"
  by (induction xs) auto

lemma spaced_insert:
  assumes "spaced g xs" "rg_ok r" "\<forall>y \<in> set xs. re y + g \<le> rb r \<or> re r + g \<le> rb y"
  shows "spaced g (insert_by_base r xs)"
  using assms
proof (induction xs)
  case (Cons x xs)
  have o: "rb r < re r" "rb x < re x" using Cons.prems by (auto simp: spaced_Cons rg_ok_def)
  show ?case
  proof (cases "rg_base r < rg_base x")
    case True
    then have "rb r < rb x" by (simp add: word_less_nat_alt)
    then have "re r + g \<le> rb x" using Cons.prems(3) o by auto
    then show ?thesis using Cons.prems True o by (auto simp: spaced_Cons)
  next
    case False
    then have "rb x \<le> rb r" by (simp add: word_less_nat_alt not_less)
    then have "re x + g \<le> rb r" using Cons.prems(3) o by auto
    then show ?thesis using Cons False by (auto simp: spaced_Cons)
  qed
qed (simp add: spaced_Cons)

lemma set_replace_rg: "r \<in> set xs \<Longrightarrow> set (replace_rg r r' xs) = insert r' (set xs - {r})"
  by (auto simp: replace_rg_def)

lemma length_replace_rg [simp]: "length (replace_rg r r' xs) = length xs"
  by (simp add: replace_rg_def)

lemma spaced_replace:
  assumes "spaced g xs" "rg_ok r'" "rb r \<le> rb r'" "re r' \<le> re r"
  shows "spaced g (replace_rg r r' xs)"
proof -
  define f where "f = (\<lambda>x. if x = r then r' else x)"
  have f: "rb x \<le> rb (f x)" "re (f x) \<le> re x" "rg_ok x \<Longrightarrow> rg_ok (f x)" for x using assms(2-4) by (auto simp: f_def)
  have "spaced g (map f xs)" using assms(1)
  proof (induction xs)
    case (Cons x xs)
    have "re (f x) + g \<le> rb (f y)" if "y \<in> set xs" for y
      using Cons.prems that f(2) [of x] f(1) [of y] by (force simp: spaced_Cons)
    then show ?case using Cons f(3) by (simp add: spaced_Cons)
  qed simp
  then show ?thesis by (simp add: replace_rg_def f_def)
qed

section \<open>The size index\<close>

abbreviation sized :: "ralloc_region list \<Rightarrow> bool" where "sized xs \<equiv> sorted_wrt less_by_size xs"

lemma less_by_size_linear: "r \<noteq> x \<Longrightarrow> less_by_size r x \<or> less_by_size x r"
  by (cases r; cases x) (auto simp: less_by_size_def)

lemma less_by_size_trans: "less_by_size a b \<Longrightarrow> less_by_size b c \<Longrightarrow> less_by_size a c"
  by (auto simp: less_by_size_def)

lemma less_by_size_irrefl [simp]: "\<not> less_by_size r r"
  by (simp add: less_by_size_def)

lemma sized_insert: "sized xs \<Longrightarrow> r \<notin> set xs \<Longrightarrow> sized (insert_by_size r xs)"
proof (induction xs)
  case (Cons x xs)
  then have "less_by_size r x \<or> less_by_size x r" using less_by_size_linear by auto
  then show ?case using Cons by (auto dest: less_by_size_trans)
qed simp

lemma sized_distinct: "sized xs \<Longrightarrow> distinct xs"
  by (induction xs) auto

lemma sized_remove1: "sized xs \<Longrightarrow> sized (remove1 r xs)"
  by (simp add: remove1_eq_filter sized_distinct sorted_wrt_filter)

section \<open>Bounds in the base index\<close>

lemma spaced_bases:
  assumes "spaced g (x # xs)" "y \<in> set xs" shows "rg_base x < rg_base y"
proof -
  have "re x + g \<le> rb y" "rb x < re x" using assms by (auto simp: spaced_Cons)
  then show ?thesis by (simp add: word_less_nat_alt)
qed

lemma spaced_takeWhile:
  assumes "spaced g xs" "\<And>x y. rg_base x < rg_base y \<Longrightarrow> P y \<Longrightarrow> P x"
  shows "takeWhile P xs = filter P xs \<and> dropWhile P xs = filter (\<lambda>r. \<not> P r) xs"
  using assms(1)
proof (induction xs)
  case (Cons x xs)
  have "\<not> P x \<Longrightarrow> \<forall>y \<in> set xs. \<not> P y" using assms(2) spaced_bases [OF Cons.prems] by blast
  then show ?case using Cons by (auto simp: spaced_Cons filter_id_conv)
qed simp

lemma upper_bound_eq: "spaced g xs \<Longrightarrow> upper_bound b xs = filter (\<lambda>r. b < rg_base r) xs"
  using spaced_takeWhile [of g xs "\<lambda>r. rg_base r \<le> b"] by (auto simp: upper_bound_def not_le)

lemma last_filter_max:
  assumes "spaced g xs" "filter P xs \<noteq> []"
  shows "last (filter P xs) \<in> set xs \<and> P (last (filter P xs)) \<and>
         (\<forall>y \<in> set xs. P y \<longrightarrow> y = last (filter P xs) \<or> re y + g \<le> rb (last (filter P xs)))"
  using assms
proof (induction xs)
  case (Cons x xs)
  show ?case
  proof (cases "filter P xs = []")
    case True
    then have "\<forall>y \<in> set xs. \<not> P y" by (simp add: filter_empty_conv)
    then show ?thesis using Cons.prems True by (auto split: if_splits)
  next
    case False
    then have *: "last (filter P (x # xs)) = last (filter P xs)" by simp
    show ?thesis unfolding * using Cons.IH False Cons.prems(1) by (auto simp: spaced_Cons)
  qed
qed simp

lemma before_upper_SomeD:
  assumes "spaced g xs" "before_upper b xs = Some r"
  shows "r \<in> set xs \<and> rg_base r \<le> b \<and> (\<forall>y \<in> set xs. y = r \<or> re y + g \<le> rb r \<or> b < rg_base y)"
proof -
  have "takeWhile (\<lambda>r. rg_base r \<le> b) xs = filter (\<lambda>r. rg_base r \<le> b) xs" using spaced_takeWhile [OF assms(1)] by auto
  then have "filter (\<lambda>r. rg_base r \<le> b) xs \<noteq> [] \<and> r = last (filter (\<lambda>r. rg_base r \<le> b) xs)"
    using assms(2) by (auto simp: before_upper_def split: list.splits)
  then show ?thesis using last_filter_max [OF assms(1), of "\<lambda>r. rg_base r \<le> b"] by (auto simp: not_le)
qed

lemma before_upper_NoneD:
  assumes "spaced g xs" "before_upper b xs = None" "y \<in> set xs" shows "b < rg_base y"
proof -
  have "filter (\<lambda>r. rg_base r \<le> b) xs = []"
    using assms(2) spaced_takeWhile [OF assms(1), of "\<lambda>r. rg_base r \<le> b"] by (auto simp: before_upper_def split: list.splits)
  then show ?thesis using assms(3) by (auto simp: filter_empty_conv not_le)
qed

text \<open>The intersection test looks at two neighbours only and is exact.\<close>

lemma Intersects_iff:
  assumes sp: "spaced g xs" and r: "rg_ok r"
  shows "IntersectsLocked xs r \<longleftrightarrow> rset r \<inter> space xs \<noteq> {}"
proof -
  let ?P = "\<lambda>x. rg_base x < rg_base r"
  have tw: "takeWhile ?P xs = filter ?P xs" "dropWhile ?P xs = filter (\<lambda>x. \<not> ?P x) xs"
    using spaced_takeWhile [OF sp, of ?P] by auto
  have e: "unat (rg_end r) = re r" using r by (rule unat_rg_end)
  have meet: "rset r \<inter> rset x \<noteq> {} \<longleftrightarrow> rb x < re r \<and> rb r < re x" if "x \<in> set xs" for x
    using r spaced_ok [OF sp that] by (auto simp: rset_def rg_ok_def)
  have up: "(case dropWhile ?P xs of it # _ \<Rightarrow> rg_base it < rg_end r | [] \<Rightarrow> False) \<longleftrightarrow>
      (\<exists>x \<in> set xs. \<not> ?P x \<and> rset r \<inter> rset x \<noteq> {})"
  proof (cases "dropWhile ?P xs")
    case Nil
    then show ?thesis unfolding tw by (auto simp: filter_empty_conv)
  next
    case (Cons it rest)
    have s: "spaced g (it # rest)" using spaced_filter [OF sp, of "\<lambda>x. \<not> ?P x"] Cons unfolding tw by simp
    have m: "set (it # rest) = {x \<in> set xs. \<not> ?P x}" using Cons unfolding tw by (metis set_filter)
    have low: "rb it \<le> rb x" if "x \<in> set (it # rest)" for x
      using that spaced_bases [OF s, of x] by (auto simp: word_less_nat_alt)
    have it: "it \<in> set xs" "\<not> ?P it" using m by auto
    have hit: "rset r \<inter> rset it \<noteq> {} \<longleftrightarrow> rb it < re r"
      using meet [OF it(1)] it(2) spaced_ok [OF sp it(1)] by (auto simp: word_less_nat_alt rg_ok_def)
    have "(\<exists>x \<in> set xs. \<not> ?P x \<and> rset r \<inter> rset x \<noteq> {}) \<longleftrightarrow> rb it < re r"
      using it hit meet low m by (metis (mono_tags, lifting) mem_Collect_eq order_le_less_trans)
    then show ?thesis using Cons e by (simp add: word_less_nat_alt)
  qed
  have down: "(case before_lower (rg_base r) xs of Some it \<Rightarrow> rg_base r < rg_end it | None \<Rightarrow> False) \<longleftrightarrow>
      (\<exists>x \<in> set xs. ?P x \<and> rset r \<inter> rset x \<noteq> {})"
  proof (cases "filter ?P xs = []")
    case True
    then show ?thesis by (auto simp: before_lower_def tw filter_empty_conv)
  next
    case False
    define it where "it = last (filter ?P xs)"
    have it: "it \<in> set xs" "?P it" "\<And>y. y \<in> set xs \<Longrightarrow> ?P y \<Longrightarrow> y = it \<or> re y + g \<le> rb it"
      using last_filter_max [OF sp False] by (auto simp: it_def)
    have b: "before_lower (rg_base r) xs = Some it" using False by (auto simp: before_lower_def tw it_def split: list.splits)
    have "rset r \<inter> rset it \<noteq> {} \<longleftrightarrow> rb r < re it" using meet [OF it(1)] it(2) r by (auto simp: word_less_nat_alt)
    moreover have "rset r \<inter> rset y = {}" if "y \<in> set xs" "?P y" "y \<noteq> it" for y
      using it(3) [OF that(1,2)] that it(2) by (auto simp: rset_def word_less_nat_alt)
    ultimately show ?thesis using it b unat_rg_end [OF spaced_ok [OF sp it(1)]] by (auto simp: word_less_nat_alt)
  qed
  show ?thesis
    unfolding IntersectsLocked_def lower_bound_def up down by (auto simp: space_def)
qed

section \<open>The invariant\<close>

abbreviation avail :: "region_allocator \<Rightarrow> nat set" where "avail a \<equiv> space (ra_by_base a)"
abbreviation taken :: "region_allocator \<Rightarrow> nat set" where "taken a \<equiv> space (ra_allocated a)"

text \<open>Available ranges do not even touch, and both indexes hold the same ranges.\<close>

definition avail_ok :: "region_allocator \<Rightarrow> bool" where
  "avail_ok a \<longleftrightarrow> spaced 1 (ra_by_base a) \<and> sized (ra_by_size a) \<and> set (ra_by_size a) = set (ra_by_base a)"

definition ra_inv :: "region_allocator \<Rightarrow> bool" where
  "ra_inv a \<longleftrightarrow> avail_ok a \<and> spaced 0 (ra_allocated a) \<and> avail a \<inter> taken a = {} \<and>
     (ra_pool a = None \<longrightarrow> ra_by_base a = [] \<and> ra_allocated a = [])"

text \<open>The records in use and the free ones.\<close>

definition bookkeeping :: "region_allocator \<Rightarrow> nat option" where
  "bookkeeping a = map_option (\<lambda>n. n + length (ra_by_base a) + length (ra_allocated a)) (ra_pool a)"

lemma pool_New_SomeD:
  assumes "pool_New a = Some a'"
  shows "ra_by_base a' = ra_by_base a \<and> ra_by_size a' = ra_by_size a \<and> ra_allocated a' = ra_allocated a \<and>
         ra_pool a' \<noteq> None \<and> ra_pool a \<noteq> None \<and> map_option Suc (bookkeeping a') = bookkeeping a \<and> avail_ok a' = avail_ok a \<and> pool_Delete a' = a"
  using assms by (auto simp: pool_New_def pool_Delete_def bookkeeping_def avail_ok_def split: option.splits nat.splits)

lemma avail_okD:
  assumes "avail_ok a"
  shows "spaced 1 (ra_by_base a)" "sized (ra_by_size a)" "set (ra_by_size a) = set (ra_by_base a)" "distinct (ra_by_base a)" "distinct (ra_by_size a)"
  using assms spaced_distinct sized_distinct by (auto simp: avail_ok_def)

lemma space_Diff:
  assumes "spaced g xs" "r \<in> set xs" shows "(\<Union>x \<in> set xs - {r}. rset x) = space xs - rset r"
  using spaced_disjoint [OF assms(1,2)] assms(2) by (fastforce simp: space_def)

lemma erase_avail_effect:
  assumes "avail_ok a" "r \<in> set (ra_by_base a)"
  shows "avail_ok (erase_avail r a) \<and> set (ra_by_base (erase_avail r a)) = set (ra_by_base a) - {r} \<and>
    avail (erase_avail r a) = avail a - rset r \<and> ra_allocated (erase_avail r a) = ra_allocated a \<and>
    bookkeeping (erase_avail r a) = bookkeeping a \<and> (ra_pool (erase_avail r a) = None) = (ra_pool a = None)"
proof -
  note a = avail_okD [OF assms(1)]
  obtain n where n: "length (ra_by_base a) = Suc n" using assms(2) by (cases "ra_by_base a") auto
  have s: "set (remove1 r (ra_by_base a)) = set (ra_by_base a) - {r}" using a(4) by (rule set_remove1_eq)
  moreover have "space (remove1 r (ra_by_base a)) = space (ra_by_base a) - rset r"
    using space_Diff [OF a(1) assms(2)] by (simp add: space_def s)
  ultimately show ?thesis
    using a assms(2) spaced_remove1 [OF a(1)] sized_remove1 [OF a(2)]
    by (simp add: erase_avail_def pool_Delete_def avail_ok_def bookkeeping_def option.map_comp comp_def length_remove1 n)
qed

lemma resize_avail_effect:
  assumes "avail_ok a" "r \<in> set (ra_by_base a)" "rg_ok r'" "rb r \<le> rb r'" "re r' \<le> re r"
  shows "avail_ok (resize_avail r r' a) \<and> set (ra_by_base (resize_avail r r' a)) = insert r' (set (ra_by_base a) - {r}) \<and>
    avail (resize_avail r r' a) = avail a - (rset r - rset r') \<and> ra_allocated (resize_avail r r' a) = ra_allocated a \<and>
    bookkeeping (resize_avail r r' a) = bookkeeping a \<and> ra_pool (resize_avail r r' a) = ra_pool a"
proof -
  note a = avail_okD [OF assms(1)]
  have s: "set (replace_rg r r' (ra_by_base a)) = insert r' (set (ra_by_base a) - {r})" using assms(2) by (rule set_replace_rg)
  have sub: "rset r' \<subseteq> rset r" using assms(4,5) by (auto simp: rset_def)
  have new: "r' \<notin> set (remove1 r (ra_by_size a))"
  proof
    assume "r' \<in> set (remove1 r (ra_by_size a))"
    then have "r' \<in> set (ra_by_base a)" "r' \<noteq> r" using a(3,5) by (auto simp: set_remove1_eq)
    then have "rset r' \<inter> rset r = {}" using spaced_disjoint [OF a(1)] assms(2) by blast
    then show False using sub assms(3) rset_nonempty by blast
  qed
  have "space (replace_rg r r' (ra_by_base a)) = rset r' \<union> (space (ra_by_base a) - rset r)"
    using space_Diff [OF a(1) assms(2)] by (simp add: space_def s)
  also have "\<dots> = space (ra_by_base a) - (rset r - rset r')" using sub assms(2) by (auto simp: space_def)
  finally have sp: "space (replace_rg r r' (ra_by_base a)) = space (ra_by_base a) - (rset r - rset r')" .
  show ?thesis
    using a s sp spaced_replace [OF a(1) assms(3-5)] sized_insert [OF sized_remove1 [OF a(2)] new]
    by (simp add: resize_avail_def avail_ok_def bookkeeping_def set_remove1_eq)
qed

lemma insert_avail_effect:
  assumes "avail_ok a" "rg_ok r" "\<forall>y \<in> set (ra_by_base a). re y + 1 \<le> rb r \<or> re r + 1 \<le> rb y"
  shows "avail_ok (insert_avail r a) \<and> set (ra_by_base (insert_avail r a)) = insert r (set (ra_by_base a)) \<and>
    avail (insert_avail r a) = avail a \<union> rset r \<and> ra_allocated (insert_avail r a) = ra_allocated a \<and>
    bookkeeping (insert_avail r a) = map_option Suc (bookkeeping a) \<and> ra_pool (insert_avail r a) = ra_pool a"
proof -
  note a = avail_okD [OF assms(1)]
  have "r \<notin> set (ra_by_size a)" using a(3) assms(2,3) by (auto simp: rg_ok_def)
  then show ?thesis
    using a spaced_insert [OF a(1) assms(2,3)] sized_insert [OF a(2)]
    by (auto simp: insert_avail_def avail_ok_def bookkeeping_def space_def option.map_comp comp_def)
qed

section \<open>Adding a region\<close>

text \<open>The frame of the operations: allocated regions stay, records are neither lost nor made.\<close>

definition ra_frame :: "region_allocator \<Rightarrow> region_allocator \<Rightarrow> bool" where
  "ra_frame a a' \<longleftrightarrow> ra_allocated a' = ra_allocated a \<and> bookkeeping a' = bookkeeping a \<and> (ra_pool a' = None) = (ra_pool a = None)"

lemma ra_frame_refl [simp]: "ra_frame a a"
  by (simp add: ra_frame_def)

lemma ra_frame_trans: "ra_frame a b \<Longrightarrow> ra_frame b c \<Longrightarrow> ra_frame a c"
  by (simp add: ra_frame_def)

text \<open>A new range from \<open>B\<close> on: what lies before it keeps its distance, \<open>after\<close> is all that lies behind.\<close>

definition behind :: "nat \<Rightarrow> ralloc_region list \<Rightarrow> region_allocator \<Rightarrow> bool" where
  "behind B after a \<longleftrightarrow> avail_ok a \<and> spaced 1 after \<and> set after \<subseteq> set (ra_by_base a) \<and> (\<forall>y \<in> set after. B < rb y) \<and>
     (\<forall>y \<in> set (ra_by_base a) - set after. re y + 1 \<le> B)"

lemma behind_erase:
  assumes "behind B (x # rest) a" shows "behind B rest (erase_avail x a)"
proof -
  have x: "x \<in> set (ra_by_base a)" "avail_ok a" "x \<notin> set rest"
    using assms spaced_distinct [of 1 "x # rest"] by (auto simp: behind_def)
  show ?thesis using erase_avail_effect [OF x(2,1)] assms x(3) by (auto simp: behind_def spaced_Cons)
qed

lemma erase_frame: "avail_ok a \<Longrightarrow> r \<in> set (ra_by_base a) \<Longrightarrow> ra_frame a (erase_avail r a)"
  by (simp add: ra_frame_def erase_avail_effect)

lemma unat_max: "unat (max x y) = max (unat x) (unat y)"
  by (simp add: max_def word_le_nat_alt)

lemma merge_after_effect:
  assumes "merge_after allow after E a = (E', a')" "behind B after a" "B < unat E"
    "allow \<or> (\<forall>y \<in> set after. unat E \<le> rb y)"
  shows "avail_ok a' \<and> ra_frame a a' \<and> unat E \<le> unat E' \<and> avail a' \<union> {B..<unat E'} = avail a \<union> {B..<unat E} \<and>
    (\<forall>y \<in> set (ra_by_base a'). re y + 1 \<le> B \<or> unat E' + 1 \<le> rb y)"
  using assms
proof (induction allow after E a arbitrary: E' a' rule: merge_after.induct)
  case (1 allow E a)
  then show ?case by (auto simp: behind_def)
next
  case (2 allow x rest E a)
  have x: "x \<in> set (ra_by_base a)" "avail_ok a" "rg_ok x" "B < rb x" "\<forall>y \<in> set rest. re x + 1 \<le> rb y"
    using 2(3) by (auto simp: behind_def spaced_Cons)
  have dist: "\<forall>y \<in> set (ra_by_base a) - set (x # rest). re y + 1 \<le> B" using 2(3) by (simp add: behind_def)
  define touch where "touch \<longleftrightarrow> (if allow then rg_base x \<le> E else E = rg_base x)"
  show ?case
  proof (cases touch)
    case False
    have "unat E + 1 \<le> rb x" using False 2(5) by (auto simp: touch_def word_le_nat_alt word_unat_eq_iff split: if_splits)
    then have "unat E + 1 \<le> rb y" if "y \<in> set (x # rest)" for y using that x(5) rg_ok_less [OF x(3)] by fastforce
    moreover have "E' = E" "a' = a" using 2(2) False by (auto simp: touch_def)
    ultimately show ?thesis using x(2) dist by auto
  next
    case True
    let ?E1 = "max E (rg_end x)" and ?a1 = "erase_avail x a"
    have e: "unat ?E1 = max (unat E) (re x)" by (simp add: unat_max unat_rg_end [OF x(3)])
    have near: "rb x \<le> unat E" using True by (auto simp: touch_def word_le_nat_alt split: if_splits)
    have av: "avail ?a1 = avail a - rset x" "avail_ok ?a1" using erase_avail_effect [OF x(2,1)] by auto
    have "rset x \<subseteq> avail a" using x(1) by (auto simp: space_def)
    then have un: "avail ?a1 \<union> {B..<unat ?E1} = avail a \<union> {B..<unat E}"
      unfolding av e using near x(4) 2(4) by (auto simp: rset_def)
    have fr: "ra_frame a ?a1" by (rule erase_frame [OF x(2,1)])
    show ?thesis
    proof (cases allow)
      case A: True
      have r: "merge_after allow rest ?E1 ?a1 = (E', a')" using 2(2) True A by (simp add: touch_def Let_def)
      have "B < unat ?E1" using 2(4) e by simp
      from 2(1) [OF _ refl refl _ r behind_erase [OF 2(3)] this] True A
      show ?thesis using un e ra_frame_trans [OF fr] by (simp add: touch_def)
    next
      case A: False
      have r: "E' = ?E1" "a' = ?a1" using 2(2) True A by (auto simp: touch_def Let_def)
      have "unat E \<le> re x" using near rg_ok_less [OF x(3)] 2(5) A by auto
      then have "re y + 1 \<le> B \<or> unat ?E1 + 1 \<le> rb y" if "y \<in> set (ra_by_base ?a1)" for y
        using that erase_avail_effect [OF x(2,1)] dist x(5) e by auto
      then show ?thesis using r un fr av(2) e by simp
    qed
  qed
qed

lemma disjoint_rangesD:
  assumes "rg_ok r" "rg_ok y" "rset r \<inter> rset y = {}" shows "re y \<le> rb r \<or> re r \<le> rb y"
proof (rule ccontr)
  assume "\<not> (re y \<le> rb r \<or> re r \<le> rb y)"
  then have "max (rb r) (rb y) \<in> rset r \<inter> rset y" using assms(1,2) by (auto simp: rset_def rg_ok_def)
  then show False using assms(3) by blast
qed

lemma upper_bound_facts:
  assumes "avail_ok a" "after = upper_bound b (ra_by_base a)"
  shows "spaced 1 after \<and> (\<forall>y. y \<in> set after \<longleftrightarrow> y \<in> set (ra_by_base a) \<and> unat b < rb y)"
  using upper_bound_eq [OF avail_okD(1) [OF assms(1)]] spaced_filter [OF avail_okD(1) [OF assms(1)]] assms(2)
  by (simp add: word_less_nat_alt conj_commute)

lemma before_facts:
  assumes ok: "avail_ok a" and b: "before_upper k (ra_by_base a) = Some b" and after: "after = upper_bound k (ra_by_base a)"
  shows "b \<in> set (ra_by_base a) \<and> rg_ok b \<and> rb b \<le> unat k \<and> (\<forall>y \<in> set after. re b + 1 \<le> rb y) \<and>
         (\<forall>y \<in> set (ra_by_base a) - set after. y = b \<or> re y + 1 \<le> rb b)"
proof -
  note A = avail_okD [OF ok]
  have b1: "b \<in> set (ra_by_base a)" "rb b \<le> unat k" and b2: "\<And>y. y \<in> set (ra_by_base a) \<Longrightarrow> y = b \<or> re y + 1 \<le> rb b \<or> unat k < rb y"
    using before_upper_SomeD [OF A(1) b] by (auto simp: word_le_nat_alt word_less_nat_alt)
  have bo: "rg_ok b" by (rule spaced_ok [OF A(1) b1(1)])
  have "re b + 1 \<le> rb y" if "y \<in> set after" for y
  proof -
    have y: "y \<in> set (ra_by_base a)" "unat k < rb y" using upper_bound_facts [OF ok after] that by auto
    then have "b \<noteq> y" using b1(2) by auto
    then show ?thesis using spaced_apart [OF A(1) b1(1) y(1)] y b1(2) rg_ok_less [OF spaced_ok [OF A(1) y(1)]] by auto
  qed
  then show ?thesis using b1 b2 bo upper_bound_facts [OF ok after] by blast
qed

text \<open>Apart from the regions that will be merged, the available ones stay clear of a new region.\<close>

definition merge_ready :: "bool \<Rightarrow> ralloc_region list \<Rightarrow> ralloc_region \<Rightarrow> region_allocator \<Rightarrow> nat \<Rightarrow> u64 \<Rightarrow> region_allocator \<Rightarrow> bool" where
  "merge_ready allow after r a B E a1 \<longleftrightarrow> behind B after a1 \<and> ra_frame a a1 \<and> B < unat E \<and>
     avail a1 \<union> {B..<unat E} = avail a \<union> rset r \<and> (allow \<or> (\<forall>y \<in> set after. unat E \<le> rb y))"

lemma merge_ready_alone:
  assumes ok: "avail_ok a" and r: "rg_ok r" and after: "after = upper_bound (rg_base r) (ra_by_base a)"
    and far: "\<forall>y \<in> set (ra_by_base a) - set after. re y + 1 \<le> rb r"
    and dj: "allow \<or> (\<forall>y \<in> set after. re r \<le> rb y)"
  shows "merge_ready allow after r a (rb r) (rg_end r) a"
  using ok r far dj upper_bound_facts [OF ok after] unat_rg_end [OF r]
  by (auto simp: merge_ready_def behind_def rset_def)

lemma merge_ready_before:
  assumes ok: "avail_ok a" and r: "rg_ok r" and after: "after = upper_bound (rg_base r) (ra_by_base a)"
    and b: "before_upper (rg_base r) (ra_by_base a) = Some b" and near: "rb r \<le> re b"
    and dj: "allow \<or> (\<forall>y \<in> set after. re r \<le> rb y)"
  shows "merge_ready allow after r a (rb b) (max (rg_end r) (rg_end b)) (erase_avail b a)"
proof -
  have bf: "b \<in> set (ra_by_base a)" "rg_ok b" "rb b \<le> rb r" "\<forall>y \<in> set after. re b + 1 \<le> rb y"
    "\<forall>y \<in> set (ra_by_base a) - set after. y = b \<or> re y + 1 \<le> rb b"
    using before_facts [OF ok b after] by auto
  note e = erase_avail_effect [OF ok bf(1)]
  have ue: "unat (max (rg_end r) (rg_end b)) = max (re r) (re b)" by (simp add: unat_max unat_rg_end [OF r] unat_rg_end [OF bf(2)])
  have nb: "b \<notin> set after" using bf(4) rg_ok_less [OF bf(2)] by fastforce
  have lt: "\<forall>y \<in> set after. rb b < rb y" using bf(4) rg_ok_less [OF bf(2)] by fastforce
  have "behind (rb b) after (erase_avail b a)"
    using e bf(5) nb lt upper_bound_facts [OF ok after] by (auto simp: behind_def)
  moreover have "rset b \<subseteq> avail a" using bf(1) by (auto simp: space_def)
  then have "(avail a - rset b) \<union> {rb b..<max (re r) (re b)} = avail a \<union> rset r" using bf(3) near by (auto simp: rset_def less_max_iff_disj subset_iff)
  moreover have "allow \<or> (\<forall>y \<in> set after. max (re r) (re b) \<le> rb y)" using dj bf(4) by fastforce
  moreover have "rb b < max (re r) (re b)" using rg_ok_less [OF bf(2)] by simp
  ultimately show ?thesis using e ue erase_frame [OF ok bf(1)] by (simp add: merge_ready_def)
qed

lemma merge_before_effect:
  assumes ok: "avail_ok a" and r: "rg_ok r" and after: "after = upper_bound (rg_base r) (ra_by_base a)"
    and dj: "allow \<or> rset r \<inter> avail a = {}" and m: "merge_before allow r a = (B, E, a1)"
  shows "merge_ready allow after r a (unat B) E a1"
proof -
  note A = avail_okD [OF ok]
  have dj': "re y \<le> rb r \<or> re r \<le> rb y" if "y \<in> set (ra_by_base a)" "\<not> allow" for y
    using disjoint_rangesD [OF r spaced_ok [OF A(1) that(1)]] dj that by (auto simp: space_def)
  have up: "y \<in> set (ra_by_base a) \<and> rb r < rb y" if "y \<in> set after" for y using upper_bound_facts [OF ok after] that by blast
  have da: "allow \<or> (\<forall>y \<in> set after. re r \<le> rb y)"
    using dj' up spaced_ok [OF A(1)] by (meson leD less_or_eq_imp_le not_le order_trans rg_ok_less)
  show ?thesis
  proof (cases "before_upper (rg_base r) (ra_by_base a)")
    case None
    have "y \<in> set after" if "y \<in> set (ra_by_base a)" for y
      using upper_bound_facts [OF ok after] before_upper_NoneD [OF A(1) None that] that by (simp add: word_less_nat_alt)
    then show ?thesis using m None merge_ready_alone [OF ok r after _ da] by (auto simp: merge_before_def)
  next
    case (Some b)
    have bf: "b \<in> set (ra_by_base a)" "rg_ok b" "rb b \<le> rb r" "\<forall>y \<in> set (ra_by_base a) - set after. y = b \<or> re y + 1 \<le> rb b"
      using before_facts [OF ok Some after] by auto
    have db: "\<not> allow \<Longrightarrow> re b \<le> rb r" using dj' [OF bf(1)] bf(3) rg_ok_less [OF r] by fastforce
    have touch: "(if allow then rg_base r \<le> rg_end b else rg_end b = rg_base r) \<longleftrightarrow> rb r \<le> re b"
      using unat_rg_end [OF bf(2)] db by (auto simp: word_le_nat_alt word_unat_eq_iff)
    show ?thesis
    proof (cases "rb r \<le> re b")
      case True
      then show ?thesis using m Some touch merge_ready_before [OF ok r after Some True da] by (auto simp: merge_before_def)
    next
      case False
      then have "re y + 1 \<le> rb r" if "y \<in> set (ra_by_base a) - set after" for y
        using bf(3) bspec [OF bf(4) that] by auto
      then show ?thesis using m Some touch False merge_ready_alone [OF ok r after _ da] by (auto simp: merge_before_def)
    qed
  qed
qed

lemma AddRegionToAvail_effect:
  assumes ok: "avail_ok a" and r: "rg_ok r" and dj: "allow \<or> rset r \<inter> avail a = {}"
    and a': "a' = AddRegionToAvailLocked allow r a"
  shows "avail_ok a' \<and> avail a' = avail a \<union> rset r \<and> ra_allocated a' = ra_allocated a \<and>
    bookkeeping a' = map_option Suc (bookkeeping a) \<and> (ra_pool a' = None) = (ra_pool a = None)"
proof -
  let ?after = "upper_bound (rg_base r) (ra_by_base a)"
  obtain B E a1 where start: "merge_before allow r a = (B, E, a1)" by (metis prod_cases3)
  obtain E' a2 where m: "merge_after allow ?after E a1 = (E', a2)" by fastforce
  have 1: "behind (unat B) ?after a1" "ra_frame a a1" "unat B < unat E" "avail a1 \<union> {unat B..<unat E} = avail a \<union> rset r"
      "allow \<or> (\<forall>y \<in> set ?after. unat E \<le> rb y)"
    using merge_before_effect [OF ok r refl dj start] by (simp_all add: merge_ready_def)
  have 2: "avail_ok a2" "ra_frame a1 a2" "unat E \<le> unat E'" "avail a2 \<union> {unat B..<unat E'} = avail a1 \<union> {unat B..<unat E}"
      "\<forall>y \<in> set (ra_by_base a2). re y + 1 \<le> unat B \<or> unat E' + 1 \<le> rb y"
    using merge_after_effect [OF m 1(1,3,5)] by simp_all
  define r' where "r' = \<lparr>rg_base = B, rg_size = E' - B\<rparr>"
  have "unat (E' - B) = unat E' - unat B" using 1(3) 2(3) by (intro unat_sub) (simp add: word_le_nat_alt)
  then have r': "rb r' = unat B" "re r' = unat E'" "rg_ok r'"
    using 1(3) 2(3) unat_u64 [of E'] by (simp_all add: r'_def re_def rg_ok_def)
  have "a' = insert_avail r' a2" using start m by (simp add: a' AddRegionToAvailLocked_def Let_def r'_def)
  moreover have "avail (insert_avail r' a2) = avail a \<union> rset r"
    using insert_avail_effect [OF 2(1) r'(3)] 2(4,5) 1(4) r'(1,2) by (simp add: rset_def)
  ultimately show ?thesis
    using insert_avail_effect [OF 2(1) r'(3)] 2(5) r'(1,2) ra_frame_trans [OF 1(2) 2(2)] by (simp add: ra_frame_def)
qed

section \<open>Subtracting a region\<close>

lemma trim_after_effect:
  assumes "avail_ok a" "spaced 1 after" "set after \<subseteq> set (ra_by_base a)" "\<forall>y \<in> set after. B \<le> rb y"
    "\<forall>y \<in> set (ra_by_base a) - set after. re y \<le> B"
  shows "avail_ok (trim_after after E a) \<and> ra_frame a (trim_after after E a) \<and> avail (trim_after after E a) = avail a - {B..<unat E}"
  using assms
proof (induction after E a rule: trim_after.induct)
  case (1 E a)
  then show ?case by (auto simp: space_def rset_def)
next
  case (2 x rest E a)
  have x: "x \<in> set (ra_by_base a)" "rg_ok x" "B \<le> rb x" and rest: "\<forall>y \<in> set rest. re x + 1 \<le> rb y" "x \<notin> set rest"
    using 2(3-5) spaced_distinct [OF 2(3)] by (auto simp: spaced_Cons)
  have xe: "unat (rg_end x) = re x" by (rule unat_rg_end [OF x(2)])
  have cut: "v \<in> rset x" if v: "v \<in> avail a" "B \<le> v" "v < re x + 1" for v
  proof -
    obtain y where y: "y \<in> set (ra_by_base a)" "rb y \<le> v" "v < re y" using v(1) by (auto simp: space_def rset_def)
    have "y \<in> set (x # rest)" using bspec [OF 2(6), of y] y v by force
    moreover have "y \<notin> set rest" using bspec [OF rest(1), of y] y v by force
    ultimately show ?thesis using y by (simp add: rset_def)
  qed
  have sub: "rset x \<subseteq> avail a" using x(1) by (auto simp: space_def)
  consider (above) "unat E \<le> rb x" | (part) "rb x < unat E" "unat E < re x" | (all) "re x \<le> unat E"
    by linarith
  then show ?case
  proof cases
    case above
    then have "v \<notin> {B..<unat E}" if "v \<in> avail a" for v using cut [OF that] x(2) by (auto simp: rset_def rg_ok_def)
    then show ?thesis using above 2(2) by (auto simp: word_le_nat_alt)
  next
    case part
    let ?x = "\<lparr>rg_base = E, rg_size = rg_end x - E\<rparr>"
    have "unat (rg_end x - E) = re x - unat E" using part(2) xe by (subst unat_sub) (simp_all add: word_le_nat_alt)
    then have x': "rb ?x = unat E" "re ?x = re x" "rg_ok ?x" using part(2) x(2) by (simp_all add: re_def rg_ok_def)
    have "avail a - (rset x - rset ?x) = avail a - {B..<unat E}"
      using cut part x(3) x'(1,2) by (fastforce simp: rset_def)
    then show ?thesis
      using part xe resize_avail_effect [OF 2(2) x(1) x'(3)] x'(1,2)
      by (simp add: word_le_nat_alt word_less_nat_alt ra_frame_def)
  next
    case all
    note e = erase_avail_effect [OF 2(2) x(1)]
    have ne: "\<not> E \<le> rg_base x" "\<not> E < rg_end x" using all xe x(2) by (auto simp: word_le_nat_alt word_less_nat_alt rg_ok_def)
    show ?thesis
    proof (cases "E = rg_end x")
      case True
      then have "avail a - rset x = avail a - {B..<unat E}" using cut xe x(3) by (fastforce simp: rset_def)
      then show ?thesis using ne True e by (simp add: ra_frame_def)
    next
      case False
      have pre: "spaced 1 rest" "set rest \<subseteq> set (ra_by_base (erase_avail x a))" "\<forall>y \<in> set rest. B \<le> rb y"
        "\<forall>y \<in> set (ra_by_base (erase_avail x a)) - set rest. re y \<le> B"
        using 2(3-6) e rest(2) by (auto simp: spaced_Cons)
      have "avail a - rset x - {B..<unat E} = avail a - {B..<unat E}" using all x(3) by (auto simp: rset_def)
      then show ?thesis
        using 2(1) [OF ne _ _ pre] False ne e ra_frame_trans [OF erase_frame [OF 2(2) x(1)]] by simp
    qed
  qed
qed

text \<open>A hole in the middle of an available region leaves two regions.\<close>

lemma split_avail_effect:
  assumes ok: "avail_ok a" and b: "b \<in> set (ra_by_base a)" and f: "rg_ok f" "rb f = rb b" "re f = B"
    and s: "rg_ok s" "rb s = E" "re s = re b" and "B < E" and a': "a' = insert_avail s (resize_avail b f a)"
  shows "avail_ok a' \<and> avail a' = avail a - {B..<E} \<and> ra_allocated a' = ra_allocated a \<and>
    bookkeeping a' = map_option Suc (bookkeeping a) \<and> ra_pool a' = ra_pool a"
proof -
  define a2 where "a2 = resize_avail b f a"
  have lt: "rb b < B" "E < re b" using f s by (auto simp: rg_ok_def)
  then have le: "rb b \<le> rb f" "re f \<le> re b" using f(2,3) assms(9) by auto
  have e2: "avail_ok a2" "set (ra_by_base a2) = insert f (set (ra_by_base a) - {b})" "avail a2 = avail a - (rset b - rset f)"
      "ra_allocated a2 = ra_allocated a" "bookkeeping a2 = bookkeeping a" "ra_pool a2 = ra_pool a"
    using resize_avail_effect [OF ok b f(1) le] by (auto simp: a2_def)
  have "re y + 1 \<le> rb s \<or> re s + 1 \<le> rb y" if "y \<in> set (ra_by_base a2)" for y
    using that e2(2) f s spaced_apart [OF avail_okD(1) [OF ok] b, of y] lt assms(9) by auto
  then have i: "avail_ok (insert_avail s a2) \<and> avail (insert_avail s a2) = avail a2 \<union> rset s \<and>
      ra_allocated (insert_avail s a2) = ra_allocated a2 \<and> bookkeeping (insert_avail s a2) = map_option Suc (bookkeeping a2) \<and>
      ra_pool (insert_avail s a2) = ra_pool a2"
    using insert_avail_effect [OF e2(1) s(1)] by simp
  have "rset b \<subseteq> avail a" using b by (auto simp: space_def)
  then have "avail a2 \<union> rset s = avail a - {B..<E}" using lt f(2,3) s(2,3) assms(9) unfolding e2(3) by (auto simp: rset_def subset_iff)
  then show ?thesis using i e2 a' by (simp add: a2_def [symmetric])
qed

lemma subtract_contained_effect:
  assumes ok: "avail_ok a" and b: "b \<in> set (ra_by_base a)" and r: "rg_ok r" and lo: "rb b \<le> rb r" and hi: "re r \<le> re b"
    and res: "subtract_contained r b a = (st, a')"
  shows "if st = ZX_OK then avail_ok a' \<and> ra_frame a a' \<and> avail a' = avail a - rset r
         else st = ZX_ERR_NO_MEMORY \<and> a' = a \<and> pool_New a = None"
proof -
  have bo: "rg_ok b" by (rule spaced_ok [OF avail_okD(1) [OF ok] b])
  have ue: "unat (rg_end r) = re r" "unat (rg_end b) = re b" by (rule unat_rg_end, rule r, rule unat_rg_end, rule bo)
  have eqs: "rg_base r = rg_base b \<longleftrightarrow> rb r = rb b" "rg_end r = rg_end b \<longleftrightarrow> re r = re b"
    using ue by (auto simp: word_unat_eq_iff)
  have sub: "rset b \<subseteq> avail a" using b by (auto simp: space_def)
  have sizes: "unat (rg_size b - rg_size r) = unat (rg_size b) - unat (rg_size r)"
    using lo hi by (intro unat_sub) (simp add: word_le_nat_alt re_def)
  consider (same) "rb r = rb b" "re r = re b" | (mid) "rb r \<noteq> rb b" "re r \<noteq> re b" | (front) "rb r = rb b" "re r \<noteq> re b" | (rear) "rb r \<noteq> rb b" "re r = re b"
    by blast
  then show ?thesis
  proof cases
    case same
    then have "rset r = rset b" by (simp add: rset_def)
    then show ?thesis using same res eqs erase_avail_effect [OF ok b] by (auto simp: subtract_contained_def ra_frame_def)
  next
    case mid
    let ?f = "\<lparr>rg_base = rg_base b, rg_size = rg_base r - rg_base b\<rparr>" and ?s = "\<lparr>rg_base = rg_end r, rg_size = rg_end b - rg_end r\<rparr>"
    have f: "rb ?f = rb b" "re ?f = rb r" "rg_ok ?f"
      using lo mid(1) hi r bo by (simp_all add: re_def rg_ok_def unat_sub word_le_nat_alt)
    have s: "rb ?s = re r" "re ?s = re b" "rg_ok ?s"
      using hi mid(2) bo ue by (simp_all add: re_def [of ?s] rg_ok_def unat_sub word_le_nat_alt)
    show ?thesis
    proof (cases "pool_New a")
      case None
      then show ?thesis using mid res eqs by (auto simp: subtract_contained_def)
    next
      case (Some a1)
      note p = pool_New_SomeD [OF Some]
      have "avail_ok a1" "b \<in> set (ra_by_base a1)" using p ok b by auto
      note e = split_avail_effect [OF this f(3,1,2) s(3,1,2) rg_ok_less [OF r] refl]
      have "(st, a') = (ZX_OK, insert_avail ?s (resize_avail b ?f a1))" using res mid eqs Some by (simp add: subtract_contained_def)
      then show ?thesis using e p by (auto simp: ra_frame_def rset_def)
    qed
  next
    case front
    let ?f = "\<lparr>rg_base = rg_base b + rg_size r, rg_size = rg_size b - rg_size r\<rparr>"
    have "unat (rg_base b + rg_size r) = re r" using ue(1) front eqs by simp
    then have f: "rb ?f = re r" "re ?f = re b" "rg_ok ?f"
      using hi front bo sizes by (auto simp: re_def rg_ok_def)
    have "avail a - (rset b - rset ?f) = avail a - rset r" using f(1,2) front hi by (auto simp: rset_def)
    then show ?thesis using res front eqs resize_avail_effect [OF ok b f(3)] f(1,2) rg_ok_less [OF r] by (auto simp: subtract_contained_def ra_frame_def)
  next
    case rear
    let ?f = "\<lparr>rg_base = rg_base b, rg_size = rg_size b - rg_size r\<rparr>"
    have f: "rb ?f = rb b" "re ?f = rb r" "rg_ok ?f"
      using lo hi rear bo r sizes by (auto simp: re_def rg_ok_def)
    have "avail a - (rset b - rset ?f) = avail a - rset r" using f(1,2) rear lo by (auto simp: rset_def)
    then show ?thesis using res rear eqs resize_avail_effect [OF ok b f(3)] f(1,2) hi rg_ok_less [OF r] by (auto simp: subtract_contained_def ra_frame_def)
  qed
qed

text \<open>A range inside the available space lies in one available region, because these do not touch.\<close>

lemma range_in_one:
  assumes "spaced 1 xs" "{B..<E} \<subseteq> space xs" "B < E"
  shows "\<exists>r \<in> set xs. rb r \<le> B \<and> E \<le> re r"
proof -
  obtain r where r: "r \<in> set xs" "rb r \<le> B" "B < re r" using assms(2,3) by (force simp: space_def rset_def)
  have "E \<le> re r"
  proof (rule ccontr)
    assume "\<not> E \<le> re r"
    then have "re r \<in> space xs" using assms(2) r by auto
    then obtain y where y: "y \<in> set xs" "rb y \<le> re r" "re r < re y" by (auto simp: space_def rset_def)
    then have "y \<noteq> r" by auto
    then show False using spaced_apart [OF assms(1) r(1) y(1)] y r by auto
  qed
  then show ?thesis using r by blast
qed

lemma before_contains_iff:
  assumes ok: "avail_ok a" and r: "rg_ok r"
  shows "rset r \<subseteq> avail a \<longleftrightarrow> (\<exists>b. before_upper (rg_base r) (ra_by_base a) = Some b \<and> re r \<le> re b)"
proof
  assume "rset r \<subseteq> avail a"
  then obtain x where x: "x \<in> set (ra_by_base a)" "rb x \<le> rb r" "re r \<le> re x"
    using range_in_one [OF avail_okD(1) [OF ok], of "rb r" "re r"] r by (auto simp: rset_def)
  have "before_upper (rg_base r) (ra_by_base a) \<noteq> None"
    using before_upper_NoneD [OF avail_okD(1) [OF ok] _ x(1), of "rg_base r"] x(2) by (auto simp: word_less_nat_alt)
  then obtain b where b: "before_upper (rg_base r) (ra_by_base a) = Some b" by blast
  have bf: "b \<in> set (ra_by_base a)" "rb b \<le> rb r" "x = b \<or> re x + 1 \<le> rb b \<or> rb r < rb x"
    using before_upper_SomeD [OF avail_okD(1) [OF ok] b] x(1) by (auto simp: word_le_nat_alt word_less_nat_alt)
  then have "x = b" using x rg_ok_less [OF r] by auto
  then show "\<exists>b. before_upper (rg_base r) (ra_by_base a) = Some b \<and> re r \<le> re b" using b x by blast
next
  assume "\<exists>b. before_upper (rg_base r) (ra_by_base a) = Some b \<and> re r \<le> re b"
  then obtain b where b: "before_upper (rg_base r) (ra_by_base a) = Some b" "re r \<le> re b" by blast
  have "b \<in> set (ra_by_base a)" "rb b \<le> rb r" using before_facts [OF ok b(1) refl] by auto
  then show "rset r \<subseteq> avail a" using b(2) by (auto simp: space_def rset_def)
qed

lemma sanity_check_iff:
  assumes "ra_inv a"
  shows "AddSubtractSanityCheckLocked r a = ZX_OK \<longleftrightarrow> ra_pool a \<noteq> None \<and> rg_ok r \<and> rset r \<inter> taken a = {}"
    "AddSubtractSanityCheckLocked r a \<in> {ZX_OK, ZX_ERR_BAD_STATE, ZX_ERR_INVALID_ARGS}"
proof -
  have "rg_base r < rg_end r \<longleftrightarrow> rg_ok r"
    using unat_u64 [of "rg_base r"] unat_u64 [of "rg_size r"]
    by (auto simp: rg_ok_def re_def word_less_nat_alt unat_word_ariths mod_if split: if_splits)
  then show "AddSubtractSanityCheckLocked r a = ZX_OK \<longleftrightarrow> ra_pool a \<noteq> None \<and> rg_ok r \<and> rset r \<inter> taken a = {}"
    using assms Intersects_iff [of 0 "ra_allocated a" r] by (auto simp: AddSubtractSanityCheckLocked_def ra_inv_def not_le)
  show "AddSubtractSanityCheckLocked r a \<in> {ZX_OK, ZX_ERR_BAD_STATE, ZX_ERR_INVALID_ARGS}"
    by (simp add: AddSubtractSanityCheckLocked_def)
qed

lemma AddRegion_effect:
  assumes inv: "ra_inv a" and res: "ra_AddRegion r allow a = (st, a')"
  shows "ra_inv a' \<and> bookkeeping a' = bookkeeping a \<and> ra_allocated a' = ra_allocated a \<and>
    (st = ZX_OK \<longrightarrow> avail a' = avail a \<union> rset r) \<and> (st \<noteq> ZX_OK \<longrightarrow> a' = a) \<and>
    (st = ZX_OK \<longleftrightarrow> pool_New a \<noteq> None \<and> rg_ok r \<and> rset r \<inter> taken a = {} \<and> (allow \<or> rset r \<inter> avail a = {})) \<and>
    (st = ZX_ERR_NO_MEMORY \<longrightarrow> pool_New a = None)"
proof -
  have ok: "avail_ok a" using inv by (simp add: ra_inv_def)
  show ?thesis
  proof (cases "AddSubtractSanityCheckLocked r a = ZX_OK")
    case False
    then have "st = AddSubtractSanityCheckLocked r a" "a' = a" using res by (auto simp: ra_AddRegion_def Let_def)
    then show ?thesis using inv False sanity_check_iff [OF inv, of r] pool_New_SomeD by auto
  next
    case True
    have r: "rg_ok r" "rset r \<inter> taken a = {}" using sanity_check_iff [OF inv] True by auto
    have I: "IntersectsLocked (ra_by_base a) r \<longleftrightarrow> rset r \<inter> avail a \<noteq> {}" by (rule Intersects_iff [OF avail_okD(1) [OF ok] r(1)])
    show ?thesis
    proof (cases "allow \<or> rset r \<inter> avail a = {}")
      case no: False
      then show ?thesis using res True I inv by (auto simp: ra_AddRegion_def)
    next
      case yes: True
      show ?thesis
      proof (cases "pool_New a")
        case None
        then show ?thesis using res True I inv yes by (auto simp: ra_AddRegion_def)
      next
        case (Some a1)
        note p = pool_New_SomeD [OF Some]
        have s: "st = ZX_OK" "a' = AddRegionToAvailLocked allow r a1" using res True I yes Some by (auto simp: ra_AddRegion_def)
        have "avail_ok a'" "avail a' = avail a \<union> rset r" "ra_allocated a' = ra_allocated a"
          "bookkeeping a' = map_option Suc (bookkeeping a1)" "ra_pool a' \<noteq> None"
          using AddRegionToAvail_effect [OF _ r(1) _ s(2)] p ok yes by auto
        then show ?thesis using s p inv r yes Some by (auto simp: ra_inv_def)
      qed
    qed
  qed
qed

lemma SubtractRegion_frame:
  assumes "ra_inv a" "avail_ok a'" "ra_frame a a'" "avail a' \<subseteq> avail a" shows "ra_inv a'"
proof -
  have "ra_pool a' = None \<Longrightarrow> avail a' = {}" using assms by (auto simp: ra_inv_def ra_frame_def space_def)
  then have "ra_pool a' = None \<Longrightarrow> ra_by_base a' = []"
    using spaced_ok [OF avail_okD(1) [OF assms(2)]] rset_nonempty by (cases "ra_by_base a'") (auto simp: space_def)
  then show ?thesis using assms by (auto simp: ra_inv_def ra_frame_def)
qed

text \<open>Trimming the region that reaches into the subtracted range from below.\<close>

lemma trim_before_effect:
  assumes ok: "avail_ok a" and r: "rg_ok r" and b: "before_upper (rg_base r) (ra_by_base a) = Some b" and out: "re b < re r"
    and a1: "a1 = (if rg_base r < rg_end b then (if rg_base b = rg_base r then erase_avail b a
             else resize_avail b \<lparr>rg_base = rg_base b, rg_size = rg_base r - rg_base b\<rparr> a) else a)"
    and after: "after = upper_bound (rg_base r) (ra_by_base a)"
  shows "avail_ok a1 \<and> ra_frame a a1 \<and> avail a1 - rset r = avail a - rset r \<and> avail a1 \<subseteq> avail a \<and> set after \<subseteq> set (ra_by_base a1) \<and>
         (\<forall>y \<in> set (ra_by_base a1) - set after. re y \<le> rb r)"
proof -
  have bf: "b \<in> set (ra_by_base a)" "rg_ok b" "rb b \<le> rb r" "\<forall>y \<in> set after. re b + 1 \<le> rb y"
    "\<forall>y \<in> set (ra_by_base a) - set after. y = b \<or> re y + 1 \<le> rb b"
    using before_facts [OF ok b after] by auto
  have e: "unat (rg_end b) = re b" by (rule unat_rg_end [OF bf(2)])
  have nb: "b \<notin> set after" using bf(4) rg_ok_less [OF bf(2)] by fastforce
  have up: "set after \<subseteq> set (ra_by_base a)" using upper_bound_facts [OF ok after] by blast
  have low: "re y \<le> rb r" if "y \<in> set (ra_by_base a) - set after" "y \<noteq> b" for y using bspec [OF bf(5) that(1)] that bf(3) by auto
  have sub: "rset b - {rb b..<rb r} \<subseteq> rset r" using out by (auto simp: rset_def)
  consider (apart) "re b \<le> rb r" | (all) "rb r < re b" "rb b = rb r" | (part) "rb r < re b" "rb b < rb r" using bf(3) by linarith
  then show ?thesis
  proof cases
    case apart
    then have "a1 = a" using a1 e by (simp add: word_less_nat_alt)
    then show ?thesis using ok up low apart by auto
  next
    case all
    then have "a1 = erase_avail b a" using a1 e by (simp add: word_less_nat_alt word_unat_eq_iff)
    then show ?thesis using erase_avail_effect [OF ok bf(1)] erase_frame [OF ok bf(1)] up low nb sub all by auto
  next
    case part
    let ?f = "\<lparr>rg_base = rg_base b, rg_size = rg_base r - rg_base b\<rparr>"
    have f: "rb ?f = rb b" "re ?f = rb r" "rg_ok ?f" using part r by (simp_all add: re_def rg_ok_def unat_sub word_le_nat_alt)
    have "a1 = resize_avail b ?f a" using a1 e part by (simp add: word_less_nat_alt word_unat_eq_iff)
    moreover have "rset b - rset ?f \<subseteq> rset r" using sub f by (simp add: rset_def)
    ultimately show ?thesis
      using resize_avail_effect [OF ok bf(1) f(3)] f(1,2) part(1) up low nb by (auto simp: ra_frame_def)
  qed
qed

lemma SubtractRegion_effect:
  assumes inv: "ra_inv a" and res: "ra_SubtractRegion r partial a = (st, a')"
  shows "ra_inv a' \<and> ra_frame a a' \<and> (st = ZX_OK \<longrightarrow> avail a' = avail a - rset r) \<and> (st \<noteq> ZX_OK \<longrightarrow> a' = a) \<and>
    (st = ZX_ERR_NO_MEMORY \<longrightarrow> pool_New a = None) \<and>
    (st \<in> {ZX_OK, ZX_ERR_NO_MEMORY} \<longleftrightarrow> ra_pool a \<noteq> None \<and> rg_ok r \<and> rset r \<inter> taken a = {} \<and> (partial \<or> rset r \<subseteq> avail a))"
proof -
  have ok: "avail_ok a" using inv by (simp add: ra_inv_def)
  let ?after = "upper_bound (rg_base r) (ra_by_base a)"
  show ?thesis
  proof (cases "AddSubtractSanityCheckLocked r a = ZX_OK")
    case False
    then have "st = AddSubtractSanityCheckLocked r a" "a' = a" using res by (auto simp: ra_SubtractRegion_def Let_def)
    then show ?thesis using inv False sanity_check_iff [OF inv, of r] by auto
  next
    case True
    have r: "rg_ok r" "rset r \<inter> taken a = {}" "ra_pool a \<noteq> None" using sanity_check_iff [OF inv] True by auto
    have sa: "spaced 1 ?after" "\<forall>y \<in> set ?after. rb r \<le> rb y" using upper_bound_facts [OF ok refl, of "rg_base r"] by (auto intro: less_imp_le)
    show ?thesis
    proof (cases "before_upper (rg_base r) (ra_by_base a)")
      case None
      have all: "set ?after = set (ra_by_base a)"
        using before_upper_NoneD [OF avail_okD(1) [OF ok] None] upper_bound_facts [OF ok refl, of "rg_base r"] by (auto simp: word_less_nat_alt)
      have "\<not> rset r \<subseteq> avail a" using before_contains_iff [OF ok r(1)] None by simp
      moreover have "avail_ok (trim_after ?after (rg_end r) a) \<and> ra_frame a (trim_after ?after (rg_end r) a) \<and>
          avail (trim_after ?after (rg_end r) a) = avail a - rset r"
        using trim_after_effect [OF ok sa(1) _ sa(2), of "rg_end r"] all unat_rg_end [OF r(1)] by (simp add: rset_def)
      ultimately show ?thesis using res True None r inv SubtractRegion_frame [OF inv] by (auto simp: ra_SubtractRegion_def Let_def split: if_splits)
    next
      case (Some b)
      have bf: "b \<in> set (ra_by_base a)" "rg_ok b" "rb b \<le> rb r" using before_facts [OF ok Some refl] by auto
      have e: "unat (rg_end b) = re b" "unat (rg_end r) = re r" by (rule unat_rg_end, rule bf(2), rule unat_rg_end, rule r(1))
      have in_b: "rset r \<subseteq> avail a \<longleftrightarrow> re r \<le> re b" using before_contains_iff [OF ok r(1)] Some by simp
      show ?thesis
      proof (cases "re r \<le> re b")
        case in_one: True
        then have "subtract_contained r b a = (st, a')"
          using res True Some bf(3) e by (simp add: ra_SubtractRegion_def Let_def word_le_nat_alt)
        from subtract_contained_effect [OF ok bf(1) r(1) bf(3) in_one this]
        show ?thesis using inv r in_b in_one SubtractRegion_frame [OF inv] by (auto split: if_splits)
      next
        case out: False
        define a1 where "a1 = (if rg_base r < rg_end b then (if rg_base b = rg_base r then erase_avail b a
             else resize_avail b \<lparr>rg_base = rg_base b, rg_size = rg_base r - rg_base b\<rparr> a) else a)"
        have st: "(st, a') = (if partial then (ZX_OK, trim_after ?after (rg_end r) a1) else (ZX_ERR_INVALID_ARGS, a))"
          using res True Some out e by (auto simp: ra_SubtractRegion_def Let_def word_le_nat_alt a1_def)
        have 1: "avail_ok a1" "ra_frame a a1" "avail a1 - rset r = avail a - rset r" "avail a1 \<subseteq> avail a" "set ?after \<subseteq> set (ra_by_base a1)"
          "\<forall>y \<in> set (ra_by_base a1) - set ?after. re y \<le> rb r"
          using trim_before_effect [OF ok r(1) Some _ a1_def refl] out by auto
        have 2: "avail_ok (trim_after ?after (rg_end r) a1) \<and> ra_frame a1 (trim_after ?after (rg_end r) a1) \<and>
            avail (trim_after ?after (rg_end r) a1) = avail a1 - rset r"
          using trim_after_effect [OF 1(1) sa(1) 1(5) sa(2) 1(6), of "rg_end r"] e by (simp add: rset_def)
        show ?thesis
          using st 1 2 r in_b out inv SubtractRegion_frame [OF inv, of "trim_after ?after (rg_end r) a1"] ra_frame_trans [OF 1(2)]
          by (auto split: if_splits)
      qed
    qed
  qed
qed

section \<open>Allocating and releasing\<close>

lemma AllocFromAvail_effect:
  assumes inv: "ra_inv a" and s: "s \<in> set (ra_by_base a)" and lo: "rb s \<le> unat base" and sz: "0 < unat sz"
    and hi: "unat base + unat sz \<le> re s" and res: "AllocFromAvailLocked s base sz a = (st, out, a')"
  shows "(st = ZX_OK \<and> out = Some \<lparr>rg_base = base, rg_size = sz\<rparr> \<and> ra_inv a' \<and> bookkeeping a' = bookkeeping a \<and>
            avail a' = avail a - {unat base..<unat base + unat sz} \<and>
            ra_allocated a' = insert_by_base \<lparr>rg_base = base, rg_size = sz\<rparr> (ra_allocated a)) \<or>
         (st = ZX_ERR_NO_MEMORY \<and> out = None \<and> a' = a \<and> (pool_New a = None \<or> (\<exists>a1. pool_New a = Some a1 \<and> pool_New a1 = None)))"
proof -
  have ok: "avail_ok a" using inv by (simp add: ra_inv_def)
  have so: "rg_ok s" by (rule spaced_ok [OF avail_okD(1) [OF ok] s])
  define r where "r = \<lparr>rg_base = base, rg_size = sz\<rparr>"
  have r: "rb r = unat base" "re r = unat base + unat sz" "rg_ok r" using sz hi so by (simp_all add: r_def re_def rg_ok_def)
  have sub: "rset r \<subseteq> rset s" "rset s \<subseteq> avail a" using lo hi r s by (auto simp: rset_def space_def)
  have ov: "unat (base - rg_base s) = unat base - rb s" using lo by (intro unat_sub) (simp add: word_le_nat_alt)
  have left: "unat (rg_size s - sz) = unat (rg_size s) - unat sz" using lo hi by (intro unat_sub) (simp add: word_le_nat_alt re_def)
  have sb: "base \<noteq> rg_base s \<longleftrightarrow> rb s < unat base" using lo by (auto simp: word_unat_eq_iff)
  have sa: "base - rg_base s < rg_size s - sz \<longleftrightarrow> unat base + unat sz < re s" using lo hi ov left by (auto simp: word_less_nat_alt re_def)
  have fin: "ra_inv (insert_allocated r b)" "avail (insert_allocated r b) = avail a - rset r"
      "bookkeeping (insert_allocated r b) = map_option Suc (bookkeeping b)" "ra_allocated (insert_allocated r b) = insert_by_base r (ra_allocated a)"
    if b: "avail_ok b" "avail b = avail a - rset r" "ra_allocated b = ra_allocated a" "ra_pool b \<noteq> None" for b
  proof -
    have t: "spaced 0 (ra_allocated a)" "avail a \<inter> taken a = {}" using inv by (auto simp: ra_inv_def)
    have "re y + 0 \<le> rb r \<or> re r + 0 \<le> rb y" if "y \<in> set (ra_allocated a)" for y
      using disjoint_rangesD [OF r(3) spaced_ok [OF t(1) that]] sub t(2) that by (auto simp: space_def)
    then have "spaced 0 (insert_by_base r (ra_allocated a))" using spaced_insert [OF t(1) r(3)] by blast
    then show "ra_inv (insert_allocated r b)"
      using b t by (auto simp: ra_inv_def insert_allocated_def avail_ok_def space_def)
    show "avail (insert_allocated r b) = avail a - rset r" "ra_allocated (insert_allocated r b) = insert_by_base r (ra_allocated a)"
      "bookkeeping (insert_allocated r b) = map_option Suc (bookkeeping b)"
      using b by (simp_all add: insert_allocated_def bookkeeping_def option.map_comp comp_def)
  qed
  have R: "rset r = {unat base..<unat base + unat sz}" by (simp add: rset_def r)
  consider (whole) "\<not> rb s < unat base" "\<not> unat base + unat sz < re s" | (front) "\<not> rb s < unat base" "unat base + unat sz < re s"
    | (rear) "rb s < unat base" "\<not> unat base + unat sz < re s" | (mid) "rb s < unat base" "unat base + unat sz < re s" by blast
  then show ?thesis
  proof cases
    case whole
    define b where "b = a\<lparr>ra_by_size := remove1 s (ra_by_size a), ra_by_base := remove1 s (ra_by_base a)\<rparr>"
    have rs: "r = s" using whole lo hi by (simp add: r_def ralloc_region.equality word_unat_eq_iff re_def)
    have e: "avail_ok b" "avail b = avail a - rset r" "ra_allocated b = ra_allocated a" "ra_pool b \<noteq> None"
        "map_option Suc (bookkeeping b) = bookkeeping a"
      using erase_avail_effect [OF ok s] inv s unfolding rs
      by (auto simp: b_def erase_avail_def pool_Delete_def avail_ok_def bookkeeping_def option.map_comp comp_def ra_inv_def)
    have "(st, out, a') = (ZX_OK, Some r, insert_allocated r b)"
      using res whole sb sa rs by (simp add: AllocFromAvailLocked_def Let_def b_def)
    then show ?thesis using fin [OF e(1-4)] e(5) R by (simp flip: r_def)
  next
    case front
    let ?f = "\<lparr>rg_base = rg_base s + sz, rg_size = rg_size s - sz\<rparr>" and ?b = "\<lparr>rg_base = rg_base s, rg_size = sz\<rparr>"
    have eq: "rg_base s = base" using front sb by blast
    then have rr: "?b = r" by (simp add: r_def)
    have f: "rb ?f = re r" "re ?f = re s" "rg_ok ?f"
      using unat_rg_end [OF r(3)] left front so eq hi lo r(2) by (auto simp: r_def re_def rg_ok_def)
    show ?thesis
    proof (cases "pool_New a")
      case None
      then show ?thesis using res front sb sa by (auto simp: AllocFromAvailLocked_def Let_def)
    next
      case (Some a1)
      note p = pool_New_SomeD [OF Some]
      have "avail_ok a1" "s \<in> set (ra_by_base a1)" using p ok s by auto
      note e = resize_avail_effect [OF this f(3)]
      have av: "avail (resize_avail s ?f a1) = avail a - rset r"
        using e f(1,2) p r eq lo hi rg_ok_less [OF r(3)] by (auto simp: rset_def)
      have "(st, out, a') = (ZX_OK, Some r, insert_allocated r (resize_avail s ?f a1))"
        using res front sb sa Some by (simp add: AllocFromAvailLocked_def Let_def rr [symmetric])
      then show ?thesis using fin [of "resize_avail s ?f a1"] av e f(1,2) p R lo rg_ok_less [OF r(3)] r(1) by (simp flip: r_def)
    qed
  next
    case rear
    let ?f = "\<lparr>rg_base = rg_base s, rg_size = rg_size s - sz\<rparr>"
    have f: "rb ?f = rb s" "re ?f = unat base" "rg_ok ?f"
      using left rear so hi lo by (auto simp: re_def rg_ok_def)
    show ?thesis
    proof (cases "pool_New a")
      case None
      then show ?thesis using res rear sb sa by (auto simp: AllocFromAvailLocked_def Let_def)
    next
      case (Some a1)
      note p = pool_New_SomeD [OF Some]
      have "avail_ok a1" "s \<in> set (ra_by_base a1)" using p ok s by auto
      note e = resize_avail_effect [OF this f(3)]
      have av: "avail (resize_avail s ?f a1) = avail a - rset r"
        using e f(1,2) p r rear lo hi by (auto simp: rset_def)
      have "(st, out, a') = (ZX_OK, Some r, insert_allocated r (resize_avail s ?f a1))"
        using res rear sb sa Some by (simp add: AllocFromAvailLocked_def Let_def r_def)
      then show ?thesis using fin [of "resize_avail s ?f a1"] av e f(1,2) p R lo hi by (simp flip: r_def)
    qed
  next
    case mid
    define f where "f = \<lparr>rg_base = rg_base s, rg_size = base - rg_base s\<rparr>"
    define g where "g = \<lparr>rg_base = rg_end r, rg_size = rg_size s - sz - (base - rg_base s)\<rparr>"
    have ff: "rb f = rb s" "re f = unat base" "rg_ok f" using mid ov so by (auto simp: f_def re_def rg_ok_def)
    have "unat (rg_size s - sz - (base - rg_base s)) = re s - re r"
      using left ov mid lo hi r(2) by (subst unat_sub) (auto simp: word_le_nat_alt re_def)
    then have gg: "rb g = re r" "re g = re s" "rg_ok g"
      using unat_rg_end [OF r(3)] mid so r(2) by (auto simp: g_def re_def [of "ralloc_region.make _ _"] re_def rg_ok_def)
    show ?thesis
    proof (cases "pool_New a")
      case None
      then show ?thesis using res mid sb sa by (auto simp: AllocFromAvailLocked_def Let_def)
    next
      case (Some a1)
      note p = pool_New_SomeD [OF Some]
      show ?thesis
      proof (cases "pool_New a1")
        case None
        then show ?thesis using res mid sb sa Some p by (auto simp: AllocFromAvailLocked_def Let_def)
      next
        case S2: (Some a2)
        note q = pool_New_SomeD [OF S2]
        have "avail_ok a2" "s \<in> set (ra_by_base a2)" using p q ok s by auto
        note e = split_avail_effect [OF this ff(3,1,2) gg(3,1,2) _ refl]
        have "(st, out, a') = (ZX_OK, Some r, insert_allocated r (insert_avail g (resize_avail s f a2)))"
          using res mid sb sa Some S2 by (simp add: AllocFromAvailLocked_def Let_def r_def f_def g_def)
        moreover have "map_option Suc (map_option Suc (bookkeeping a2)) = bookkeeping a" using p q by metis
        ultimately show ?thesis
          using fin [of "insert_avail g (resize_avail s f a2)"] e p q R r(1,2) sz by (simp add: rset_def flip: r_def)
      qed
    qed
  qed
qed

lemma is_pow2_unat:
  assumes "is_pow2 al" obtains n where "n < 64" "unat al = 2 ^ n" "al - 1 = mask n"
proof -
  have al: "al \<noteq> 0" "al AND (al - 1) = 0" using assms by (auto simp: is_pow2_def)
  have p: "0 < unat al" using al(1) by (simp add: unat_gt_0)
  have m: "unat (al - 1) = unat al - 1" by (rule unat_minus_one [OF al(1)])
  then have "unat al AND (unat al - 1) = 0" using al(2) by (metis unsigned_and_eq unat_0)
  then obtain n where n: "unat al = 2 ^ n" using and_pred_power2 [OF p] by blast
  have "(2 :: nat) ^ n < 2 ^ 64" using unat_u64 [of al] n by simp
  then have n64: "n < 64" by (rule power_less_imp_less_exp [rotated]) simp
  have "al = of_nat (2 ^ n)" unfolding n [symmetric] by simp
  then have "al - 1 = mask n" by (simp add: mask_eq_exp_minus_1)
  then show thesis using that n n64 by blast
qed

text \<open>The aligned base of a region is usable exactly when some aligned base fits, and it is the lowest.\<close>

lemma aligned_fit_iff:
  assumes it: "rg_ok it" and sz: "0 < unat sz" "sz \<le> rg_size it" and al: "is_pow2 al"
    and ab: "ab = (rg_base it + (al - 1)) AND NOT (al - 1)"
  shows "(rg_base it \<le> ab \<and> ab - rg_base it \<le> rg_size it - sz \<longleftrightarrow> (\<exists>M. unat al dvd M \<and> rb it \<le> M \<and> M + unat sz \<le> re it)) \<and>
    (rg_base it \<le> ab \<and> ab - rg_base it \<le> rg_size it - sz \<longrightarrow> unat al dvd unat ab \<and> rb it \<le> unat ab \<and> unat ab + unat sz \<le> re it)"
proof -
  obtain n where n: "n < 64" "unat al = 2 ^ n" "al - 1 = mask n" using is_pow2_unat [OF al] .
  define A B where "A = unat al" and "B = rb it"
  have "A dvd 2 ^ 64" unfolding A_def n(2) using n(1) by (intro le_imp_power_dvd) simp
  moreover have "unat (al - 1) = A - 1" unfolding A_def using al by (intro unat_minus_one) (simp add: is_pow2_def)
  ultimately have A: "0 < A" "A dvd 2 ^ 64" "unat (al - 1) = A - 1" "A = 2 ^ n" by (simp_all add: A_def n(2))
  have uab: "unat ab = unat (rg_base it + (al - 1)) - unat (rg_base it + (al - 1)) mod A"
    unfolding ab n(3) A(4) by (rule unat_and_not_mask)
  define L :: nat where "L = 2 ^ 64"
  have w: "unat (rg_base it + (al - 1)) = (B + A - 1) mod L" using A(1,3) by (simp add: unat_word_ariths B_def L_def)
  have B: "B < L" "A < L" "re it < L" "A dvd L"
    using it A(2) unat_u64 [of al] unat_u64 [of "rg_base it"] unfolding rg_ok_def A_def B_def L_def by blast+
  have left: "unat (rg_size it - sz) = re it - B - unat sz" using sz(2) by (simp add: unat_sub re_def B_def)
  have szr: "unat sz \<le> re it - B" using sz(2) by (simp add: re_def B_def word_le_nat_alt)
  have fits: "rg_base it \<le> ab \<and> ab - rg_base it \<le> rg_size it - sz \<longleftrightarrow> B \<le> unat ab \<and> unat ab + unat sz \<le> re it"
    using szr left unat_sub [of "rg_base it" ab] sz(1) by (auto simp: word_le_nat_alt B_def)
  show ?thesis
  proof (cases "B + A - 1 < L")
    case True
    then have "unat ab = (B + A - 1) - (B + A - 1) mod A" using uab w by simp
    from round_up_nat [OF A(1) this] have ru: "A dvd unat ab" "B \<le> unat ab" "\<And>M. A dvd M \<Longrightarrow> B \<le> M \<Longrightarrow> unat ab \<le> M" by auto
    then have "(\<exists>M. A dvd M \<and> B \<le> M \<and> M + unat sz \<le> re it) \<longleftrightarrow> unat ab + unat sz \<le> re it"
      by (meson add_le_mono1 order_trans)
    then show ?thesis unfolding fits A_def [symmetric] B_def [symmetric] using ru by blast
  next
    case False
    have "(B + A - 1) mod L = B + A - 1 - L" using False B(1,2) by (subst le_mod_geq) (auto intro: mod_less)
    then have "unat ab < B" using uab w B(1,2) False by linarith
    moreover have "\<not> (A dvd M \<and> B \<le> M \<and> M + unat sz \<le> re it)" for M
    proof
      assume M: "A dvd M \<and> B \<le> M \<and> M + unat sz \<le> re it"
      then have lt: "M < L" using B(3) by simp
      have "A dvd L - M" using M B(4) by (simp add: dvd_diff_nat)
      then have "A \<le> L - M" using lt by (intro dvd_imp_le) auto
      then show False using False M lt by linarith
    qed
    ultimately show ?thesis unfolding fits A_def [symmetric] B_def [symmetric] by auto
  qed
qed

lemma sized_dropWhile:
  "sized xs \<Longrightarrow> dropWhile (\<lambda>r. less_by_size r \<lparr>rg_base = 0, rg_size = sz\<rparr>) xs = filter (\<lambda>r. sz \<le> rg_size r) xs"
proof (induction xs)
  case (Cons x xs)
  have k: "less_by_size r \<lparr>rg_base = 0, rg_size = sz\<rparr> \<longleftrightarrow> \<not> sz \<le> rg_size r" for r by (auto simp: less_by_size_def)
  have "filter (\<lambda>r. sz \<le> rg_size r) xs = xs" if "sz \<le> rg_size x"
    using Cons.prems that by (auto simp: filter_id_conv less_by_size_def)
  then show ?case using Cons by (auto simp: k)
qed simp

lemma find_aligned_SomeD:
  "find_aligned sz m xs = Some (it, ab) \<Longrightarrow>
   it \<in> set xs \<and> ab = (rg_base it + m) AND NOT m \<and> rg_base it \<le> ab \<and> ab - rg_base it \<le> rg_size it - sz"
  by (induction xs) (auto simp: Let_def split: if_splits)

lemma find_aligned_NoneD:
  "find_aligned sz m xs = None \<Longrightarrow> it \<in> set xs \<Longrightarrow>
   \<not> (rg_base it \<le> ((rg_base it + m) AND NOT m) \<and> ((rg_base it + m) AND NOT m) - rg_base it \<le> rg_size it - sz)"
  by (induction xs) (auto simp: Let_def split: if_splits)

text \<open>What a successful allocation does.\<close>

definition allocated_from :: "region_allocator \<Rightarrow> ralloc_region \<Rightarrow> region_allocator \<Rightarrow> bool" where
  "allocated_from a r a' \<longleftrightarrow> rg_ok r \<and> rset r \<subseteq> avail a \<and> avail a' = avail a - rset r \<and>
     ra_allocated a' = insert_by_base r (ra_allocated a) \<and> taken a' = taken a \<union> rset r"

lemma Alloc_inside:
  assumes inv: "ra_inv a" and s: "s \<in> set (ra_by_base a)" and lo: "rb s \<le> unat base" and sz: "0 < unat sz"
    and hi: "unat base + unat sz \<le> re s" and res: "AllocFromAvailLocked s base sz a = (st, out, a')"
  shows "ra_inv a' \<and> bookkeeping a' = bookkeeping a \<and>
    (st = ZX_OK \<and> out = Some \<lparr>rg_base = base, rg_size = sz\<rparr> \<and> allocated_from a \<lparr>rg_base = base, rg_size = sz\<rparr> a' \<or>
     st = ZX_ERR_NO_MEMORY \<and> out = None \<and> a' = a)"
proof -
  define r where "r = \<lparr>rg_base = base, rg_size = sz\<rparr>"
  have "rg_ok s" using inv s spaced_ok [OF avail_okD(1)] by (auto simp: ra_inv_def)
  then have ro: "rg_ok r" using sz hi by (simp add: r_def rg_ok_def re_def)
  have R: "rset r = {unat base..<unat base + unat sz}" by (simp add: r_def rset_def re_def)
  have "rset r \<subseteq> avail a" unfolding R using s lo hi by (auto simp: space_def rset_def)
  then show ?thesis
    using AllocFromAvail_effect [OF inv s lo sz hi res] inv ro R by (auto simp: allocated_from_def r_def [symmetric] space_def)
qed

lemma GetRegion_sized_effect:
  assumes inv: "ra_inv a" and res: "ra_GetRegion_sized sz al a = (st, out, a')"
  shows "ra_inv a' \<and> bookkeeping a' = bookkeeping a \<and>
    (case out of
       Some r \<Rightarrow> st = ZX_OK \<and> rg_size r = sz \<and> unat al dvd rb r \<and> allocated_from a r a'
     | None \<Rightarrow> st \<noteq> ZX_OK \<and> a' = a) \<and>
    (st = ZX_ERR_NOT_FOUND \<longleftrightarrow> ra_pool a \<noteq> None \<and> sz \<noteq> 0 \<and> is_pow2 al \<and>
       (\<nexists>M. unat al dvd M \<and> {M..<M + unat sz} \<subseteq> avail a))"
proof -
  have ok: "avail_ok a" using inv by (simp add: ra_inv_def)
  note A = avail_okD [OF ok]
  show ?thesis
  proof (cases "ra_pool a = None \<or> sz = 0 \<or> \<not> is_pow2 al")
    case True
    then have "(st, out, a') = (ZX_ERR_BAD_STATE, None, a) \<or> (st, out, a') = (ZX_ERR_INVALID_ARGS, None, a)"
      using res by (auto simp: ra_GetRegion_sized_def split: if_splits)
    then show ?thesis using True inv by (elim disjE) simp_all
  next
    case False
    then have s0: "0 < unat sz" and al: "is_pow2 al" and alz: "al \<noteq> 0" by (auto simp: unat_gt_0 is_pow2_def)
    let ?cand = "filter (\<lambda>r. sz \<le> rg_size r) (ra_by_size a)"
    have cand: "it \<in> set (ra_by_base a) \<and> rg_ok it \<and> sz \<le> rg_size it" if "it \<in> set ?cand" for it
      using that A(3) spaced_ok [OF A(1)] by auto
    have res': "(case find_aligned sz (al - 1) ?cand of None \<Rightarrow> (ZX_ERR_NOT_FOUND, None, a)
        | Some (source, ab) \<Rightarrow> AllocFromAvailLocked source ab sz a) = (st, out, a')"
      using res [unfolded ra_GetRegion_sized_def sized_dropWhile [OF A(2)]] False alz by (auto split: if_splits)
    show ?thesis
    proof (cases "find_aligned sz (al - 1) ?cand")
      case None
      have "\<nexists>M. unat al dvd M \<and> {M..<M + unat sz} \<subseteq> avail a"
      proof
        assume "\<exists>M. unat al dvd M \<and> {M..<M + unat sz} \<subseteq> avail a"
        then obtain M where M: "unat al dvd M" "{M..<M + unat sz} \<subseteq> avail a" by blast
        then obtain it where it: "it \<in> set (ra_by_base a)" "rb it \<le> M" "M + unat sz \<le> re it"
          using range_in_one [OF A(1) M(2)] s0 by auto
        then have c: "it \<in> set ?cand" using A(3) by (auto simp: word_le_nat_alt re_def)
        have "rg_ok it" "sz \<le> rg_size it" using cand [OF c] by auto
        from aligned_fit_iff [OF this(1) s0 this(2) al refl] show False
          using find_aligned_NoneD [OF None c] M(1) it(2,3) by blast
      qed
      then show ?thesis using None res' False inv by simp
    next
      case (Some p)
      obtain it ab where p: "p = (it, ab)" by (cases p)
      have f: "it \<in> set ?cand" "ab = (rg_base it + (al - 1)) AND NOT (al - 1)" "rg_base it \<le> ab \<and> ab - rg_base it \<le> rg_size it - sz"
        using find_aligned_SomeD [of sz "al - 1" ?cand it ab] Some unfolding p by blast+
      have it: "it \<in> set (ra_by_base a)" "rg_ok it" "sz \<le> rg_size it" using cand [OF f(1)] by auto
      have fit: "unat al dvd unat ab" "rb it \<le> unat ab" "unat ab + unat sz \<le> re it"
        using aligned_fit_iff [OF it(2) s0 it(3) al f(2)] f(3) by auto
      have "AllocFromAvailLocked it ab sz a = (st, out, a')" using res' Some p by simp
      note e = Alloc_inside [OF inv it(1) fit(2) s0 fit(3) this]
      have "{unat ab..<unat ab + unat sz} \<subseteq> avail a" using it(1) fit(2,3) by (auto simp: space_def rset_def)
      then have "\<not> (\<nexists>M. unat al dvd M \<and> {M..<M + unat sz} \<subseteq> avail a)" using fit(1) by blast
      with e show ?thesis using fit(1) by (elim conjE disjE) simp_all
    qed
  qed
qed

lemma GetRegion_specific_effect:
  assumes inv: "ra_inv a" and res: "ra_GetRegion_specific r a = (st, out, a')"
  shows "ra_inv a' \<and> bookkeeping a' = bookkeeping a \<and>
    (case out of Some r' \<Rightarrow> st = ZX_OK \<and> r' = r \<and> allocated_from a r a' | None \<Rightarrow> st \<noteq> ZX_OK \<and> a' = a) \<and>
    (st = ZX_ERR_NOT_FOUND \<longleftrightarrow> ra_pool a \<noteq> None \<and> rg_ok r \<and> \<not> rset r \<subseteq> avail a)"
proof -
  have ok: "avail_ok a" using inv by (simp add: ra_inv_def)
  have wf: "(rg_size r = 0 \<or> rg_end r < rg_base r) \<longleftrightarrow> \<not> rg_ok r"
    using unat_u64 [of "rg_base r"] unat_u64 [of "rg_size r"]
    by (auto simp: rg_ok_def re_def word_less_nat_alt unat_word_ariths mod_if unat_eq_0 split: if_splits)
  show ?thesis
  proof (cases "ra_pool a = None \<or> \<not> rg_ok r")
    case True
    then have "(st, out, a') = (ZX_ERR_BAD_STATE, None, a) \<or> (st, out, a') = (ZX_ERR_INVALID_ARGS, None, a)"
      using res wf by (auto simp: ra_GetRegion_specific_def split: if_splits)
    then show ?thesis using True inv by auto
  next
    case False
    then have r: "rg_ok r" by blast
    show ?thesis
    proof (cases "before_upper (rg_base r) (ra_by_base a)")
      case None
      then show ?thesis using before_contains_iff [OF ok r] res inv wf False by (auto simp: ra_GetRegion_specific_def)
    next
      case (Some b)
      have bf: "b \<in> set (ra_by_base a)" "rg_ok b" "rb b \<le> rb r" using before_facts [OF ok Some refl] by auto
      have last: "unat (rg_end x - 1) = re x - 1" if "rg_ok x" for x
        using that unat_rg_end [OF that] by (subst unat_minus_one) (auto simp: rg_ok_def word_unat_eq_iff)
      have cmp: "rg_end r - 1 > rg_end b - 1 \<longleftrightarrow> \<not> re r \<le> re b"
        using last [OF r] last [OF bf(2)] rg_ok_less [OF r] rg_ok_less [OF bf(2)] by (auto simp: word_less_nat_alt)
      show ?thesis
      proof (cases "re r \<le> re b")
        case True
        then have al: "AllocFromAvailLocked b (rg_base r) (rg_size r) a = (st, out, a')"
          using res False wf Some cmp by (auto simp: ra_GetRegion_specific_def)
        have rr: "\<lparr>rg_base = rg_base r, rg_size = rg_size r\<rparr> = r" by simp
        note e = Alloc_inside [OF inv bf(1,3) _ _ al, unfolded rr]
        have "0 < unat (rg_size r)" using r by (simp add: rg_ok_def re_def)
        then show ?thesis using e True before_contains_iff [OF ok r] Some by (auto simp: re_def split: option.splits)
      next
        case out: False
        then show ?thesis using before_contains_iff [OF ok r] res inv wf False Some cmp by (auto simp: ra_GetRegion_specific_def)
      qed
    qed
  qed
qed

lemma ReleaseRegion_effect:
  assumes inv: "ra_inv a" and r: "r \<in> set (ra_allocated a)" and a': "a' = ra_ReleaseRegion r a"
  shows "ra_inv a' \<and> bookkeeping a' = bookkeeping a \<and> avail a' = avail a \<union> rset r \<and> taken a' = taken a - rset r \<and>
    ra_allocated a' = remove1 r (ra_allocated a)"
proof -
  have t: "spaced 0 (ra_allocated a)" and ok: "avail_ok a" using inv by (auto simp: ra_inv_def)
  have ro: "rg_ok r" by (rule spaced_ok [OF t r])
  define b where "b = a\<lparr>ra_allocated := remove1 r (ra_allocated a)\<rparr>"
  have s: "set (remove1 r (ra_allocated a)) = set (ra_allocated a) - {r}" using spaced_distinct [OF t] by (rule set_remove1_eq)
  have tk: "space (remove1 r (ra_allocated a)) = taken a - rset r" using space_Diff [OF t r] by (simp add: space_def s)
  have dj: "rset r \<inter> avail b = {}" using inv r by (auto simp: b_def ra_inv_def space_def)
  have e: "avail_ok a' \<and> avail a' = avail b \<union> rset r \<and> ra_allocated a' = ra_allocated b \<and>
      bookkeeping a' = map_option Suc (bookkeeping b) \<and> (ra_pool a' = None) = (ra_pool b = None)"
    using AddRegionToAvail_effect [of b r False a'] ok ro dj by (simp add: avail_ok_def b_def a' ra_ReleaseRegion_def)
  obtain n where n: "length (ra_allocated a) = Suc n" using r by (cases "ra_allocated a") auto
  have bk: "map_option Suc (bookkeeping b) = bookkeeping a"
    using r n by (simp add: b_def bookkeeping_def option.map_comp comp_def length_remove1)
  have "ra_pool a \<noteq> None" using inv r by (auto simp: ra_inv_def)
  then show ?thesis using e bk tk inv spaced_remove1 [OF t] by (auto simp: b_def ra_inv_def)
qed

lemma reset_loop_effect:
  assumes "ra_by_base a = rs" "distinct (ra_by_size a)" "set (ra_by_size a) = set rs" "distinct rs"
  shows "ra_by_base (reset_loop rs a) = [] \<and> ra_by_size (reset_loop rs a) = [] \<and> ra_allocated (reset_loop rs a) = ra_allocated a \<and>
    bookkeeping (reset_loop rs a) = bookkeeping a \<and> (ra_pool (reset_loop rs a) = None) = (ra_pool a = None)"
  using assms
proof (induction rs arbitrary: a)
  case (Cons r rs)
  define b where "b = pool_Delete (a\<lparr>ra_by_base := rs, ra_by_size := remove1 r (ra_by_size a)\<rparr>)"
  have "ra_by_base b = rs" "distinct (ra_by_size b)" "set (ra_by_size b) = set rs" "ra_allocated b = ra_allocated a"
      "bookkeeping b = bookkeeping a" "(ra_pool b = None) = (ra_pool a = None)"
    using Cons.prems by (auto simp: b_def pool_Delete_def set_remove1_eq bookkeeping_def option.map_comp comp_def)
  then show ?case using Cons.IH [of b] Cons.prems(4) by (simp flip: b_def)
qed simp

lemma Reset_effect:
  assumes "ra_inv a"
  shows "ra_inv (ra_Reset a) \<and> avail (ra_Reset a) = {} \<and> ra_frame a (ra_Reset a)"
proof -
  have ok: "avail_ok a" using assms by (simp add: ra_inv_def)
  have e: "ra_by_base (ra_Reset a) = []" "ra_by_size (ra_Reset a) = []" "ra_frame a (ra_Reset a)"
    using reset_loop_effect [OF refl avail_okD(5,3,4) [OF ok]] by (simp_all add: ra_Reset_def ra_frame_def)
  then show ?thesis using assms by (simp add: ra_inv_def avail_ok_def space_def ra_frame_def)
qed

section \<open>Runs of an allocator\<close>

inductive ralloc_step :: "region_allocator \<Rightarrow> region_allocator \<Rightarrow> bool" where
  rs_add: "ra_AddRegion r allow a = (st, a') \<Longrightarrow> ralloc_step a a'"
| rs_subtract: "ra_SubtractRegion r partial a = (st, a') \<Longrightarrow> ralloc_step a a'"
| rs_get_sized: "ra_GetRegion_sized sz al a = (st, out, a') \<Longrightarrow> ralloc_step a a'"
| rs_get: "ra_GetRegion_specific r a = (st, out, a') \<Longrightarrow> ralloc_step a a'"
| rs_release: "r \<in> set (ra_allocated a) \<Longrightarrow> ralloc_step a (ra_ReleaseRegion r a)"
| rs_reset: "ralloc_step a (ra_Reset a)"

definition ralloc_new :: "nat \<Rightarrow> region_allocator" where
  "ralloc_new n = \<lparr>ra_pool = Some n, ra_allocated = [], ra_by_base = [], ra_by_size = []\<rparr>"

lemma ralloc_step_inv:
  assumes "ralloc_step a a'" "ra_inv a" shows "ra_inv a' \<and> bookkeeping a' = bookkeeping a"
  using assms(1)
proof cases
  case (rs_add r allow st)
  then show ?thesis using AddRegion_effect [OF assms(2)] by blast
next
  case (rs_subtract r partial st)
  then show ?thesis using SubtractRegion_effect [OF assms(2)] by (simp add: ra_frame_def)
next
  case (rs_get_sized sz al st out)
  then show ?thesis using GetRegion_sized_effect [OF assms(2)] by blast
next
  case (rs_get r st out)
  then show ?thesis using GetRegion_specific_effect [OF assms(2)] by blast
next
  case (rs_release r)
  then show ?thesis using ReleaseRegion_effect [OF assms(2)] by blast
next
  case rs_reset
  then show ?thesis using Reset_effect [OF assms(2)] by (simp add: ra_frame_def)
qed

lemma ralloc_steps_inv:
  "ralloc_step\<^sup>*\<^sup>* (ralloc_new n) a \<Longrightarrow> ra_inv a \<and> bookkeeping a = Some n"
proof (induction rule: rtranclp_induct)
  case base
  then show ?case by (simp add: ralloc_new_def ra_inv_def avail_ok_def space_def bookkeeping_def)
qed (use ralloc_step_inv in simp)

text \<open>
  Property C4: whatever sequence of additions, subtractions, allocations, releases and resets an
  allocator runs through, its available regions are ordered and never touch each other, its
  allocated regions never overlap each other or an available one, no region is empty or wraps
  around the 64-bit space, the size index holds exactly the regions of the base index, and every
  bookkeeping record of the pool is free or in use, none lost.
\<close>

theorem ralloc_invariant:
  assumes "ralloc_step\<^sup>*\<^sup>* (ralloc_new n) a"
  shows "sorted_wrt (\<lambda>x y. re x < rb y) (ra_by_base a) \<and> sorted_wrt (\<lambda>x y. re x \<le> rb y) (ra_allocated a) \<and>
    avail a \<inter> taken a = {} \<and> list_all rg_ok (ra_by_base a @ ra_allocated a) \<and>
    sized (ra_by_size a) \<and> set (ra_by_size a) = set (ra_by_base a) \<and>
    map_option (\<lambda>free. free + length (ra_by_base a) + length (ra_allocated a)) (ra_pool a) = Some n"
  using ralloc_steps_inv [OF assms]
  by (auto simp: ra_inv_def avail_ok_def spaced_def bookkeeping_def list_all_iff less_eq_Suc_le)


text \<open>
  Property C6: an allocation by size and alignment returns a region of exactly that size at an
  aligned base, taken out of the available space and recorded as allocated; it reports
  \<open>NOT_FOUND\<close> exactly when no aligned range of that size is available anywhere. An allocation of
  a given range returns that range, and reports \<open>NOT_FOUND\<close> exactly when it is well-formed but
  not entirely available. A failed call changes nothing.
\<close>

theorem ralloc_get_exact:
  assumes "ralloc_step\<^sup>*\<^sup>* (ralloc_new n) a"
    "ra_GetRegion_sized sz al a = (st1, out1, a1)" "ra_GetRegion_specific r a = (st2, out2, a2)"
  shows "(case out1 of
       Some r1 \<Rightarrow> st1 = ZX_OK \<and> rg_size r1 = sz \<and> unat al dvd rb r1 \<and> rset r1 \<subseteq> avail a \<and> avail a1 = avail a - rset r1 \<and>
                  set (ra_allocated a1) = insert r1 (set (ra_allocated a))
     | None \<Rightarrow> st1 \<noteq> ZX_OK \<and> a1 = a) \<and>
    (st1 = ZX_ERR_NOT_FOUND \<longleftrightarrow> sz \<noteq> 0 \<and> is_pow2 al \<and> (\<nexists>M. unat al dvd M \<and> {M..<M + unat sz} \<subseteq> avail a)) \<and>
    (case out2 of
       Some r2 \<Rightarrow> st2 = ZX_OK \<and> r2 = r \<and> rset r \<subseteq> avail a \<and> avail a2 = avail a - rset r \<and>
                  set (ra_allocated a2) = insert r (set (ra_allocated a))
     | None \<Rightarrow> st2 \<noteq> ZX_OK \<and> a2 = a) \<and>
    (st2 = ZX_ERR_NOT_FOUND \<longleftrightarrow> rg_ok r \<and> \<not> rset r \<subseteq> avail a)"
proof -
  have inv: "ra_inv a" "bookkeeping a = Some n" using ralloc_steps_inv [OF assms(1)] by auto
  then have pool: "ra_pool a \<noteq> None" by (auto simp: bookkeeping_def)
  show ?thesis
    using GetRegion_sized_effect [OF inv(1) assms(2)] GetRegion_specific_effect [OF inv(1) assms(3)] pool
    by (cases out1; cases out2) (simp_all add: allocated_from_def)
qed

text \<open>Ranges that do not touch are determined by the space they cover.\<close>

lemma spaced_set_eq: "spaced 1 xs \<Longrightarrow> spaced 1 ys \<Longrightarrow> set xs = set ys \<Longrightarrow> xs = ys"
proof (induction xs arbitrary: ys)
  case (Cons x xs)
  then obtain y ys' where ys: "ys = y # ys'" by (cases ys) auto
  have "x = y"
  proof (rule ccontr)
    assume "x \<noteq> y"
    then have "x \<in> set ys'" "y \<in> set xs" using Cons.prems(3) ys by auto
    then have "re y + 1 \<le> rb x" "re x + 1 \<le> rb y" using Cons.prems(1,2) ys by (auto simp: spaced_Cons)
    then show False using Cons.prems(1,2) ys by (auto simp: spaced_Cons rg_ok_def)
  qed
  moreover have "set xs = set ys'"
    using Cons.prems ys calculation spaced_distinct [OF Cons.prems(1)] spaced_distinct [OF Cons.prems(2)] by auto
  ultimately show ?case using Cons.IH [of ys'] Cons.prems(1,2) ys by (simp add: spaced_Cons)
qed simp

lemma spaced_canonical:
  assumes "spaced 1 xs" "spaced 1 ys" "space xs = space ys" shows "xs = ys"
proof -
  have sub: "set xs \<subseteq> set ys" if s: "spaced 1 xs" "spaced 1 ys" "space xs = space ys" for xs ys
  proof
    fix x assume x: "x \<in> set xs"
    have xo: "rg_ok x" by (rule spaced_ok [OF s(1) x])
    have "{rb x..<re x} \<subseteq> space ys" using x s(3) by (auto simp: space_def rset_def)
    then obtain y where y: "y \<in> set ys" "rb y \<le> rb x" "re x \<le> re y" using range_in_one [OF s(2)] xo by blast
    have "{rb y..<re y} \<subseteq> space xs" using y s(3) by (auto simp: space_def rset_def)
    then obtain z where z: "z \<in> set xs" "rb z \<le> rb y" "re y \<le> re z" using range_in_one [OF s(1)] spaced_ok [OF s(2) y(1)] by blast
    have "z = x" using spaced_apart [OF s(1) x z(1)] y z rg_ok_less [OF xo] by auto
    then have "rb x = rb y" "re x = re y" using y z by auto
    then have "x = y" by (simp add: ralloc_region.equality re_def word_unat_eq_iff)
    then show "x \<in> set ys" using y by simp
  qed
  show ?thesis using sub [OF assms] sub [OF assms(2,1) assms(3) [symmetric]] by (intro spaced_set_eq [OF assms(1,2)]) blast
qed

text \<open>
  Property C32: releasing a region right after allocating it restores the available regions
  exactly as they were, split regions merged again, and the set of allocated regions too.
\<close>

theorem ralloc_get_release:
  assumes "ralloc_step\<^sup>*\<^sup>* (ralloc_new n) a" "ra_GetRegion_sized sz al a = (ZX_OK, Some r, a1)"
  shows "ra_by_base (ra_ReleaseRegion r a1) = ra_by_base a \<and> set (ra_by_size (ra_ReleaseRegion r a1)) = set (ra_by_size a) \<and>
    set (ra_allocated (ra_ReleaseRegion r a1)) = set (ra_allocated a) \<and> ra_pool (ra_ReleaseRegion r a1) = ra_pool a"
proof -
  have inv: "ra_inv a" "bookkeeping a = Some n" using ralloc_steps_inv [OF assms(1)] by auto
  have g: "ra_inv a1" "bookkeeping a1 = bookkeeping a" "allocated_from a r a1"
    using GetRegion_sized_effect [OF inv(1) assms(2)] by auto
  have r: "r \<in> set (ra_allocated a1)" "rset r \<subseteq> avail a" "rg_ok r" using g(3) by (auto simp: allocated_from_def)
  define a2 where "a2 = ra_ReleaseRegion r a1"
  note e = ReleaseRegion_effect [OF g(1) r(1) a2_def]
  have av: "avail a2 = avail a" using e g(3) r(2) by (auto simp: allocated_from_def)
  have ok: "avail_ok a" "avail_ok a2" using inv(1) e by (auto simp: ra_inv_def)
  have base: "ra_by_base a2 = ra_by_base a" by (rule spaced_canonical [OF avail_okD(1) [OF ok(2)] avail_okD(1) [OF ok(1)] av])
  have "r \<notin> set (ra_allocated a)"
  proof
    assume "r \<in> set (ra_allocated a)"
    then have "rset r \<subseteq> taken a" by (auto simp: space_def)
    then show False using inv(1) r(2) rset_nonempty [OF r(3)] by (auto simp: ra_inv_def)
  qed
  then have "set (ra_allocated a2) = set (ra_allocated a)" "length (ra_allocated a2) = length (ra_allocated a)"
    using e g r spaced_distinct [of 0 "ra_allocated a1"]
    by (auto simp: ra_inv_def allocated_from_def set_remove1_eq length_remove1)
  moreover have "ra_pool a2 = ra_pool a"
    using e g(2) base calculation(2) by (cases "ra_pool a"; cases "ra_pool a2") (auto simp: bookkeeping_def)
  ultimately show ?thesis using base avail_okD(3) [OF ok(1)] avail_okD(3) [OF ok(2)] by (simp add: a2_def)
qed

section \<open>Examples\<close>

text \<open>An allocator with eight bookkeeping records and the range from \<open>0x1000\<close> to \<open>0x2000\<close>.\<close>

definition ralloc_example :: region_allocator where
  "ralloc_example = \<lparr>ra_pool = Some 7, ra_allocated = [], ra_by_base = [\<lparr>rg_base = 0x1000, rg_size = 0x1000\<rparr>],
                     ra_by_size = [\<lparr>rg_base = 0x1000, rg_size = 0x1000\<rparr>]\<rparr>"

lemmas ralloc_eval = ralloc_new_def AddSubtractSanityCheckLocked_def IntersectsLocked_def lower_bound_def upper_bound_def before_lower_def
  before_upper_def pool_New_def AddRegionToAvailLocked_def merge_before_def insert_avail_def Let_def

lemma ralloc_example_add: "ra_AddRegion \<lparr>rg_base = 0x1000, rg_size = 0x1000\<rparr> False (ralloc_new 8) = (ZX_OK, ralloc_example)"
  by (simp add: ra_AddRegion_def ralloc_example_def ralloc_eval)

lemma ralloc_example_reachable: "ralloc_step\<^sup>*\<^sup>* (ralloc_new 8) ralloc_example"
  using rs_add [OF ralloc_example_add] by blast

theorem ralloc_invariant_witness:
  "ralloc_step\<^sup>*\<^sup>* (ralloc_new 8) ralloc_example \<and> sized (ra_by_size ralloc_example) \<and>
   map_option (\<lambda>free. free + length (ra_by_base ralloc_example) + length (ra_allocated ralloc_example)) (ra_pool ralloc_example) = Some 8"
  using ralloc_invariant [OF ralloc_example_reachable] ralloc_example_reachable by blast


lemma ralloc_example_get:
  "ra_GetRegion_sized 0x100 0x800 ralloc_example =
     (ZX_OK, Some \<lparr>rg_base = 0x1000, rg_size = 0x100\<rparr>, snd (snd (ra_GetRegion_sized 0x100 0x800 ralloc_example)))"
  by (simp add: ra_GetRegion_sized_def is_pow2_def less_by_size_def AllocFromAvailLocked_def ralloc_example_def ralloc_eval)

theorem ralloc_get_exact_witness:
  "fst (ra_GetRegion_sized 0x100 0x800 ralloc_example) = ZX_OK \<and>
   avail (snd (snd (ra_GetRegion_sized 0x100 0x800 ralloc_example))) = avail ralloc_example - rset \<lparr>rg_base = 0x1000, rg_size = 0x100\<rparr>"
proof -
  obtain st out a2 where sp: "ra_GetRegion_specific \<lparr>rg_base = 0, rg_size = 1\<rparr> ralloc_example = (st, out, a2)" by (metis prod_cases3)
  have "fst (ra_GetRegion_sized 0x100 0x800 ralloc_example) = ZX_OK" using ralloc_example_get by (metis fst_conv)
  then show ?thesis using ralloc_get_exact [OF ralloc_example_reachable ralloc_example_get sp] by simp
qed

theorem ralloc_get_release_witness:
  "fst (ra_GetRegion_sized 0x100 0x800 ralloc_example) = ZX_OK \<and>
   ra_by_base (ra_ReleaseRegion \<lparr>rg_base = 0x1000, rg_size = 0x100\<rparr> (snd (snd (ra_GetRegion_sized 0x100 0x800 ralloc_example)))) =
     ra_by_base ralloc_example"
  using ralloc_get_release [OF ralloc_example_reachable ralloc_example_get] ralloc_example_get by (metis fst_conv)

end
