(* ===== verification/Zx_Time.thy ===== *)
theory Zx_Time
  imports Zx_Prelude
begin

text \<open>
  Time arithmetic, \<^verbatim>\<open>zircon/time.h\<close>, and deadlines with slack, \<^verbatim>\<open>kernel/deadline.cc\<close>. Times and
  durations are 64 bit words read as signed integers with \<open>sint\<close>; the overflow builtins return
  the wrapped word and whether it differs from the exact result. The operations are shown equal
  to clamped integer arithmetic, and a deadline's window is shown to contain the deadline.
\<close>

type_synonym zx_time = "64 word"
type_synonym zx_duration = "64 word"

section \<open>The overflow builtins\<close>

definition add_overflow :: "zx_time \<Rightarrow> zx_time \<Rightarrow> bool \<times> zx_time" where
  "add_overflow a b = (sint a + sint b \<noteq> sint (a + b), a + b)"

definition sub_overflow :: "zx_time \<Rightarrow> zx_time \<Rightarrow> bool \<times> zx_time" where
  "sub_overflow a b = (sint a - sint b \<noteq> sint (a - b), a - b)"

definition mul_overflow :: "zx_time \<Rightarrow> zx_time \<Rightarrow> bool \<times> zx_time" where
  "mul_overflow a b = (sint a * sint b \<noteq> sint (a * b), a * b)"

section \<open>Saturating operations\<close>

definition TIME_INFINITE :: zx_time where "TIME_INFINITE = 0x7fffffffffffffff"
definition TIME_INFINITE_PAST :: zx_time where "TIME_INFINITE_PAST = 0x8000000000000000"

definition zx_time_add_duration :: "zx_time \<Rightarrow> zx_duration \<Rightarrow> zx_time" where
  "zx_time_add_duration time duration =
     (let (overflow, x) = add_overflow time duration in
      if overflow then (if 0 \<le> sint x then TIME_INFINITE_PAST else TIME_INFINITE) else x)"

definition zx_time_sub_duration :: "zx_time \<Rightarrow> zx_duration \<Rightarrow> zx_time" where
  "zx_time_sub_duration time duration =
     (let (overflow, x) = sub_overflow time duration in
      if overflow then (if 0 \<le> sint x then TIME_INFINITE_PAST else TIME_INFINITE) else x)"

definition zx_time_sub_time :: "zx_time \<Rightarrow> zx_time \<Rightarrow> zx_duration" where
  "zx_time_sub_time time1 time2 =
     (let (overflow, x) = sub_overflow time1 time2 in
      if overflow then (if 0 \<le> sint x then TIME_INFINITE_PAST else TIME_INFINITE) else x)"

definition zx_duration_add_duration :: "zx_duration \<Rightarrow> zx_duration \<Rightarrow> zx_duration" where
  "zx_duration_add_duration dur1 dur2 =
     (let (overflow, x) = add_overflow dur1 dur2 in
      if overflow then (if 0 \<le> sint x then TIME_INFINITE_PAST else TIME_INFINITE) else x)"

definition zx_duration_sub_duration :: "zx_duration \<Rightarrow> zx_duration \<Rightarrow> zx_duration" where
  "zx_duration_sub_duration dur1 dur2 =
     (let (overflow, x) = sub_overflow dur1 dur2 in
      if overflow then (if 0 \<le> sint x then TIME_INFINITE_PAST else TIME_INFINITE) else x)"

definition zx_duration_mul_int64 :: "zx_duration \<Rightarrow> 64 word \<Rightarrow> zx_duration" where
  "zx_duration_mul_int64 duration multiplier =
     (let (overflow, x) = mul_overflow duration multiplier in
      if overflow then
        (if 0 < sint duration \<and> 0 < sint multiplier \<or> sint duration < 0 \<and> sint multiplier < 0
         then TIME_INFINITE else TIME_INFINITE_PAST)
      else x)"

definition zx_nsec_from_duration :: "zx_duration \<Rightarrow> 64 word" where
  "zx_nsec_from_duration n = n"
definition zx_duration_from_nsec :: "64 word \<Rightarrow> zx_duration" where
  "zx_duration_from_nsec n = zx_duration_mul_int64 1 n"
definition zx_duration_from_usec :: "64 word \<Rightarrow> zx_duration" where
  "zx_duration_from_usec n = zx_duration_mul_int64 1000 n"
definition zx_duration_from_msec :: "64 word \<Rightarrow> zx_duration" where
  "zx_duration_from_msec n = zx_duration_mul_int64 1000000 n"
definition zx_duration_from_sec :: "64 word \<Rightarrow> zx_duration" where
  "zx_duration_from_sec n = zx_duration_mul_int64 1000000000 n"
definition zx_duration_from_min :: "64 word \<Rightarrow> zx_duration" where
  "zx_duration_from_min n = zx_duration_mul_int64 60000000000 n"
definition zx_duration_from_hour :: "64 word \<Rightarrow> zx_duration" where
  "zx_duration_from_hour n = zx_duration_mul_int64 3600000000000 n"

section \<open>Slack and deadlines\<close>

datatype slack_mode = TIMER_SLACK_CENTER | TIMER_SLACK_EARLY | TIMER_SLACK_LATE

record timer_slack =
  ts_amount :: zx_duration
  ts_mode :: slack_mode

definition TimerSlack_none :: timer_slack where
  "TimerSlack_none = \<lparr>ts_amount = 0, ts_mode = TIMER_SLACK_CENTER\<rparr>"

definition TimerSlack_eq :: "timer_slack \<Rightarrow> timer_slack \<Rightarrow> bool" where
  "TimerSlack_eq lhs rhs \<longleftrightarrow> ts_amount lhs = ts_amount rhs \<and> ts_mode lhs = ts_mode rhs"

record deadline =
  dl_when :: zx_time
  dl_slack :: timer_slack

definition Deadline_no_slack :: "zx_time \<Rightarrow> deadline" where
  "Deadline_no_slack t = \<lparr>dl_when = t, dl_slack = TimerSlack_none\<rparr>"

definition Deadline_infinite :: deadline where
  "Deadline_infinite = \<lparr>dl_when = TIME_INFINITE, dl_slack = TimerSlack_none\<rparr>"

definition Deadline_earliest :: "deadline \<Rightarrow> zx_time" where
  "Deadline_earliest d = (case ts_mode (dl_slack d) of
     TIMER_SLACK_CENTER \<Rightarrow> zx_time_sub_duration (dl_when d) (ts_amount (dl_slack d))
   | TIMER_SLACK_LATE \<Rightarrow> dl_when d
   | TIMER_SLACK_EARLY \<Rightarrow> zx_time_sub_duration (dl_when d) (ts_amount (dl_slack d)))"

definition Deadline_latest :: "deadline \<Rightarrow> zx_time" where
  "Deadline_latest d = (case ts_mode (dl_slack d) of
     TIMER_SLACK_CENTER \<Rightarrow> zx_time_add_duration (dl_when d) (ts_amount (dl_slack d))
   | TIMER_SLACK_LATE \<Rightarrow> zx_time_add_duration (dl_when d) (ts_amount (dl_slack d))
   | TIMER_SLACK_EARLY \<Rightarrow> dl_when d)"

section \<open>The operations clamp\<close>

definition clamp_time :: "int \<Rightarrow> int" where
  "clamp_time k = max (- (2 ^ 63)) (min (2 ^ 63 - 1) k)"

lemma sint_64_bounds: "- (2 ^ 63) \<le> sint (a :: 64 word)" "sint (a :: 64 word) < 2 ^ 63"
  using sint_ge [of a] sint_lt [of a] by simp_all

lemma sint_time_limits [simp]:
  "sint TIME_INFINITE = 2 ^ 63 - 1" "sint TIME_INFINITE_PAST = - (2 ^ 63)"
  by (simp_all add: TIME_INFINITE_def TIME_INFINITE_PAST_def)

lemma signed_take_64_in_range:
  "- (2 ^ 63) \<le> k \<Longrightarrow> k < 2 ^ 63 \<Longrightarrow> signed_take_bit 63 (k :: int) = k"
  by (simp add: signed_take_bit_int_eq_self)

lemma signed_take_64_above:
  "2 ^ 63 \<le> k \<Longrightarrow> k < 2 ^ 64 \<Longrightarrow> signed_take_bit 63 (k :: int) = k - 2 ^ 64"
proof -
  assume "2 ^ 63 \<le> k" "k < 2 ^ 64"
  then have "(k + 2 ^ 63) mod 2 ^ 64 = k + 2 ^ 63 - 2 ^ 64"
    by (intro int_mod_pos_eq [where q = 1]) auto
  then show ?thesis
    by (simp add: signed_take_bit_eq_take_bit_shift take_bit_eq_mod)
qed

lemma signed_take_64_below:
  "- (2 ^ 64) \<le> k \<Longrightarrow> k < - (2 ^ 63) \<Longrightarrow> signed_take_bit 63 (k :: int) = k + 2 ^ 64"
proof -
  assume "- (2 ^ 64) \<le> k" "k < - (2 ^ 63)"
  then have "(k + 2 ^ 63) mod 2 ^ 64 = k + 2 ^ 63 + 2 ^ 64"
    by (intro int_mod_pos_eq [where q = "- 1"]) auto
  then show ?thesis
    by (simp add: signed_take_bit_eq_take_bit_shift take_bit_eq_mod)
qed

lemma sint_add_64: "sint (a + b :: 64 word) = signed_take_bit 63 (sint a + sint b)"
  by (simp add: signed_take_bit_add sint_word_ariths)

lemma sint_sub_64: "sint (a - b :: 64 word) = signed_take_bit 63 (sint a - sint b)"
  by (simp add: signed_take_bit_diff sint_word_ariths)

lemma sint_mul_64: "sint (a * b :: 64 word) = signed_take_bit 63 (sint a * sint b)"
  by (simp add: signed_take_bit_mult sint_word_ariths)

text \<open>
  The sign of the wrapped result tells the direction of the overflow for a sum or a difference:
  this is the lemma behind all five additive operations.
\<close>

lemma overflow_clamps:
  assumes "- (2 ^ 64) \<le> k" "k < 2 ^ 64" "sint x = signed_take_bit 63 k"
  shows "sint (if k \<noteq> sint x then (if 0 \<le> sint x then TIME_INFINITE_PAST else TIME_INFINITE) else x)
         = clamp_time k"
proof -
  consider "k < - (2 ^ 63)" | "- (2 ^ 63) \<le> k \<and> k < 2 ^ 63" | "2 ^ 63 \<le> k" by linarith
  then show ?thesis
  proof cases
    case 1
    then have "sint x = k + 2 ^ 64" using assms signed_take_64_below by simp
    then show ?thesis using 1 assms(1) by (simp add: clamp_time_def)
  next
    case 2
    then have "sint x = k" using assms signed_take_64_in_range by simp
    then show ?thesis using 2 by (simp add: clamp_time_def)
  next
    case 3
    then have "sint x = k - 2 ^ 64" using assms signed_take_64_above by simp
    then show ?thesis using 3 assms(2) by (simp add: clamp_time_def)
  qed
qed

lemma sum_in_65_bits:
  "- (2 ^ 64) \<le> sint a + sint (b :: 64 word)" "sint (a :: 64 word) + sint (b :: 64 word) < 2 ^ 64"
  "- (2 ^ 64) \<le> sint a - sint (b :: 64 word)" "sint (a :: 64 word) - sint (b :: 64 word) < 2 ^ 64"
  using sint_64_bounds [of a] sint_64_bounds [of b] by simp_all

lemmas time_op_defs = zx_time_add_duration_def zx_time_sub_duration_def zx_time_sub_time_def
  zx_duration_add_duration_def zx_duration_sub_duration_def add_overflow_def sub_overflow_def

lemma sint_time_ops:
  "sint (zx_time_add_duration t d) = clamp_time (sint t + sint d)"
  "sint (zx_time_sub_duration t d) = clamp_time (sint t - sint d)"
  "sint (zx_time_sub_time t d) = clamp_time (sint t - sint d)"
  "sint (zx_duration_add_duration t d) = clamp_time (sint t + sint d)"
  "sint (zx_duration_sub_duration t d) = clamp_time (sint t - sint d)"
  unfolding time_op_defs Let_def split
  by (rule overflow_clamps, rule sum_in_65_bits, rule sum_in_65_bits, simp only: sint_add_64 sint_sub_64)+

lemma sint_mul_duration: "sint (zx_duration_mul_int64 d m) = clamp_time (sint d * sint m)"
proof (cases "sint (d * m) = sint d * sint m")
  case True
  then show ?thesis
    using sint_64_bounds [of "d * m"]
    by (simp add: zx_duration_mul_int64_def mul_overflow_def clamp_time_def)
next
  case False
  then have out: "\<not> (- (2 ^ 63) \<le> sint d * sint m \<and> sint d * sint m < 2 ^ 63)"
    using signed_take_64_in_range sint_mul_64 by metis
  show ?thesis
  proof (cases "0 < sint d \<and> 0 < sint m \<or> sint d < 0 \<and> sint m < 0")
    case True
    then have "0 < sint d * sint m" by (auto simp: mult_pos_pos mult_neg_neg)
    then show ?thesis using False True out
      by (simp add: zx_duration_mul_int64_def mul_overflow_def clamp_time_def)
  next
    case neg: False
    then have "sint d * sint m \<le> 0" by (auto simp: mult_le_0_iff not_less)
    then show ?thesis using False neg out
      by (simp add: zx_duration_mul_int64_def mul_overflow_def clamp_time_def)
  qed
qed


lemma clamp_time_bracket:
  "- (2 ^ 63) \<le> k \<Longrightarrow> k < 2 ^ 63 \<Longrightarrow> 0 \<le> d \<Longrightarrow> clamp_time (k - d) \<le> k \<and> k \<le> clamp_time (k + d)"
  by (auto simp: clamp_time_def)

lemma deadline_window:
  assumes "0 \<le> sint (ts_amount (dl_slack d))"
  shows "sint (Deadline_earliest d) \<le> sint (dl_when d) \<and> sint (dl_when d) \<le> sint (Deadline_latest d)"
  using clamp_time_bracket [OF sint_64_bounds(1) sint_64_bounds(2) assms]
  by (auto simp: Deadline_earliest_def Deadline_latest_def sint_time_ops split: slack_mode.splits)

end
