(* ===== verification/Timer_Queue.thy ===== *)
theory Timer_Queue
  imports Zx_Time
begin

text \<open>
  The kernel timer queues, \<^verbatim>\<open>kernel/kernel/timer.cc\<close>: one queue of timers per processor, ordered by
  scheduled time, a hardware timer that is programmed for the head, coalescing of timers whose slack
  windows overlap, cancellation that waits for a running callback, and the migration of a queue when
  a processor goes away. Operations under the timer lock are one step; \<open>timer_tick\<close> gives up the lock
  around every callback and is split there, \<open>timer_cancel\<close> is split before it spins.
\<close>

section \<open>State\<close>

type_synonym cpu = nat
type_synonym timer_id = nat

text \<open>
  \<^verbatim>\<open>timer_t\<close>. The list node is the processor whose queue it is linked into, a null callback and a
  negative \<^verbatim>\<open>active_cpu\<close> are \<open>None\<close>.
\<close>

record ktimer =
  kt_node :: "cpu option"
  kt_scheduled_time :: zx_time
  kt_slack :: zx_duration
  kt_callback :: "nat option"
  kt_arg :: nat
  kt_active_cpu :: "cpu option"
  kt_cancel :: bool

definition timer_init :: ktimer where
  "timer_init = \<lparr>kt_node = None, kt_scheduled_time = 0, kt_slack = 0, kt_callback = None, kt_arg = 0,
     kt_active_cpu = None, kt_cancel = False\<rparr>"

text \<open>
  The timers, the part of \<^verbatim>\<open>percpu\<close> the timer code uses, the hardware timer of each processor
  (the deadline it is programmed for) and the statistics.
\<close>

record timer_world =
  tw_timer :: "timer_id \<Rightarrow> ktimer"
  tw_timer_queue :: "cpu \<Rightarrow> timer_id list"
  tw_preempt_timer_deadline :: "cpu \<Rightarrow> zx_time"
  tw_next_timer_deadline :: "cpu \<Rightarrow> zx_time"
  tw_oneshot :: "cpu \<Rightarrow> zx_time option"
  tw_created :: nat
  tw_coalesced :: nat
  tw_fired :: nat
  tw_canceled :: nat

definition timer_world_init :: timer_world where
  "timer_world_init = \<lparr>tw_timer = (\<lambda>_. timer_init), tw_timer_queue = (\<lambda>_. []),
     tw_preempt_timer_deadline = (\<lambda>_. TIME_INFINITE), tw_next_timer_deadline = (\<lambda>_. TIME_INFINITE),
     tw_oneshot = (\<lambda>_. None), tw_created = 0, tw_coalesced = 0, tw_fired = 0, tw_canceled = 0\<rparr>"

abbreviation sched :: "'a timer_world_scheme \<Rightarrow> timer_id \<Rightarrow> zx_time" where
  "sched w t \<equiv> kt_scheduled_time (tw_timer w t)"

definition upd_timer :: "timer_id \<Rightarrow> (ktimer \<Rightarrow> ktimer) \<Rightarrow> 'a timer_world_scheme \<Rightarrow> 'a timer_world_scheme" where
  "upd_timer t f w = w\<lparr>tw_timer := (tw_timer w)(t := f (tw_timer w t))\<rparr>"

section \<open>Operations\<close>

definition update_platform_timer :: "cpu \<Rightarrow> zx_time \<Rightarrow> 'a timer_world_scheme \<Rightarrow> 'a timer_world_scheme" where
  "update_platform_timer cpu new_deadline w =
     (if sint new_deadline < sint (tw_next_timer_deadline w cpu)
      then w\<lparr>tw_oneshot := (tw_oneshot w)(cpu := Some new_deadline),
             tw_next_timer_deadline := (tw_next_timer_deadline w)(cpu := new_deadline)\<rparr>
      else w)"

text \<open>
  The walk of \<open>insert_timer_in_queue\<close> over the queue: the new queue, the scheduled time and the slack
  of the inserted timer, and whether it was coalesced. \<open>sc\<close> is the scheduled time of queued timers.
\<close>

fun insert_walk ::
    "(timer_id \<Rightarrow> zx_time) \<Rightarrow> timer_id \<Rightarrow> zx_time \<Rightarrow> zx_time \<Rightarrow> zx_time \<Rightarrow> timer_id list \<Rightarrow>
     timer_id list \<times> zx_time \<times> zx_duration \<times> bool" where
  "insert_walk sc t scheduled earliest latest [] = ([t], scheduled, 0, False)"
| "insert_walk sc t scheduled earliest latest (entry # rest) =
     (if sint (sc entry) > sint latest then (t # entry # rest, scheduled, 0, False)
      else if sint (sc entry) \<ge> sint scheduled
      then (entry # t # rest, sc entry, zx_time_sub_time (sc entry) scheduled, True)
      else if sint (sc entry) < sint earliest
         \<or> (case rest of [] \<Rightarrow> False
            | next # _ \<Rightarrow> sint (sc next) \<le> sint scheduled
                \<or> sint (sc next) < sint latest
                   \<and> sint (zx_time_sub_time (sc next) scheduled) < sint (zx_time_sub_time scheduled (sc entry)))
      then (let (q, r) = insert_walk sc t scheduled earliest latest rest in (entry # q, r))
      else (entry # t # rest, sc entry, zx_time_sub_time (sc entry) scheduled, True))"

definition insert_timer_in_queue ::
    "cpu \<Rightarrow> timer_id \<Rightarrow> zx_time \<Rightarrow> zx_time \<Rightarrow> 'a timer_world_scheme \<Rightarrow> 'a timer_world_scheme" where
  "insert_timer_in_queue cpu t earliest latest w =
     (let (q, st, sl, coalesced) = insert_walk (sched w) t (sched w t) earliest latest (tw_timer_queue w cpu);
          w1 = upd_timer t (\<lambda>k. k\<lparr>kt_node := Some cpu, kt_scheduled_time := st, kt_slack := sl\<rparr>) w
      in w1\<lparr>tw_timer_queue := (tw_timer_queue w1)(cpu := q),
            tw_coalesced := tw_coalesced w1 + (if coalesced then 1 else 0)\<rparr>)"

text \<open>\<open>timer_set\<close>; \<open>None\<close> is one of its two panics.\<close>

definition timer_set ::
    "cpu \<Rightarrow> timer_id \<Rightarrow> deadline \<Rightarrow> nat option \<Rightarrow> nat \<Rightarrow> 'a timer_world_scheme \<Rightarrow> 'a timer_world_scheme option" where
  "timer_set cpu t d callback arg w =
     (if kt_node (tw_timer w t) \<noteq> None then None
      else if kt_active_cpu (tw_timer w t) = Some cpu \<and> kt_cancel (tw_timer w t) then Some w
      else if kt_active_cpu (tw_timer w t) \<noteq> Some cpu \<and> kt_active_cpu (tw_timer w t) \<noteq> None then None
      else
        (let w1 = upd_timer t (\<lambda>k. k\<lparr>kt_scheduled_time := dl_when d, kt_callback := callback,
                                      kt_arg := arg, kt_cancel := False\<rparr>) w;
             w2 = insert_timer_in_queue cpu t (Deadline_earliest d) (Deadline_latest d) w1;
             w3 = w2\<lparr>tw_created := tw_created w2 + 1\<rparr>
         in Some (if hd (tw_timer_queue w3 cpu) = t then update_platform_timer cpu (dl_when d) w3 else w3)))"

definition timer_preempt_reset :: "cpu \<Rightarrow> zx_time \<Rightarrow> 'a timer_world_scheme \<Rightarrow> 'a timer_world_scheme" where
  "timer_preempt_reset cpu d w = update_platform_timer cpu d
     (w\<lparr>tw_preempt_timer_deadline := (tw_preempt_timer_deadline w)(cpu := d)\<rparr>)"

definition timer_preempt_cancel :: "cpu \<Rightarrow> 'a timer_world_scheme \<Rightarrow> 'a timer_world_scheme" where
  "timer_preempt_cancel cpu w =
     w\<lparr>tw_preempt_timer_deadline := (tw_preempt_timer_deadline w)(cpu := TIME_INFINITE)\<rparr>"

text \<open>Unlinking a timer from the queue its node is in.\<close>

definition list_delete :: "timer_id \<Rightarrow> 'a timer_world_scheme \<Rightarrow> 'a timer_world_scheme" where
  "list_delete t w =
     (case kt_node (tw_timer w t) of
        None \<Rightarrow> w
      | Some c \<Rightarrow> upd_timer t (\<lambda>k. k\<lparr>kt_node := None\<rparr>)
          (w\<lparr>tw_timer_queue := (tw_timer_queue w)(c := remove1 t (tw_timer_queue w c))\<rparr>))"

text \<open>
  \<open>timer_cancel\<close> under the lock: it either returns (called from the timer's own callback) or goes on
  to spin until the timer is not active, remembering what it will return.
\<close>

datatype cancel_progress = Cancel_Return bool | Cancel_Spin bool

definition timer_cancel_locked ::
    "cpu \<Rightarrow> timer_id \<Rightarrow> 'a timer_world_scheme \<Rightarrow> cancel_progress \<times> 'a timer_world_scheme" where
  "timer_cancel_locked cpu t w0 =
     (let w = upd_timer t (\<lambda>k. k\<lparr>kt_cancel := True\<rparr>) w0 in
      if kt_active_cpu (tw_timer w t) = Some cpu
      then (Cancel_Return False, upd_timer t (\<lambda>k. k\<lparr>kt_callback := None, kt_arg := 0\<rparr>) w)
      else if kt_node (tw_timer w t) \<noteq> None then
        (let oldhead = (case tw_timer_queue w cpu of [] \<Rightarrow> None | h # _ \<Rightarrow> Some h);
             w1 = list_delete t w;
             w2 = w1\<lparr>tw_canceled := tw_canceled w1 + 1\<rparr>
         in (Cancel_Spin True,
             if oldhead = Some t then
               (case tw_timer_queue w2 cpu of
                  newhead # _ \<Rightarrow> update_platform_timer cpu (sched w2 newhead) w2
                | [] \<Rightarrow> if tw_next_timer_deadline w2 cpu = TIME_INFINITE
                        then w2\<lparr>tw_oneshot := (tw_oneshot w2)(cpu := None)\<rparr> else w2)
             else w2))
      else (Cancel_Spin False, w))"

definition timer_cancel_finish :: "timer_id \<Rightarrow> 'a timer_world_scheme \<Rightarrow> 'a timer_world_scheme" where
  "timer_cancel_finish t w = upd_timer t (\<lambda>k. k\<lparr>kt_callback := None, kt_arg := 0\<rparr>) w"

text \<open>
  \<open>timer_tick\<close> in four parts: entering it (the preemption tick of the scheduler is outside the timer
  state), taking the head off the queue when it is due, the end of its callback, and programming the
  hardware for what is left.
\<close>

definition tick_enter :: "cpu \<Rightarrow> zx_time \<Rightarrow> 'a timer_world_scheme \<Rightarrow> 'a timer_world_scheme" where
  "tick_enter cpu now w =
     (let w1 = w\<lparr>tw_next_timer_deadline := (tw_next_timer_deadline w)(cpu := TIME_INFINITE)\<rparr>
      in if sint now \<ge> sint (tw_preempt_timer_deadline w1 cpu)
         then w1\<lparr>tw_preempt_timer_deadline := (tw_preempt_timer_deadline w1)(cpu := TIME_INFINITE)\<rparr>
         else w1)"

definition tick_take ::
    "cpu \<Rightarrow> zx_time \<Rightarrow> 'a timer_world_scheme \<Rightarrow> (timer_id \<times> 'a timer_world_scheme) option" where
  "tick_take cpu now w =
     (case tw_timer_queue w cpu of
        [] \<Rightarrow> None
      | t # _ \<Rightarrow>
          if sint now < sint (sched w t) then None
          else (let w1 = upd_timer t (\<lambda>k. k\<lparr>kt_active_cpu := Some cpu\<rparr>) (list_delete t w)
                in Some (t, w1\<lparr>tw_fired := tw_fired w1 + 1\<rparr>)))"

definition tick_done :: "timer_id \<Rightarrow> 'a timer_world_scheme \<Rightarrow> 'a timer_world_scheme" where
  "tick_done t w = upd_timer t (\<lambda>k. k\<lparr>kt_active_cpu := None\<rparr>) w"

definition tick_leave :: "cpu \<Rightarrow> 'a timer_world_scheme \<Rightarrow> 'a timer_world_scheme" where
  "tick_leave cpu w =
     (let d = (case tw_timer_queue w cpu of [] \<Rightarrow> TIME_INFINITE | t # _ \<Rightarrow> sched w t);
          d' = (if sint (tw_preempt_timer_deadline w cpu) < sint d then tw_preempt_timer_deadline w cpu else d)
      in update_platform_timer cpu d' w)"

text \<open>
  The loop of \<open>timer_tick\<close> with the callback as a function on the world; it collects the timers
  it fired. A callback may set its timer again, so the loop may run forever.
\<close>

partial_function (option) tick_loop ::
    "(timer_id \<Rightarrow> timer_world \<Rightarrow> timer_world) \<Rightarrow> cpu \<Rightarrow> zx_time \<Rightarrow> timer_id list \<Rightarrow> timer_world \<Rightarrow>
     (timer_id list \<times> timer_world) option" where
  "tick_loop cb cpu now fired w =
     (case tick_take cpu now w of
        None \<Rightarrow> Some (fired, w)
      | Some (t, w1) \<Rightarrow> tick_loop cb cpu now (fired @ [t]) (tick_done t (cb t w1)))"

definition timer_tick ::
    "(timer_id \<Rightarrow> timer_world \<Rightarrow> timer_world) \<Rightarrow> cpu \<Rightarrow> zx_time \<Rightarrow> timer_world \<Rightarrow> (timer_id list \<times> timer_world) option" where
  "timer_tick cb cpu now w =
     (case tick_loop cb cpu now [] (tick_enter cpu now w) of
        None \<Rightarrow> None
      | Some (ts, w1) \<Rightarrow> Some (ts, tick_leave cpu w1))"

fun move_timers :: "cpu \<Rightarrow> timer_id list \<Rightarrow> 'a timer_world_scheme \<Rightarrow> 'a timer_world_scheme" where
  "move_timers cpu [] w = w"
| "move_timers cpu (entry # rest) w =
     move_timers cpu rest (let w1 = list_delete entry w
        in insert_timer_in_queue cpu entry (sched w1 entry) (sched w1 entry) w1)"

definition timer_transition_off_cpu :: "cpu \<Rightarrow> cpu \<Rightarrow> 'a timer_world_scheme \<Rightarrow> 'a timer_world_scheme" where
  "timer_transition_off_cpu cpu old_cpu w =
     (let old_head = (case tw_timer_queue w cpu of [] \<Rightarrow> None | h # _ \<Rightarrow> Some h);
          w1 = move_timers cpu (tw_timer_queue w old_cpu) w;
          w2 = (case tw_timer_queue w1 cpu of
                  [] \<Rightarrow> w1
                | new_head # _ \<Rightarrow> if Some new_head \<noteq> old_head
                                  then update_platform_timer cpu (sched w1 new_head) w1 else w1)
      in w2\<lparr>tw_preempt_timer_deadline := (tw_preempt_timer_deadline w2)(old_cpu := TIME_INFINITE),
            tw_next_timer_deadline := (tw_next_timer_deadline w2)(old_cpu := TIME_INFINITE)\<rparr>)"

definition timer_thaw_percpu :: "cpu \<Rightarrow> 'a timer_world_scheme \<Rightarrow> 'a timer_world_scheme" where
  "timer_thaw_percpu cpu w =
     (let w1 = w\<lparr>tw_next_timer_deadline := (tw_next_timer_deadline w)(cpu := TIME_INFINITE)\<rparr>;
          d = (case tw_timer_queue w1 cpu of
                 [] \<Rightarrow> tw_preempt_timer_deadline w1 cpu
               | t # _ \<Rightarrow> if sint (sched w1 t) < sint (tw_preempt_timer_deadline w1 cpu) then sched w1 t
                          else tw_preempt_timer_deadline w1 cpu)
      in update_platform_timer cpu d w1)"

section \<open>Inserting into the queue\<close>

text \<open>What the walk is for: the relation between the window of the new timer and its result.\<close>

definition in_window :: "zx_time \<Rightarrow> zx_time \<Rightarrow> zx_time \<Rightarrow> bool" where
  "in_window earliest latest x \<longleftrightarrow> sint earliest \<le> sint x \<and> sint x \<le> sint latest"

definition by_time :: "(timer_id \<Rightarrow> zx_time) \<Rightarrow> timer_id list \<Rightarrow> bool" where
  "by_time sc q \<longleftrightarrow> sorted_wrt (\<lambda>a b. sint (sc a) \<le> sint (sc b)) q"

lemma by_time_simps [simp]:
  "by_time sc []" "by_time sc (e # q) \<longleftrightarrow> (\<forall>x\<in>set q. sint (sc e) \<le> sint (sc x)) \<and> by_time sc q"
  by (simp_all add: by_time_def)

lemma by_time_head: "by_time sc (h # q) \<Longrightarrow> x \<in> set (h # q) \<Longrightarrow> sint (sc h) \<le> sint (sc x)"
  by auto

lemma by_time_cong: "(\<And>x. x \<in> set q \<Longrightarrow> sc x = sc' x) \<Longrightarrow> by_time sc q = by_time sc' q"
  by (induction q) auto

lemma insert_walk_cases:
  assumes "insert_walk sc t s e l (x # q) = (q', st, sl, co)"
  obtains (before) "sint (sc x) > sint l" "q' = t # x # q" "st = s" "sl = 0" "\<not> co"
    | (join) "sint (sc x) \<le> sint l" "sint (sc x) \<ge> sint s \<or> sint (sc x) \<ge> sint e"
        "q' = x # t # q" "st = sc x" "sl = zx_time_sub_time (sc x) s" "co"
    | (on) q1 where "sint (sc x) < sint s" "sint (sc x) < sint e
          \<or> (\<exists>n q2. q = n # q2 \<and> (sint (sc n) \<le> sint s \<or> sint (sc n) < sint l))"
        "insert_walk sc t s e l q = (q1, st, sl, co)" "q' = x # q1"
proof -
  define c where "c \<longleftrightarrow> sint (sc x) < sint e \<or> (case q of [] \<Rightarrow> False
      | n # _ \<Rightarrow> sint (sc n) \<le> sint s \<or> sint (sc n) < sint l
           \<and> sint (zx_time_sub_time (sc n) s) < sint (zx_time_sub_time s (sc x)))"
  obtain q1 r where w: "insert_walk sc t s e l q = (q1, r)" by (cases "insert_walk sc t s e l q")
  have c: "sint (sc x) < sint e \<or> (\<exists>n q2. q = n # q2 \<and> (sint (sc n) \<le> sint s \<or> sint (sc n) < sint l))" if c
    using that by (auto simp: c_def split: list.splits)
  have e: "sint (sc x) \<ge> sint e" if "\<not> c" using that by (auto simp: c_def)
  from assms [unfolded insert_walk.simps, folded c_def, unfolded w]
  consider "sint (sc x) > sint l" "q' = t # x # q" "st = s" "sl = 0" "\<not> co"
    | "sint (sc x) \<le> sint l" "sint (sc x) \<ge> sint s \<or> \<not> c"
        "q' = x # t # q" "st = sc x" "sl = zx_time_sub_time (sc x) s" "co"
    | "sint (sc x) < sint s" "c" "r = (st, sl, co)" "q' = x # q1"
    by (auto simp: not_less not_le split: if_splits)
  then show thesis
    by cases (use before join on c e w in blast)+
qed

lemma insert_walk_mem:
  "insert_walk sc t s e l q = (q', st, sl, co) \<Longrightarrow> set q' = insert t (set q)"
proof (induction q arbitrary: q')
  case (Cons x q)
  from Cons.prems show ?case by (cases rule: insert_walk_cases) (use Cons.IH in auto)
qed auto

lemma insert_walk_distinct:
  "insert_walk sc t s e l q = (q', st, sl, co) \<Longrightarrow> distinct q \<Longrightarrow> t \<notin> set q \<Longrightarrow> distinct q'"
proof (induction q arbitrary: q')
  case (Cons x q)
  from Cons.prems(1) show ?case
    by (cases rule: insert_walk_cases) (use Cons insert_walk_mem [of sc t s e l q] in auto)
qed auto

lemma insert_walk_remove:
  "insert_walk sc t s e l q = (q', st, sl, co) \<Longrightarrow> t \<notin> set q \<Longrightarrow> remove1 t q' = q"
proof (induction q arbitrary: q')
  case (Cons x q)
  from Cons.prems(1) show ?case by (cases rule: insert_walk_cases) (use Cons in auto)
qed auto

lemma insert_walk_slack:
  "insert_walk sc t s e l q = (q', st, sl, co) \<Longrightarrow>
   sl = (if co then zx_time_sub_time st s else 0) \<and> (\<not> co \<longrightarrow> st = s) \<and> (co \<longrightarrow> st \<in> sc ` set q)"
proof (induction q arbitrary: q')
  case (Cons x q)
  from Cons.prems(1) show ?case by (cases rule: insert_walk_cases) (use Cons in auto)
qed auto

lemma insert_walk_window:
  "insert_walk sc t s e l q = (q', st, sl, co) \<Longrightarrow> sint e \<le> sint s \<Longrightarrow> sint s \<le> sint l \<Longrightarrow> in_window e l st"
proof (induction q arbitrary: q')
  case (Cons x q)
  from Cons.prems(1) show ?case by (cases rule: insert_walk_cases) (use Cons in \<open>auto simp: in_window_def\<close>)
qed (auto simp: in_window_def)

lemma insert_walk_coalesced:
  "insert_walk sc t s e l q = (q', st, sl, co) \<Longrightarrow> by_time sc q \<Longrightarrow> sint e \<le> sint s \<Longrightarrow> sint s \<le> sint l \<Longrightarrow>
   co \<longleftrightarrow> (\<exists>x\<in>set q. in_window e l (sc x))"
proof (induction q arbitrary: q')
  case (Cons x q)
  from Cons.prems(1) show ?case
  proof (cases rule: insert_walk_cases)
    case before
    then show ?thesis using Cons.prems(2) by (force simp: in_window_def)
  next
    case join
    then show ?thesis using Cons.prems(3) by (auto simp: in_window_def)
  next
    case (on q1)
    have IH: "co \<longleftrightarrow> (\<exists>x\<in>set q. in_window e l (sc x))" using Cons.IH [OF on(3)] Cons.prems by simp
    have "in_window e l (sc x) \<Longrightarrow> \<exists>y\<in>set q. in_window e l (sc y)"
      using on(2) Cons.prems(2,3,4) by (fastforce simp: in_window_def)
    then show ?thesis using IH by auto
  qed
qed (auto simp: in_window_def)

lemma insert_walk_sorted:
  "insert_walk sc t s e l q = (q', st, sl, co) \<Longrightarrow> by_time sc q \<Longrightarrow> t \<notin> set q \<Longrightarrow>
   sint s \<le> sint l \<Longrightarrow> by_time (sc(t := st)) q'"
proof (induction q arbitrary: q')
  case Nil
  then have "q' = [t]" by simp
  then show ?case by simp
next
  case (Cons x q)
  have eq: "by_time (sc(t := st)) q = by_time sc q" using Cons.prems(3) by (intro by_time_cong) auto
  from Cons.prems(1) show ?case
  proof (cases rule: insert_walk_cases)
    case before
    then have "\<forall>y\<in>set (x # q). sint s \<le> sint (sc y)" using Cons.prems(2,4) by force
    then show ?thesis using before eq Cons.prems(2,3) by (auto simp: fun_upd_def)
  next
    case join
    then show ?thesis using eq Cons.prems(2,3) by (auto simp: fun_upd_def)
  next
    case (on q1)
    have IH: "by_time (sc(t := st)) q1" by (rule Cons.IH [OF on(3)]) (use Cons.prems in simp_all)
    have "sint (sc x) \<le> sint st" using insert_walk_slack [OF on(3)] on(1) Cons.prems(2) by (cases co) auto
    then show ?thesis using IH on(4) insert_walk_mem [OF on(3)] Cons.prems(2,3) by (auto simp: fun_upd_def)
  qed
qed

lemma insert_walk_after_head:
  assumes "insert_walk sc t s e l q = (q', st, sl, co)" "by_time sc q" "t \<notin> set q" "sint s \<le> sint l" "hd q' \<noteq> t"
  shows "sint (sc (hd q')) \<le> sint st"
proof -
  have "t \<in> set q'" using insert_walk_mem [OF assms(1)] by simp
  then have "q' = hd q' # tl q'" by (cases q') auto
  then have "sint ((sc(t := st)) (hd q')) \<le> sint ((sc(t := st)) t)"
    using insert_walk_sorted [OF assms(1-4)] \<open>t \<in> set q'\<close> by_time_head by metis
  then show ?thesis using assms(5) by simp
qed

lemma insert_walk_head:
  "insert_walk sc t s e l q = (q', st, sl, co) \<Longrightarrow> t \<notin> set q \<Longrightarrow>
   (hd q' = t \<and> st = s) \<or> (q \<noteq> [] \<and> hd q' = hd q \<and> hd q' \<noteq> t)"
proof (cases q)
  case (Cons x r)
  assume "insert_walk sc t s e l q = (q', st, sl, co)" "t \<notin> set q"
  then show ?thesis unfolding Cons by (cases rule: insert_walk_cases) auto
qed auto

section \<open>The invariant of the queues\<close>

text \<open>Nodes and queues agree, and every queue is duplicate free and ordered by scheduled time.\<close>

definition tq_ok :: "'a timer_world_scheme \<Rightarrow> bool" where
  "tq_ok w \<longleftrightarrow> (\<forall>t c. kt_node (tw_timer w t) = Some c \<longleftrightarrow> t \<in> set (tw_timer_queue w c))
     \<and> (\<forall>c. distinct (tw_timer_queue w c) \<and> by_time (sched w) (tw_timer_queue w c))"

text \<open>The hardware is programmed for the recorded deadline, and that covers the queue and preemption.\<close>

definition armed :: "'a timer_world_scheme \<Rightarrow> cpu \<Rightarrow> bool" where
  "armed w c \<longleftrightarrow> tw_next_timer_deadline w c = TIME_INFINITE
     \<or> tw_oneshot w c = Some (tw_next_timer_deadline w c)"

definition covered :: "'a timer_world_scheme \<Rightarrow> cpu \<Rightarrow> bool" where
  "covered w c \<longleftrightarrow> sint (tw_next_timer_deadline w c) \<le> sint (tw_preempt_timer_deadline w c)
     \<and> (\<forall>t\<in>set (tw_timer_queue w c). sint (tw_next_timer_deadline w c) \<le> sint (sched w t))"

lemma tq_okD:
  assumes "tq_ok w"
  shows "kt_node (tw_timer w t) = Some c \<longleftrightarrow> t \<in> set (tw_timer_queue w c)"
    "distinct (tw_timer_queue w c)" "by_time (sched w) (tw_timer_queue w c)"
  using assms by (simp_all add: tq_ok_def)

lemma sint_le_infinite: "sint (x :: zx_time) \<le> sint TIME_INFINITE"
  using sint_64_bounds(2) [of x] by simp

text \<open>Programming the hardware.\<close>

lemma update_platform_timer_frame [simp]:
  "tw_timer (update_platform_timer c d w) = tw_timer w"
  "tw_timer_queue (update_platform_timer c d w) = tw_timer_queue w"
  "tw_preempt_timer_deadline (update_platform_timer c d w) = tw_preempt_timer_deadline w"
  "timer_world.more (update_platform_timer c d w) = timer_world.more w"
  "x \<noteq> c \<Longrightarrow> tw_next_timer_deadline (update_platform_timer c d w) x = tw_next_timer_deadline w x"
  "x \<noteq> c \<Longrightarrow> tw_oneshot (update_platform_timer c d w) x = tw_oneshot w x"
  by (simp_all add: update_platform_timer_def)

lemma update_platform_timer_next:
  "sint (tw_next_timer_deadline (update_platform_timer c d w) c)
   = min (sint d) (sint (tw_next_timer_deadline w c))"
  by (simp add: update_platform_timer_def)

lemma update_platform_timer_armed: "armed w x \<Longrightarrow> armed (update_platform_timer c d w) x"
  by (auto simp: armed_def update_platform_timer_def)

lemma tq_ok_update_platform_timer [simp]: "tq_ok (update_platform_timer c d w) = tq_ok w"
  by (simp add: tq_ok_def)

lemma covered_update_platform_timer: "covered w x \<Longrightarrow> covered (update_platform_timer c d w) x"
  by (cases "x = c") (auto simp: covered_def update_platform_timer_next)

text \<open>Inserting and deleting.\<close>

lemma insert_timer_effect:
  obtains q st sl co where
    "insert_walk (sched w) t (sched w t) e l (tw_timer_queue w c) = (q, st, sl, co)"
    "insert_timer_in_queue c t e l w = w\<lparr>
       tw_timer := (tw_timer w)(t := (tw_timer w t)\<lparr>kt_node := Some c, kt_scheduled_time := st, kt_slack := sl\<rparr>),
       tw_timer_queue := (tw_timer_queue w)(c := q),
       tw_coalesced := tw_coalesced w + (if co then 1 else 0)\<rparr>"
proof -
  obtain q st sl co where "insert_walk (sched w) t (sched w t) e l (tw_timer_queue w c) = (q, st, sl, co)"
    by (metis prod_cases4)
  then show thesis by (rule that) (simp add: insert_timer_in_queue_def upd_timer_def \<open>insert_walk _ _ _ _ _ _ = _\<close>)
qed

lemma insert_timer_frame [simp]:
  "tw_preempt_timer_deadline (insert_timer_in_queue c t e l w) = tw_preempt_timer_deadline w"
  "tw_next_timer_deadline (insert_timer_in_queue c t e l w) = tw_next_timer_deadline w"
  "tw_oneshot (insert_timer_in_queue c t e l w) = tw_oneshot w"
  "timer_world.more (insert_timer_in_queue c t e l w) = timer_world.more w"
  "x \<noteq> t \<Longrightarrow> tw_timer (insert_timer_in_queue c t e l w) x = tw_timer w x"
  "kt_active_cpu (tw_timer (insert_timer_in_queue c t e l w) x) = kt_active_cpu (tw_timer w x)"
  "kt_cancel (tw_timer (insert_timer_in_queue c t e l w) x) = kt_cancel (tw_timer w x)"
  "kt_node (tw_timer (insert_timer_in_queue c t e l w) t) = Some c"
  by (rule insert_timer_effect [of w t e l c], simp)+

lemma insert_timer_queue:
  "set (tw_timer_queue (insert_timer_in_queue c t e l w) c) = insert t (set (tw_timer_queue w c))"
  "x \<noteq> c \<Longrightarrow> tw_timer_queue (insert_timer_in_queue c t e l w) x = tw_timer_queue w x"
  by (rule insert_timer_effect [of w t e l c], simp add: insert_walk_mem)+

lemma insert_timer_tq_ok:
  assumes "tq_ok w" "kt_node (tw_timer w t) = None" "sint (sched w t) \<le> sint l"
  shows "tq_ok (insert_timer_in_queue c t e l w)"
proof -
  obtain q st sl co where iw: "insert_walk (sched w) t (sched w t) e l (tw_timer_queue w c) = (q, st, sl, co)"
    and eff: "insert_timer_in_queue c t e l w = w\<lparr>
       tw_timer := (tw_timer w)(t := (tw_timer w t)\<lparr>kt_node := Some c, kt_scheduled_time := st, kt_slack := sl\<rparr>),
       tw_timer_queue := (tw_timer_queue w)(c := q),
       tw_coalesced := tw_coalesced w + (if co then 1 else 0)\<rparr>"
    by (rule insert_timer_effect)
  have out: "t \<notin> set (tw_timer_queue w x)" for x using tq_okD(1) [OF assms(1), of t x] assms(2) by simp
  have mem: "set q = insert t (set (tw_timer_queue w c))" by (rule insert_walk_mem [OF iw])
  have d: "distinct q" by (rule insert_walk_distinct [OF iw tq_okD(2) [OF assms(1)] out])
  have sc: "sched (insert_timer_in_queue c t e l w) = (sched w)(t := st)" by (auto simp: eff)
  have s: "by_time ((sched w)(t := st)) q"
    by (rule insert_walk_sorted [OF iw tq_okD(3) [OF assms(1)] out assms(3)])
  have o: "by_time ((sched w)(t := st)) (tw_timer_queue w x)" for x
    using tq_okD(3) [OF assms(1), of x] out [of x] by (subst by_time_cong [of _ _ "sched w"]) auto
  have n: "kt_node (tw_timer w x) = Some y \<longleftrightarrow> x \<in> set (tw_timer_queue w y)" for x y
    by (rule tq_okD(1) [OF assms(1)])
  have "kt_node (tw_timer (insert_timer_in_queue c t e l w) x) = Some y
        \<longleftrightarrow> x \<in> set (tw_timer_queue (insert_timer_in_queue c t e l w) y)" for x y
    using n [of x y] out [of y] mem by (cases "x = t"; cases "y = c") (auto simp: eff)
  moreover have "distinct (tw_timer_queue (insert_timer_in_queue c t e l w) y)" for y
    using d tq_okD(2) [OF assms(1), of y] by (simp add: eff)
  moreover have "by_time ((sched w)(t := st)) (tw_timer_queue (insert_timer_in_queue c t e l w) y)" for y
    using s o [of y] by (simp add: eff)
  ultimately show ?thesis unfolding tq_ok_def sc by blast
qed

lemma list_delete_frame [simp]:
  "tw_preempt_timer_deadline (list_delete t w) = tw_preempt_timer_deadline w"
  "tw_next_timer_deadline (list_delete t w) = tw_next_timer_deadline w"
  "tw_oneshot (list_delete t w) = tw_oneshot w"
  "timer_world.more (list_delete t w) = timer_world.more w"
  "x \<noteq> t \<Longrightarrow> tw_timer (list_delete t w) x = tw_timer w x"
  "sched (list_delete t w) x = sched w x"
  "kt_active_cpu (tw_timer (list_delete t w) x) = kt_active_cpu (tw_timer w x)"
  "kt_cancel (tw_timer (list_delete t w) x) = kt_cancel (tw_timer w x)"
  "kt_node (tw_timer (list_delete t w) t) = None"
  by (simp_all add: list_delete_def upd_timer_def split: option.splits)

lemma list_delete_queue:
  "tq_ok w \<Longrightarrow> tw_timer_queue (list_delete t w) c = remove1 t (tw_timer_queue w c)"
  using tq_okD(1) [of w t c]
  by (auto simp: list_delete_def upd_timer_def remove1_idem split: option.splits)

lemma by_time_remove1: "by_time sc q \<Longrightarrow> by_time sc (remove1 t q)"
  by (induction q) (auto dest: notin_set_remove1 [rotated] set_remove1_subset [THEN subsetD])

lemma list_delete_tq_ok:
  assumes "tq_ok w" shows "tq_ok (list_delete t w)"
proof -
  have "kt_node (tw_timer (list_delete t w) x) = Some y \<longleftrightarrow> x \<in> set (tw_timer_queue (list_delete t w) y)" for x y
    using tq_okD(1) [OF assms, of x y] tq_okD(2) [OF assms, of y]
    by (cases "x = t") (simp_all add: list_delete_queue [OF assms])
  moreover have "sched (list_delete t w) = sched w" by (rule ext) simp
  ultimately show ?thesis
    using tq_okD(2,3) [OF assms] by (simp add: tq_ok_def list_delete_queue [OF assms] by_time_remove1)
qed

lemma covered_list_delete: "tq_ok w \<Longrightarrow> covered w c \<Longrightarrow> covered (list_delete t w) c"
  by (auto simp: covered_def list_delete_queue dest: set_remove1_subset [THEN subsetD])

section \<open>The timer system\<close>

text \<open>
  Processors run interleaved. \<open>ts_tick\<close> is the tick a processor is in, with its time and the timer
  whose callback is running; \<open>ts_spin\<close> is a cancellation that waits, with the value it will return.
  The interface forbids setting and cancelling one timer concurrently, except from its own callback.
\<close>

record timer_sys = timer_world +
  ts_tick :: "cpu \<Rightarrow> (zx_time \<times> timer_id option) option"
  ts_spin :: "timer_id \<Rightarrow> bool option"

definition timer_owned :: "cpu \<Rightarrow> timer_id \<Rightarrow> timer_sys \<Rightarrow> bool" where
  "timer_owned c t s \<longleftrightarrow> ts_spin s t = None \<or> kt_active_cpu (tw_timer s t) = Some c"

inductive timer_step :: "timer_sys \<Rightarrow> timer_sys \<Rightarrow> bool" where
  set: "timer_owned c t s \<Longrightarrow> 0 \<le> sint (ts_amount (dl_slack d)) \<Longrightarrow> timer_set c t d cb a s = Some s' \<Longrightarrow>
        timer_step s s'"
| cancel_in_callback: "timer_owned c t s \<Longrightarrow> timer_cancel_locked c t s = (Cancel_Return b, s') \<Longrightarrow>
        timer_step s s'"
| cancel: "ts_spin s t = None \<Longrightarrow> timer_cancel_locked c t s = (Cancel_Spin b, s') \<Longrightarrow>
        timer_step s (s'\<lparr>ts_spin := (ts_spin s')(t := Some b)\<rparr>)"
| cancel_return: "ts_spin s t = Some b \<Longrightarrow> kt_active_cpu (tw_timer s t) = None \<Longrightarrow>
        timer_step s ((timer_cancel_finish t s)\<lparr>ts_spin := (ts_spin s)(t := None)\<rparr>)"
| preempt_reset: "timer_step s (timer_preempt_reset c d s)"
| preempt_cancel: "timer_step s (timer_preempt_cancel c s)"
| tick_begin: "ts_tick s c = None \<Longrightarrow>
        timer_step s ((tick_enter c now s)\<lparr>ts_tick := (ts_tick s)(c := Some (now, None))\<rparr>)"
| tick_fire: "ts_tick s c = Some (now, None) \<Longrightarrow> tick_take c now s = Some (t, s') \<Longrightarrow>
        timer_step s (s'\<lparr>ts_tick := (ts_tick s)(c := Some (now, Some t))\<rparr>)"
| tick_fired: "ts_tick s c = Some (now, Some t) \<Longrightarrow>
        timer_step s ((tick_done t s)\<lparr>ts_tick := (ts_tick s)(c := Some (now, None))\<rparr>)"
| tick_end: "ts_tick s c = Some (now, None) \<Longrightarrow> tick_take c now s = None \<Longrightarrow>
        timer_step s ((tick_leave c s)\<lparr>ts_tick := (ts_tick s)(c := None)\<rparr>)"
| transition: "c \<noteq> old \<Longrightarrow> ts_tick s old = None \<Longrightarrow> timer_step s (timer_transition_off_cpu c old s)"
| thaw: "ts_tick s c = None \<Longrightarrow> timer_step s (timer_thaw_percpu c s)"

definition timer_sys_init :: timer_sys where
  "timer_sys_init = timer_world.extend timer_world_init \<lparr>ts_tick = (\<lambda>_. None), ts_spin = (\<lambda>_. None)\<rparr>"

definition timer_reachable :: "timer_sys \<Rightarrow> bool" where
  "timer_reachable s \<longleftrightarrow> timer_step\<^sup>*\<^sup>* timer_sys_init s"

text \<open>
  The invariant: the queues are well formed; the hardware is armed; outside a tick it covers the
  queue; a timer is active exactly while its callback runs, and then only queued on that processor;
  a timer somebody waits to cancel is marked and not queued.
\<close>

definition running_ok :: "timer_sys \<Rightarrow> bool" where
  "running_ok s \<longleftrightarrow> (\<forall>t c. kt_active_cpu (tw_timer s t) = Some c \<longleftrightarrow> (\<exists>now. ts_tick s c = Some (now, Some t)))
     \<and> (\<forall>t c c'. kt_node (tw_timer s t) = Some c \<longrightarrow> kt_active_cpu (tw_timer s t) = Some c' \<longrightarrow> c = c')"

definition spin_ok :: "timer_sys \<Rightarrow> bool" where
  "spin_ok s \<longleftrightarrow> (\<forall>t. ts_spin s t \<noteq> None \<longrightarrow> kt_cancel (tw_timer s t) \<and> kt_node (tw_timer s t) = None)"

definition hw_ok :: "timer_sys \<Rightarrow> bool" where
  "hw_ok s \<longleftrightarrow> (\<forall>c. armed s c) \<and> (\<forall>c. ts_tick s c = None \<longrightarrow> covered s c)"

definition timer_inv :: "timer_sys \<Rightarrow> bool" where
  "timer_inv s \<longleftrightarrow> tq_ok s \<and> hw_ok s \<and> running_ok s \<and> spin_ok s"

lemma timer_sys_more:
  "timer_world.more s = timer_world.more s' \<Longrightarrow> ts_tick (s :: timer_sys) = ts_tick s' \<and> ts_spin s = ts_spin s'"
  by (cases s; cases s') simp

lemma insert_timer_sys [simp]:
  fixes s :: timer_sys
  shows "ts_tick (insert_timer_in_queue c t e l s) = ts_tick s" "ts_spin (insert_timer_in_queue c t e l s) = ts_spin s"
  "ts_tick (update_platform_timer c d s) = ts_tick s" "ts_spin (update_platform_timer c d s) = ts_spin s"
  "ts_tick (list_delete t s) = ts_tick s" "ts_spin (list_delete t s) = ts_spin s"
  using timer_sys_more [of "insert_timer_in_queue c t e l s" s] timer_sys_more [of "update_platform_timer c d s" s]
    timer_sys_more [of "list_delete t s" s] by simp_all

text \<open>Setting a timer.\<close>

lemma covered_insert:
  assumes "covered w x" "kt_node (tw_timer w t) = None" "tq_ok w" "w' = insert_timer_in_queue c t e l w"
    "sint (sched w t) \<le> sint l"
  shows "covered (if hd (tw_timer_queue w' c) = t then update_platform_timer c (sched w t) w' else w') x"
proof -
  obtain q st sl co where iw: "insert_walk (sched w) t (sched w t) e l (tw_timer_queue w c) = (q, st, sl, co)"
    and eff: "w' = w\<lparr>
       tw_timer := (tw_timer w)(t := (tw_timer w t)\<lparr>kt_node := Some c, kt_scheduled_time := st, kt_slack := sl\<rparr>),
       tw_timer_queue := (tw_timer_queue w)(c := q),
       tw_coalesced := tw_coalesced w + (if co then 1 else 0)\<rparr>"
    unfolding assms(4) by (rule insert_timer_effect)
  have out: "t \<notin> set (tw_timer_queue w y)" for y using tq_okD(1) [OF assms(3), of t y] assms(2) by simp
  have mem: "set q = insert t (set (tw_timer_queue w c))" by (rule insert_walk_mem [OF iw])
  have old: "sint (tw_next_timer_deadline w x) \<le> sint (sched w y)" if "y \<in> set (tw_timer_queue w x)" for y
    using assms(1) that by (simp add: covered_def)
  show ?thesis
  proof (cases "x = c")
    case False
    then have "covered w' x" using assms(1) out [of x] by (auto simp: covered_def eff)
    then show ?thesis by (simp add: covered_update_platform_timer)
  next
    case True
    have rest: "sint (tw_next_timer_deadline w c) \<le> sint (sched w' y)" if "y \<in> set q" "y \<noteq> t" for y
      using that mem old True by (auto simp: eff)
    have pre: "sint (tw_next_timer_deadline w c) \<le> sint (tw_preempt_timer_deadline w c)"
      using assms(1) True by (simp add: covered_def)
    show ?thesis
    proof (cases co)
      case co: True
      then obtain y where "y \<in> set (tw_timer_queue w c)" "st = sched w y"
        using insert_walk_slack [OF iw] by auto
      then have "covered w' c" using old True rest pre by (fastforce simp: covered_def eff)
      then show ?thesis using True by (simp add: covered_update_platform_timer)
    next
      case False
      then have st: "st = sched w t" using insert_walk_slack [OF iw] by simp
      from insert_walk_head [OF iw out] show ?thesis
      proof
        assume "hd q = t \<and> st = sched w t"
        then show ?thesis using rest pre st mem True
          by (fastforce simp: covered_def update_platform_timer_next eff min_def)
      next
        assume h: "tw_timer_queue w c \<noteq> [] \<and> hd q = hd (tw_timer_queue w c) \<and> hd q \<noteq> t"
        have "hd q \<in> set (tw_timer_queue w c)" using h by simp
        then have "sint (tw_next_timer_deadline w c) \<le> sint (sched w (hd q))" using old True by simp
        moreover have "sint (sched w (hd q)) \<le> sint st" 
          by (rule insert_walk_after_head [OF iw tq_okD(3) [OF assms(3)] out assms(5)]) (use h in simp)
        ultimately have "covered w' c" using rest pre mem by (fastforce simp: covered_def eff)
        then show ?thesis using True h by (simp add: eff)
      qed
    qed
  qed
qed

text \<open>Fields the invariants do not look at.\<close>

lemma created_irrelevant [simp]:
  "tq_ok (w\<lparr>tw_created := n\<rparr>) = tq_ok w" "covered (w\<lparr>tw_created := n\<rparr>) c = covered w c"
  "armed (w\<lparr>tw_created := n\<rparr>) c = armed w c"
  "tq_ok (w\<lparr>tw_canceled := n\<rparr>) = tq_ok w" "covered (w\<lparr>tw_canceled := n\<rparr>) c = covered w c"
  "armed (w\<lparr>tw_canceled := n\<rparr>) c = armed w c"
  "tq_ok (w\<lparr>tw_fired := n\<rparr>) = tq_ok w" "covered (w\<lparr>tw_fired := n\<rparr>) c = covered w c"
  "armed (w\<lparr>tw_fired := n\<rparr>) c = armed w c"
  "tq_ok (s\<lparr>ts_tick := f\<rparr>) = tq_ok s" "covered (s\<lparr>ts_tick := f\<rparr>) c = covered s c"
  "armed (s\<lparr>ts_tick := f\<rparr>) c = armed s c"
  "tq_ok (s\<lparr>ts_spin := g\<rparr>) = tq_ok s" "covered (s\<lparr>ts_spin := g\<rparr>) c = covered s c"
  "armed (s\<lparr>ts_spin := g\<rparr>) c = armed s c"
  by (simp_all add: tq_ok_def covered_def armed_def)

lemma update_platform_timer_created:
  "update_platform_timer c d (w\<lparr>tw_created := n\<rparr>) = (update_platform_timer c d w)\<lparr>tw_created := n\<rparr>"
  by (simp add: update_platform_timer_def)

lemma upd_timer_frame [simp]:
  "tw_timer_queue (upd_timer t f w) = tw_timer_queue w"
  "tw_preempt_timer_deadline (upd_timer t f w) = tw_preempt_timer_deadline w"
  "tw_next_timer_deadline (upd_timer t f w) = tw_next_timer_deadline w"
  "tw_oneshot (upd_timer t f w) = tw_oneshot w"
  "tw_timer (upd_timer t f w) = (tw_timer w)(t := f (tw_timer w t))"
  "ts_tick (upd_timer t f s) = ts_tick s" "ts_spin (upd_timer t f s) = ts_spin s"
  "armed (upd_timer t f w) c = armed w c"
  by (simp_all add: upd_timer_def armed_def)

text \<open>A change of a timer that keeps its node, and its time unless it is not queued.\<close>

lemma upd_timer_ok:
  assumes "tq_ok w" "kt_node (f (tw_timer w t)) = kt_node (tw_timer w t)"
    "kt_node (tw_timer w t) = None \<or> kt_scheduled_time (f (tw_timer w t)) = sched w t"
  shows "tq_ok (upd_timer t f w)" "covered (upd_timer t f w) c = covered w c"
proof -
  have same: "sched (upd_timer t f w) x = sched w x" if "x \<in> set (tw_timer_queue w y)" for x y
    using that assms(3) tq_okD(1) [OF assms(1), of x y] by auto
  have "by_time (sched (upd_timer t f w)) (tw_timer_queue w y)" for y
    using tq_okD(3) [OF assms(1), of y] by_time_cong [of "tw_timer_queue w y" "sched (upd_timer t f w)" "sched w"] same
    by blast
  then show "tq_ok (upd_timer t f w)"
    using assms(1,2) by (auto simp: tq_ok_def)
  show "covered (upd_timer t f w) c = covered w c"
    unfolding covered_def using same by simp
qed

lemma timer_set_inv:
  assumes "timer_inv s" "timer_owned c t s" "0 \<le> sint (ts_amount (dl_slack d))" "timer_set c t d cb a s = Some s'"
  shows "timer_inv s'"
proof (cases "kt_active_cpu (tw_timer s t) = Some c \<and> kt_cancel (tw_timer s t)")
  case True
  then show ?thesis using assms(1,4) by (simp add: timer_set_def split: if_splits)
next
  case False
  define w1 where "w1 = upd_timer t (\<lambda>k. k\<lparr>kt_scheduled_time := dl_when d, kt_callback := cb,
      kt_arg := a, kt_cancel := False\<rparr>) s"
  define w2 where "w2 = insert_timer_in_queue c t (Deadline_earliest d) (Deadline_latest d) w1"
  have node: "kt_node (tw_timer s t) = None" and act: "kt_active_cpu (tw_timer s t) \<in> {None, Some c}"
    and s': "s' = (if hd (tw_timer_queue w2 c) = t then update_platform_timer c (dl_when d) w2 else w2)
                  \<lparr>tw_created := tw_created w2 + 1\<rparr>"
    using assms(4) False
    by (auto simp: timer_set_def w1_def [symmetric] w2_def [symmetric] Let_def update_platform_timer_created
        split: if_splits)
  have inv: "tq_ok s" "hw_ok s" "running_ok s" "spin_ok s" using assms(1) by (simp_all add: timer_inv_def)
  have w1: "tq_ok w1" "covered w1 x = covered s x" "kt_node (tw_timer w1 t) = None" "sched w1 t = dl_when d" for x
    unfolding w1_def using upd_timer_ok [OF inv(1)] node by simp_all
  have late: "sint (sched w1 t) \<le> sint (Deadline_latest d)" using deadline_window [OF assms(3)] w1(4) by simp
  have spin: "ts_spin s t = None" using assms(2) inv(4) False by (auto simp: timer_owned_def spin_ok_def)
  have tm: "kt_active_cpu (tw_timer s' x) = kt_active_cpu (tw_timer s x)"
    "x \<noteq> t \<Longrightarrow> kt_cancel (tw_timer s' x) = kt_cancel (tw_timer s x) \<and> kt_node (tw_timer s' x) = kt_node (tw_timer s x)"
    "kt_node (tw_timer s' t) = Some c" for x
    by (simp_all add: s' w2_def w1_def)
  have more: "ts_tick s' = ts_tick s" "ts_spin s' = ts_spin s" by (simp_all add: s' w2_def w1_def)
  have "tq_ok s'" unfolding s' using insert_timer_tq_ok [OF w1(1,3) late] by (simp add: w2_def)
  moreover have "covered s' x" if "covered s x" for x
    using covered_insert [OF _ w1(3,1) w2_def late, of x] that unfolding s' w1(2,4) by simp
  moreover have "armed s' x" if "armed s x" for x
  proof -
    have "armed w2 x" using that by (simp add: w2_def w1_def armed_def)
    then show ?thesis by (simp add: s' update_platform_timer_armed)
  qed
  ultimately have "tq_ok s'" "hw_ok s'" using inv(2) by (simp_all add: hw_ok_def more)
  moreover have "running_ok s'"
    using inv(3) act tm more unfolding running_ok_def by (metis insert_iff option.distinct(1) option.inject singletonD)
  moreover have "spin_ok s'"
    using inv(4) spin tm more unfolding spin_ok_def by metis
  ultimately show ?thesis by (simp add: timer_inv_def)
qed

text \<open>Cancelling.\<close>

lemma timer_cancel_locked_effect:
  assumes "tq_ok w" "timer_cancel_locked c t w = (r, w')"
  shows "tq_ok w'" "\<And>x. covered w x \<Longrightarrow> covered w' x" "\<And>x. armed w x \<Longrightarrow> armed w' x"
    "\<And>x. kt_active_cpu (tw_timer w' x) = kt_active_cpu (tw_timer w x)"
    "\<And>x. x \<noteq> t \<Longrightarrow> kt_node (tw_timer w' x) = kt_node (tw_timer w x) \<and> kt_cancel (tw_timer w' x) = kt_cancel (tw_timer w x)"
    "kt_cancel (tw_timer w' t)"
    "kt_node (tw_timer w' t) = None \<or> kt_node (tw_timer w' t) = kt_node (tw_timer w t)"
    "r = Cancel_Spin b \<Longrightarrow> kt_node (tw_timer w' t) = None"
    "timer_world.more w' = timer_world.more w"
proof -
  define w1 where "w1 = upd_timer t (\<lambda>k. k\<lparr>kt_cancel := True\<rparr>) w"
  define w2 where "w2 = (list_delete t w1)\<lparr>tw_canceled := tw_canceled (list_delete t w1) + 1\<rparr>"
  define w3 where "w3 = upd_timer t (\<lambda>k. k\<lparr>kt_callback := None, kt_arg := 0\<rparr>) w1"
  have w1: "tq_ok w1" "covered w1 x = covered w x" "armed w1 x = armed w x" for x
    using upd_timer_ok [OF assms(1)] by (simp_all add: w1_def)
  have w2: "tq_ok w2" "covered w x \<Longrightarrow> covered w2 x" "armed w2 x = armed w x" for x
    using list_delete_tq_ok [OF w1(1)] covered_list_delete [OF w1(1)] w1(2,3) by (simp_all add: w2_def armed_def)
  have w3: "tq_ok w3" "covered w3 x = covered w x" "armed w3 x = armed w x" for x
    using upd_timer_ok [OF w1(1)] w1(2,3) by (simp_all add: w3_def)
  have stop: "tq_ok (w2\<lparr>tw_oneshot := f\<rparr>) = tq_ok w2" "covered (w2\<lparr>tw_oneshot := f\<rparr>) x = covered w2 x" for f x
    by (simp_all add: tq_ok_def covered_def)
  have stop_armed: "armed (w2\<lparr>tw_oneshot := (tw_oneshot w2)(c := None)\<rparr>) x"
    if "tw_next_timer_deadline w2 c = TIME_INFINITE" "armed w x" for x
    using that w2(3) [of x] by (auto simp: armed_def)
  have more: "timer_world.more w1 = timer_world.more w" "timer_world.more w2 = timer_world.more w"
    "timer_world.more w3 = timer_world.more w"
    by (simp_all add: w1_def w2_def w3_def upd_timer_def)
  have tm: "tw_timer w1 x = (if x = t then (tw_timer w t)\<lparr>kt_cancel := True\<rparr> else tw_timer w x)"
    "kt_active_cpu (tw_timer w2 x) = kt_active_cpu (tw_timer w x)"
    "kt_cancel (tw_timer w2 x) = kt_cancel (tw_timer w1 x)"
    "x \<noteq> t \<Longrightarrow> tw_timer w2 x = tw_timer w x" "kt_node (tw_timer w2 t) = None"
    "kt_node (tw_timer w3 x) = kt_node (tw_timer w x)" "kt_active_cpu (tw_timer w3 x) = kt_active_cpu (tw_timer w x)"
    "kt_cancel (tw_timer w3 x) = kt_cancel (tw_timer w1 x)" for x
    by (simp_all add: w1_def w2_def w3_def)
  have eq: "timer_cancel_locked c t w =
     (if kt_active_cpu (tw_timer w1 t) = Some c then (Cancel_Return False, w3)
      else if kt_node (tw_timer w1 t) \<noteq> None then
        (Cancel_Spin True,
             if (case tw_timer_queue w1 c of [] \<Rightarrow> None | h # _ \<Rightarrow> Some h) = Some t then
               (case tw_timer_queue w2 c of
                  newhead # _ \<Rightarrow> update_platform_timer c (sched w2 newhead) w2
                | [] \<Rightarrow> if tw_next_timer_deadline w2 c = TIME_INFINITE
                        then w2\<lparr>tw_oneshot := (tw_oneshot w2)(c := None)\<rparr> else w2)
             else w2)
      else (Cancel_Spin False, w1))"
    unfolding timer_cancel_locked_def Let_def w1_def w2_def w3_def by (rule refl)
  consider "r = Cancel_Return False" "w' = w3"
    | "r = Cancel_Spin False" "w' = w1" "kt_node (tw_timer w t) = None"
    | "r = Cancel_Spin True" "w' = w2"
    | y where "r = Cancel_Spin True" "w' = update_platform_timer c (sched w2 y) w2"
    | "r = Cancel_Spin True" "w' = w2\<lparr>tw_oneshot := (tw_oneshot w2)(c := None)\<rparr>"
        "tw_next_timer_deadline w2 c = TIME_INFINITE"
    using assms(2) unfolding eq by (auto simp: tm(1) split: if_splits list.splits)
  note cs = this
  show "tq_ok w'" using cs by cases (simp_all add: w1 w2 w3 stop)
  show "covered w' x" if "covered w x" for x
    using cs by cases (use that in \<open>simp_all add: w1 w2 w3 stop covered_update_platform_timer\<close>)
  show "armed w' x" if "armed w x" for x
    using cs by cases (use that in \<open>simp_all add: w1 w2 w3 update_platform_timer_armed stop_armed\<close>)
  show "kt_active_cpu (tw_timer w' x) = kt_active_cpu (tw_timer w x)" for x
    using cs by cases (simp_all add: tm)
  show "kt_node (tw_timer w' x) = kt_node (tw_timer w x) \<and> kt_cancel (tw_timer w' x) = kt_cancel (tw_timer w x)"
    if "x \<noteq> t" for x using cs by cases (use that in \<open>simp_all add: tm\<close>)
  show "kt_cancel (tw_timer w' t)" using cs by cases (simp_all add: tm)
  show "kt_node (tw_timer w' t) = None \<or> kt_node (tw_timer w' t) = kt_node (tw_timer w t)"
    using cs by cases (simp_all add: tm)
  show "kt_node (tw_timer w' t) = None" if "r = Cancel_Spin b" using cs by cases (use that in \<open>simp_all add: tm\<close>)
  show "timer_world.more w' = timer_world.more w" using cs by cases (simp_all add: more)
qed

lemma timer_cancel_inv:
  assumes "timer_inv s" "timer_cancel_locked c t s = (r, s')"
    "u = ts_spin s \<or> (\<exists>b b'. r = Cancel_Spin b \<and> u = (ts_spin s)(t := b'))"
  shows "timer_inv (s'\<lparr>ts_spin := u\<rparr>)"
proof -
  have inv: "tq_ok s" "hw_ok s" "running_ok s" "spin_ok s" using assms(1) by (simp_all add: timer_inv_def)
  note e = timer_cancel_locked_effect [OF inv(1) assms(2)]
  have more: "ts_tick s' = ts_tick s" "ts_spin s' = ts_spin s" using timer_sys_more [OF e(9)] by simp_all
  have n: "kt_node (tw_timer s' x) = None \<or> kt_node (tw_timer s' x) = kt_node (tw_timer s x)" for x
    using e(5,7) by (cases "x = t") auto
  have "hw_ok (s'\<lparr>ts_spin := u\<rparr>)" using inv(2) e(2,3) by (simp add: hw_ok_def more)
  moreover have "running_ok (s'\<lparr>ts_spin := u\<rparr>)"
    using inv(3) n e(4) by (auto simp: running_ok_def more) (metis option.distinct(1))
  moreover have "spin_ok (s'\<lparr>ts_spin := u\<rparr>)"
    unfolding spin_ok_def
  proof (intro allI impI)
    fix x assume x: "ts_spin (s'\<lparr>ts_spin := u\<rparr>) x \<noteq> None"
    show "kt_cancel (tw_timer (s'\<lparr>ts_spin := u\<rparr>) x) \<and> kt_node (tw_timer (s'\<lparr>ts_spin := u\<rparr>) x) = None"
    proof (cases "x = t")
      case True
      then show ?thesis using x assms(3) e(6,7,8) inv(4) by (auto simp: spin_ok_def)
    next
      case False
      then have "ts_spin s x \<noteq> None" using x assms(3) by auto
      then show ?thesis using False e(5) inv(4) by (simp add: spin_ok_def)
    qed
  qed
  ultimately show ?thesis using e(1) by (simp add: timer_inv_def)
qed

text \<open>Ticks.\<close>

lemma tick_take_effect:
  assumes "tq_ok w" "tick_take c now w = Some (t, w')"
  shows "tq_ok w'" "\<And>x. covered w x \<Longrightarrow> covered w' x" "\<And>x. armed w' x = armed w x"
    "t \<in> set (tw_timer_queue w c)" "sint (sched w t) \<le> sint now" "timer_world.more w' = timer_world.more w"
    "kt_active_cpu (tw_timer w' t) = Some c" "kt_node (tw_timer w' t) = None"
    "\<And>x. x \<noteq> t \<Longrightarrow> tw_timer w' x = tw_timer w x"
    "tw_timer_queue w' c = tl (tw_timer_queue w c)"
proof -
  define w1 where "w1 = list_delete t w"
  define w2 where "w2 = upd_timer t (\<lambda>k. k\<lparr>kt_active_cpu := Some c\<rparr>) w1"
  have q: "tw_timer_queue w c = t # tl (tw_timer_queue w c)" "sint (sched w t) \<le> sint now"
    "w' = w2\<lparr>tw_fired := tw_fired w2 + 1\<rparr>"
    using assms(2) by (auto simp: tick_take_def w1_def w2_def Let_def split: list.splits if_splits)
  have w1: "tq_ok w1" using list_delete_tq_ok [OF assms(1)] by (simp add: w1_def)
  have w2: "tq_ok w2" "covered w2 x = covered w1 x" for x using upd_timer_ok [OF w1] by (simp_all add: w2_def)
  show "tq_ok w'" by (simp add: q(3) w2)
  show "covered w' x" if "covered w x" for x
    using covered_list_delete [OF assms(1) that, of t] by (simp add: q(3) w2 w1_def)
  show "armed w' x = armed w x" for x by (simp add: q(3) w2_def w1_def armed_def)
  show "t \<in> set (tw_timer_queue w c)" by (subst q(1)) simp
  show "sint (sched w t) \<le> sint now" by (rule q(2))
  show "timer_world.more w' = timer_world.more w" by (simp add: q(3) w2_def w1_def upd_timer_def)
  show "kt_active_cpu (tw_timer w' t) = Some c" "kt_node (tw_timer w' t) = None"
    by (simp_all add: q(3) w2_def w1_def)
  show "tw_timer w' x = tw_timer w x" if "x \<noteq> t" for x using that by (simp add: q(3) w2_def w1_def)
  have "tw_timer_queue w' c = remove1 t (tw_timer_queue w c)"
    by (simp add: q(3) w2_def w1_def list_delete_queue [OF assms(1)])
  then show "tw_timer_queue w' c = tl (tw_timer_queue w c)" by (subst (asm) q(1)) simp
qed

lemma tick_begin_inv:
  assumes "timer_inv s" "ts_tick s c = None"
  shows "timer_inv ((tick_enter c now s)\<lparr>ts_tick := (ts_tick s)(c := Some (now, None))\<rparr>)"
proof -
  define s1 where "s1 = tick_enter c now s"
  have f: "tw_timer s1 = tw_timer s" "tw_timer_queue s1 = tw_timer_queue s" "tw_oneshot s1 = tw_oneshot s"
    "ts_spin s1 = ts_spin s" "tw_next_timer_deadline s1 = (tw_next_timer_deadline s)(c := TIME_INFINITE)"
    "x \<noteq> c \<Longrightarrow> tw_preempt_timer_deadline s1 x = tw_preempt_timer_deadline s x" for x
    by (simp_all add: s1_def tick_enter_def Let_def)
  have inv: "tq_ok s" "hw_ok s" "running_ok s" "spin_ok s" using assms(1) by (simp_all add: timer_inv_def)
  have "tq_ok s1" using inv(1) by (simp add: tq_ok_def f)
  moreover have "hw_ok (s1\<lparr>ts_tick := (ts_tick s)(c := Some (now, None))\<rparr>)"
    using inv(2) by (auto simp: hw_ok_def armed_def covered_def f)
  moreover have "running_ok (s1\<lparr>ts_tick := (ts_tick s)(c := Some (now, None))\<rparr>)"
    using inv(3) assms(2) by (auto simp: running_ok_def f)
  moreover have "spin_ok (s1\<lparr>ts_tick := (ts_tick s)(c := Some (now, None))\<rparr>)"
    using inv(4) by (simp add: spin_ok_def f)
  ultimately show ?thesis by (simp add: timer_inv_def flip: s1_def)
qed

lemma tick_fire_inv:
  assumes "timer_inv s" "ts_tick s c = Some (now, None)" "tick_take c now s = Some (t, s')"
  shows "timer_inv (s'\<lparr>ts_tick := (ts_tick s)(c := Some (now, Some t))\<rparr>)"
proof -
  have inv: "tq_ok s" "hw_ok s" "running_ok s" "spin_ok s" using assms(1) by (simp_all add: timer_inv_def)
  note e = tick_take_effect [OF inv(1) assms(3)]
  have sp: "ts_spin s' = ts_spin s" using timer_sys_more [OF e(6)] by simp
  have node: "kt_node (tw_timer s t) = Some c" using e(4) tq_okD(1) [OF inv(1)] by simp
  have idle: "kt_active_cpu (tw_timer s x) \<noteq> Some c" for x using inv(3) assms(2) by (simp add: running_ok_def)
  have act: "kt_active_cpu (tw_timer s t) = None"
    using inv(3) node idle [of t] unfolding running_ok_def by (metis not_None_eq)
  have run: "kt_active_cpu (tw_timer s x) = Some y \<longleftrightarrow> (\<exists>n. ts_tick s y = Some (n, Some x))" for x y
    using inv(3) by (simp add: running_ok_def)
  have none: "ts_tick s y \<noteq> Some (n, Some t)" for y n using run [of t y] act by simp
  have "hw_ok (s'\<lparr>ts_tick := (ts_tick s)(c := Some (now, Some t))\<rparr>)"
    using inv(2) e(2,3) by (simp add: hw_ok_def)
  moreover have "running_ok (s'\<lparr>ts_tick := (ts_tick s)(c := Some (now, Some t))\<rparr>)"
    unfolding running_ok_def
  proof (intro conjI allI impI)
    fix x y
    show "kt_active_cpu (tw_timer (s'\<lparr>ts_tick := (ts_tick s)(c := Some (now, Some t))\<rparr>) x) = Some y
      \<longleftrightarrow> (\<exists>n. ts_tick (s'\<lparr>ts_tick := (ts_tick s)(c := Some (now, Some t))\<rparr>) y = Some (n, Some x))"
      using run [of x y] none [of y] idle [of x] act e(7,9) by (cases "x = t"; cases "y = c") auto
  next
    fix x y z
    assume "kt_node (tw_timer (s'\<lparr>ts_tick := (ts_tick s)(c := Some (now, Some t))\<rparr>) x) = Some y"
      "kt_active_cpu (tw_timer (s'\<lparr>ts_tick := (ts_tick s)(c := Some (now, Some t))\<rparr>) x) = Some z"
    then show "y = z" using inv(3) e(8,9) unfolding running_ok_def by (cases "x = t") auto
  qed
  moreover have "spin_ok (s'\<lparr>ts_tick := (ts_tick s)(c := Some (now, Some t))\<rparr>)"
    unfolding spin_ok_def
  proof (intro allI impI)
    fix x assume "ts_spin (s'\<lparr>ts_tick := (ts_tick s)(c := Some (now, Some t))\<rparr>) x \<noteq> None"
    then have x: "ts_spin s x \<noteq> None" by (simp add: sp)
    then have "x \<noteq> t" using inv(4) node by (auto simp: spin_ok_def)
    then show "kt_cancel (tw_timer (s'\<lparr>ts_tick := (ts_tick s)(c := Some (now, Some t))\<rparr>) x)
       \<and> kt_node (tw_timer (s'\<lparr>ts_tick := (ts_tick s)(c := Some (now, Some t))\<rparr>) x) = None"
      using x inv(4) e(9) by (simp add: spin_ok_def)
  qed
  ultimately show ?thesis using e(1) by (simp add: timer_inv_def)
qed

lemma tick_fired_inv:
  assumes "timer_inv s" "ts_tick s c = Some (now, Some t)"
  shows "timer_inv ((tick_done t s)\<lparr>ts_tick := (ts_tick s)(c := Some (now, None))\<rparr>)"
proof -
  have inv: "tq_ok s" "hw_ok s" "running_ok s" "spin_ok s" using assms(1) by (simp_all add: timer_inv_def)
  define s1 where "s1 = tick_done t s"
  have ok: "tq_ok s1" "covered s1 x = covered s x" "armed s1 x = armed s x" for x
    using upd_timer_ok [OF inv(1)] by (simp_all add: s1_def tick_done_def)
  have tm: "tw_timer s1 = (tw_timer s)(t := (tw_timer s t)\<lparr>kt_active_cpu := None\<rparr>)" "ts_spin s1 = ts_spin s"
    by (simp_all add: s1_def tick_done_def)
  have run: "kt_active_cpu (tw_timer s x) = Some y \<longleftrightarrow> (\<exists>n. ts_tick s y = Some (n, Some x))" for x y
    using inv(3) by (simp add: running_ok_def)
  have one: "kt_active_cpu (tw_timer s x) = Some c \<longleftrightarrow> x = t" for x using run [of x c] assms(2) by auto
  have "hw_ok (s1\<lparr>ts_tick := (ts_tick s)(c := Some (now, None))\<rparr>)" using inv(2) ok by (simp add: hw_ok_def)
  moreover have "running_ok (s1\<lparr>ts_tick := (ts_tick s)(c := Some (now, None))\<rparr>)"
    unfolding running_ok_def
  proof (intro conjI allI impI)
    fix x y
    show "kt_active_cpu (tw_timer (s1\<lparr>ts_tick := (ts_tick s)(c := Some (now, None))\<rparr>) x) = Some y
      \<longleftrightarrow> (\<exists>n. ts_tick (s1\<lparr>ts_tick := (ts_tick s)(c := Some (now, None))\<rparr>) y = Some (n, Some x))"
      using run [of x y] one [of x] by (cases "x = t"; cases "y = c") (auto simp: tm)
  next
    fix x y z
    assume "kt_node (tw_timer (s1\<lparr>ts_tick := (ts_tick s)(c := Some (now, None))\<rparr>) x) = Some y"
      "kt_active_cpu (tw_timer (s1\<lparr>ts_tick := (ts_tick s)(c := Some (now, None))\<rparr>) x) = Some z"
    then show "y = z" using inv(3) unfolding running_ok_def by (cases "x = t") (auto simp: tm)
  qed
  moreover have "spin_ok (s1\<lparr>ts_tick := (ts_tick s)(c := Some (now, None))\<rparr>)"
    using inv(4) by (simp add: spin_ok_def tm)
  ultimately show ?thesis using ok(1) by (simp add: timer_inv_def flip: s1_def)
qed

text \<open>
  Reprogramming the hardware for the earlier of the head of the queue and the preemption deadline,
  as the end of a tick and the thaw of a processor do.
\<close>

lemma covered_by_head:
  assumes "tq_ok w" "sint d \<le> sint (tw_preempt_timer_deadline w c)"
    "case tw_timer_queue w c of [] \<Rightarrow> True | t # _ \<Rightarrow> sint d \<le> sint (sched w t)"
  shows "covered (update_platform_timer c d w) c"
proof -
  have "sint d \<le> sint (sched w x)" if "x \<in> set (tw_timer_queue w c)" for x
    using that assms(3) tq_okD(3) [OF assms(1), of c] by (fastforce split: list.splits)
  then show ?thesis using assms(2) by (fastforce simp: covered_def update_platform_timer_next)
qed

lemma tick_end_inv:
  assumes "timer_inv s" "ts_tick s c = Some (now, None)"
  shows "timer_inv ((tick_leave c s)\<lparr>ts_tick := (ts_tick s)(c := None)\<rparr>)"
proof -
  have inv: "tq_ok s" "hw_ok s" "running_ok s" "spin_ok s" using assms(1) by (simp_all add: timer_inv_def)
  define h where "h = (case tw_timer_queue s c of [] \<Rightarrow> TIME_INFINITE | t # _ \<Rightarrow> sched s t)"
  define d where "d = (if sint (tw_preempt_timer_deadline s c) < sint h then tw_preempt_timer_deadline s c else h)"
  have eq: "tick_leave c s = update_platform_timer c d s" by (simp add: tick_leave_def d_def h_def Let_def)
  have "covered (update_platform_timer c d s) c"
    by (rule covered_by_head [OF inv(1)]) (auto simp: d_def h_def split: list.splits)
  then have "hw_ok ((tick_leave c s)\<lparr>ts_tick := (ts_tick s)(c := None)\<rparr>)"
    using inv(2) by (auto simp: hw_ok_def eq covered_update_platform_timer update_platform_timer_armed)
  moreover have "running_ok ((tick_leave c s)\<lparr>ts_tick := (ts_tick s)(c := None)\<rparr>)"
    using inv(3) assms(2) by (auto simp: running_ok_def eq)
  ultimately show ?thesis using inv(1,4) by (simp add: timer_inv_def eq spin_ok_def)
qed

lemma timer_thaw_inv:
  assumes "timer_inv s"
  shows "timer_inv (timer_thaw_percpu c s)"
proof -
  have inv: "tq_ok s" "hw_ok s" "running_ok s" "spin_ok s" using assms by (simp_all add: timer_inv_def)
  define s1 where "s1 = s\<lparr>tw_next_timer_deadline := (tw_next_timer_deadline s)(c := TIME_INFINITE)\<rparr>"
  define d where "d = (case tw_timer_queue s1 c of
                 [] \<Rightarrow> tw_preempt_timer_deadline s1 c
               | t # _ \<Rightarrow> if sint (sched s1 t) < sint (tw_preempt_timer_deadline s1 c) then sched s1 t
                          else tw_preempt_timer_deadline s1 c)"
  have eq: "timer_thaw_percpu c s = update_platform_timer c d s1"
    unfolding timer_thaw_percpu_def d_def s1_def Let_def by (rule refl)
  have ok: "tq_ok s1" using inv(1) by (simp add: tq_ok_def s1_def)
  have c: "covered (update_platform_timer c d s1) c"
    by (rule covered_by_head [OF ok]) (auto simp: d_def split: list.splits)
  have other: "covered s1 x = covered s x" if "x \<noteq> c" for x using that by (simp add: covered_def s1_def)
  have "covered (update_platform_timer c d s1) x" if "ts_tick s x = None" for x
    using inv(2) that c other [of x] by (cases "x = c") (auto simp: hw_ok_def covered_update_platform_timer)
  moreover have "armed s1 x" for x using inv(2) by (auto simp: hw_ok_def armed_def s1_def)
  moreover have "ts_tick s1 = ts_tick s" "tw_timer s1 = tw_timer s" "ts_spin s1 = ts_spin s" by (simp_all add: s1_def)
  ultimately show ?thesis
    using inv(3,4) ok
    by (auto simp: timer_inv_def eq hw_ok_def update_platform_timer_armed running_ok_def spin_ok_def)
qed

lemma timer_preempt_inv:
  assumes "timer_inv s"
  shows "timer_inv (timer_preempt_reset c d s)" "timer_inv (timer_preempt_cancel c s)"
proof -
  have inv: "tq_ok s" "hw_ok s" "running_ok s" "spin_ok s" using assms by (simp_all add: timer_inv_def)
  define s1 where "s1 e = s\<lparr>tw_preempt_timer_deadline := (tw_preempt_timer_deadline s)(c := e)\<rparr>" for e
  have f: "tq_ok (s1 e)" "armed (s1 e) x = armed s x" "ts_tick (s1 e) = ts_tick s" "tw_timer (s1 e) = tw_timer s"
    "ts_spin (s1 e) = ts_spin s" for e x
    using inv(1) by (simp_all add: s1_def tq_ok_def armed_def)
  have reset: "covered (update_platform_timer c d (s1 d)) x" if "covered s x" for x
    using that by (cases "x = c") (fastforce simp: covered_def s1_def update_platform_timer_next)+
  have off: "covered (s1 TIME_INFINITE) x" if "covered s x" for x
    using that sint_le_infinite by (auto simp: covered_def s1_def)
  have "hw_ok (timer_preempt_reset c d s)"
    using inv(2) reset f unfolding timer_preempt_reset_def s1_def [symmetric]
    by (simp add: hw_ok_def update_platform_timer_armed)
  then show "timer_inv (timer_preempt_reset c d s)"
    using inv(3,4) f unfolding timer_preempt_reset_def s1_def [symmetric]
    by (simp add: timer_inv_def running_ok_def spin_ok_def)
  have "hw_ok (timer_preempt_cancel c s)"
    using inv(2) off f unfolding timer_preempt_cancel_def s1_def [symmetric] by (simp add: hw_ok_def)
  then show "timer_inv (timer_preempt_cancel c s)"
    using inv(3,4) f unfolding timer_preempt_cancel_def s1_def [symmetric]
    by (simp add: timer_inv_def running_ok_def spin_ok_def)
qed

lemma timer_cancel_return_inv:
  assumes "timer_inv s"
  shows "timer_inv ((timer_cancel_finish t s)\<lparr>ts_spin := (ts_spin s)(t := None)\<rparr>)"
proof -
  have inv: "tq_ok s" "hw_ok s" "running_ok s" "spin_ok s" using assms by (simp_all add: timer_inv_def)
  define s1 where "s1 = timer_cancel_finish t s"
  have ok: "tq_ok s1" "covered s1 x = covered s x" "armed s1 x = armed s x" for x
    using upd_timer_ok [OF inv(1)] by (simp_all add: s1_def timer_cancel_finish_def)
  have tm: "kt_active_cpu (tw_timer s1 x) = kt_active_cpu (tw_timer s x)" "kt_node (tw_timer s1 x) = kt_node (tw_timer s x)"
    "kt_cancel (tw_timer s1 x) = kt_cancel (tw_timer s x)" "ts_tick s1 = ts_tick s" for x
    by (simp_all add: s1_def timer_cancel_finish_def)
  show ?thesis
    using inv(2,3,4) ok unfolding s1_def [symmetric]
    by (auto simp: timer_inv_def hw_ok_def running_ok_def spin_ok_def tm)
qed

text \<open>Migration.\<close>

lemma move_one:
  assumes "tq_ok w" "w1 = list_delete t w" "w' = insert_timer_in_queue c t (sched w1 t) (sched w1 t) w1"
    "kt_node (tw_timer w t) = Some old" "c \<noteq> old"
  shows "tq_ok w'" "set (tw_timer_queue w' c) = insert t (set (tw_timer_queue w c))"
    "set (tw_timer_queue w' old) = set (tw_timer_queue w old) - {t}"
    "\<And>x. x \<noteq> c \<Longrightarrow> x \<noteq> old \<Longrightarrow> tw_timer_queue w' x = tw_timer_queue w x"
proof -
  have w1: "tq_ok w1" "kt_node (tw_timer w1 t) = None" unfolding assms(2) using list_delete_tq_ok [OF assms(1)] by simp_all
  show "tq_ok w'" unfolding assms(3) by (rule insert_timer_tq_ok [OF w1]) simp
  have q: "tw_timer_queue w1 x = remove1 t (tw_timer_queue w x)" for x
    unfolding assms(2) by (rule list_delete_queue [OF assms(1)])
  have out: "t \<notin> set (tw_timer_queue w x)" if "x \<noteq> old" for x
    using tq_okD(1) [OF assms(1), of t x] assms(4) that by simp
  show "set (tw_timer_queue w' c) = insert t (set (tw_timer_queue w c))"
    unfolding assms(3) insert_timer_queue q using out [of c] assms(5) by (simp add: remove1_idem)
  show "set (tw_timer_queue w' old) = set (tw_timer_queue w old) - {t}"
    using tq_okD(2) [OF assms(1), of old]
    unfolding assms(3) insert_timer_queue(2) [OF assms(5) [symmetric]] by (simp add: q)
  show "tw_timer_queue w' x = tw_timer_queue w x" if "x \<noteq> c" "x \<noteq> old" for x
    using out [of x] that(2) unfolding assms(3) insert_timer_queue(2) [OF that(1)] by (simp add: q remove1_idem)
qed

lemma move_timers_effect:
  assumes "tq_ok w" "distinct L" "\<And>t. t \<in> set L \<Longrightarrow> kt_node (tw_timer w t) = Some old" "c \<noteq> old"
  shows "tq_ok (move_timers c L w)
    \<and> set (tw_timer_queue (move_timers c L w) c) = set L \<union> set (tw_timer_queue w c)
    \<and> set (tw_timer_queue (move_timers c L w) old) = set (tw_timer_queue w old) - set L
    \<and> (\<forall>x. x \<noteq> c \<longrightarrow> x \<noteq> old \<longrightarrow> tw_timer_queue (move_timers c L w) x = tw_timer_queue w x)
    \<and> (\<forall>t. t \<notin> set L \<longrightarrow> tw_timer (move_timers c L w) t = tw_timer w t)
    \<and> (\<forall>t. kt_active_cpu (tw_timer (move_timers c L w) t) = kt_active_cpu (tw_timer w t)
          \<and> kt_cancel (tw_timer (move_timers c L w) t) = kt_cancel (tw_timer w t))
    \<and> tw_next_timer_deadline (move_timers c L w) = tw_next_timer_deadline w
    \<and> tw_preempt_timer_deadline (move_timers c L w) = tw_preempt_timer_deadline w
    \<and> tw_oneshot (move_timers c L w) = tw_oneshot w
    \<and> timer_world.more (move_timers c L w) = timer_world.more w"
  using assms
proof (induction L arbitrary: w)
  case (Cons t L)
  define w1 where "w1 = list_delete t w"
  define w' where "w' = insert_timer_in_queue c t (sched w1 t) (sched w1 t) w1"
  have step: "move_timers c (t # L) w = move_timers c L w'" by (simp add: w'_def w1_def Let_def)
  have node: "kt_node (tw_timer w t) = Some old" using Cons.prems(3) by simp
  note m = move_one [OF Cons.prems(1) w1_def w'_def node Cons.prems(4)]
  have tm: "x \<noteq> t \<Longrightarrow> tw_timer w' x = tw_timer w x" "kt_active_cpu (tw_timer w' x) = kt_active_cpu (tw_timer w x)"
    "kt_cancel (tw_timer w' x) = kt_cancel (tw_timer w x)" for x
    by (simp_all add: w'_def w1_def)
  have fr: "tw_next_timer_deadline w' = tw_next_timer_deadline w" "tw_preempt_timer_deadline w' = tw_preempt_timer_deadline w"
    "tw_oneshot w' = tw_oneshot w" "timer_world.more w' = timer_world.more w"
    by (simp_all add: w'_def w1_def)
  have t: "t \<notin> set L" "distinct L" using Cons.prems(2) by simp_all
  have L: "kt_node (tw_timer w' x) = Some old" if "x \<in> set L" for x
  proof -
    have "x \<noteq> t" using that t by auto
    then show ?thesis using tm(1) [of x] Cons.prems(3) [of x] that by simp
  qed
  note IH = Cons.IH [OF m(1) t(2) L Cons.prems(4)]
  show ?case unfolding step using IH m tm fr by (auto; fastforce)
qed simp

lemma covered_head_update:
  assumes "tq_ok w" "sint (tw_next_timer_deadline w c) \<le> sint (tw_preempt_timer_deadline w c)"
    "tw_timer_queue w c = n # r"
  shows "covered (update_platform_timer c (sched w n) w) c"
  using assms(2,3) tq_okD(3) [OF assms(1), of c] by (fastforce simp: covered_def update_platform_timer_next)

lemma timer_transition_inv:
  assumes "timer_inv s" "c \<noteq> old" "ts_tick s old = None"
  shows "timer_inv (timer_transition_off_cpu c old s)"
proof -
  have inv: "tq_ok s" "hw_ok s" "running_ok s" "spin_ok s" using assms(1) by (simp_all add: timer_inv_def)
  define L where "L = tw_timer_queue s old"
  define s1 where "s1 = move_timers c L s"
  define s2 where "s2 = (case tw_timer_queue s1 c of [] \<Rightarrow> s1
     | n # _ \<Rightarrow> if Some n \<noteq> (case tw_timer_queue s c of [] \<Rightarrow> None | h # _ \<Rightarrow> Some h)
                then update_platform_timer c (sched s1 n) s1 else s1)"
  define s3 where "s3 = s2\<lparr>tw_preempt_timer_deadline := (tw_preempt_timer_deadline s2)(old := TIME_INFINITE),
            tw_next_timer_deadline := (tw_next_timer_deadline s2)(old := TIME_INFINITE)\<rparr>"
  have eq: "timer_transition_off_cpu c old s = s3"
    unfolding timer_transition_off_cpu_def L_def s1_def s2_def s3_def Let_def by (rule refl)
  have nodes: "kt_node (tw_timer s t) = Some old" if "t \<in> set L" for t
    using that tq_okD(1) [OF inv(1), of t old] by (simp add: L_def)
  have dL: "distinct L" using tq_okD(2) [OF inv(1)] by (simp add: L_def)
  note mv = move_timers_effect [OF inv(1) dL nodes assms(2), folded s1_def]
  have m: "tq_ok s1" "set (tw_timer_queue s1 c) = set L \<union> set (tw_timer_queue s c)" "tw_timer_queue s1 old = []"
    "x \<noteq> c \<Longrightarrow> x \<noteq> old \<Longrightarrow> tw_timer_queue s1 x = tw_timer_queue s x" "t \<notin> set L \<Longrightarrow> tw_timer s1 t = tw_timer s t"
    "kt_active_cpu (tw_timer s1 t) = kt_active_cpu (tw_timer s t)" "kt_cancel (tw_timer s1 t) = kt_cancel (tw_timer s t)"
    "tw_next_timer_deadline s1 = tw_next_timer_deadline s" "tw_preempt_timer_deadline s1 = tw_preempt_timer_deadline s"
    "tw_oneshot s1 = tw_oneshot s" "timer_world.more s1 = timer_world.more s" for x t
    using mv by (auto simp: L_def)
  have more: "ts_tick s1 = ts_tick s" "ts_spin s1 = ts_spin s" using timer_sys_more [OF m(11)] by simp_all
  have timer_s3: "tw_timer s3 = tw_timer s1" "tw_timer_queue s3 = tw_timer_queue s1" "ts_tick s3 = ts_tick s"
    "ts_spin s3 = ts_spin s"
    by (simp_all add: s3_def s2_def more split: list.splits)
  have cov: "covered s3 x" if "ts_tick s x = None" for x
  proof -
    have cs: "covered s x" using inv(2) that by (simp add: hw_ok_def)
    show ?thesis
    proof (cases "x = old")
      case True
      then show ?thesis using m(3) by (simp add: covered_def timer_s3) (simp add: s3_def)
    next
      case False
      have "covered s2 x"
      proof (cases "x = c")
        case True
        have pre: "sint (tw_next_timer_deadline s1 c) \<le> sint (tw_preempt_timer_deadline s1 c)"
          using cs True m(8,9) by (simp add: covered_def)
        have head: "covered s1 c" if "tw_timer_queue s1 c = n # r" "n \<in> set (tw_timer_queue s c)" for n r
        proof -
          have "n \<notin> set L" using that(2) tq_okD(1) [OF inv(1), of n c] nodes [of n] assms(2) by auto
          then have "sint (tw_next_timer_deadline s1 c) \<le> sint (sched s1 n)"
            using cs True that(2) m(5,8) by (simp add: covered_def)
          then show ?thesis using pre that(1) tq_okD(3) [OF m(1), of c] by (fastforce simp: covered_def)
        qed
        show ?thesis
          using pre head covered_head_update [OF m(1) pre] True
          by (auto simp: s2_def covered_def split: list.splits)
      next
        case other: False
        have "y \<notin> set L" if "y \<in> set (tw_timer_queue s x)" for y
          using that tq_okD(1) [OF inv(1), of y x] nodes [of y] False by auto
        then have "covered s1 x" using cs m(4) [OF other False] m(5,8,9) by (simp add: covered_def)
        then show ?thesis by (auto simp: s2_def covered_update_platform_timer split: list.splits)
      qed
      then show ?thesis using False by (simp add: covered_def s3_def)
    qed
  qed
  have "armed s1 x" for x using inv(2) m(8,10) by (simp add: hw_ok_def armed_def)
  then have "armed s2 x" for x by (simp add: s2_def update_platform_timer_armed split: list.splits)
  then have "armed s3 x" for x by (simp add: armed_def s3_def)
  moreover have "tq_ok s3" using m(1) by (simp add: tq_ok_def timer_s3)
  moreover have "running_ok s3"
    using inv(3) assms(3) nodes m(5,6) unfolding running_ok_def timer_s3 by (metis option.distinct(1))
  moreover have "spin_ok s3"
    using inv(4) nodes m(5,7) unfolding spin_ok_def timer_s3 by (metis option.distinct(1))
  ultimately show ?thesis using cov by (simp add: eq timer_inv_def hw_ok_def timer_s3)
qed

section \<open>Properties\<close>

lemma timer_step_inv: "timer_step s s' \<Longrightarrow> timer_inv s \<Longrightarrow> timer_inv s'"
proof (induction rule: timer_step.induct)
  case (cancel_in_callback c t s b s')
  have "ts_spin s' = ts_spin s"
    using timer_cancel_locked_effect(9) [OF _ cancel_in_callback(2)] cancel_in_callback(3) timer_sys_more [of s' s]
    by (simp add: timer_inv_def)
  then have "s'\<lparr>ts_spin := ts_spin s\<rparr> = s'" by simp
  then show ?case using timer_cancel_inv [OF cancel_in_callback(3,2), of "ts_spin s"] by simp
next
  case (cancel s t c b s')
  have "ts_spin s' = ts_spin s"
    using timer_cancel_locked_effect(9) [OF _ cancel(2)] cancel(3) timer_sys_more [of s' s] by (simp add: timer_inv_def)
  then show ?case using timer_cancel_inv [OF cancel(3,2), of "(ts_spin s)(t := Some b)"] by auto
qed (blast intro: timer_set_inv timer_cancel_return_inv timer_preempt_inv tick_begin_inv tick_fire_inv
    tick_fired_inv tick_end_inv timer_transition_inv timer_thaw_inv)+

lemma timer_init_inv: "timer_inv timer_sys_init"
  by (simp add: timer_inv_def timer_sys_init_def timer_world_init_def timer_world.defs timer_init_def
      tq_ok_def hw_ok_def armed_def covered_def running_ok_def spin_ok_def by_time_def)

lemma timer_reachable_inv: "timer_reachable s \<Longrightarrow> timer_inv s"
  unfolding timer_reachable_def by (induction rule: rtranclp_induct) (simp_all add: timer_init_inv timer_step_inv)

text \<open>
  The timer queues are well formed in every reachable state of any number of processors:
  a timer is in at most the queue its node names and there once, and every queue is ordered by
  scheduled time, through coalescing, callbacks that set their timer again, cancellation from other
  processors and the migration of queues.
\<close>

lemma timer_queues_ordered:
  assumes "timer_reachable s"
  shows "sorted (map (\<lambda>t. sint (sched s t)) (tw_timer_queue s c)) \<and> distinct (tw_timer_queue s c)
    \<and> (kt_node (tw_timer s t) = Some c \<longleftrightarrow> t \<in> set (tw_timer_queue s c))"
proof -
  have ok: "tq_ok s" using timer_reachable_inv [OF assms] by (simp add: timer_inv_def)
  then show ?thesis
    using tq_okD(1) [OF ok, of t c] tq_okD(2,3) [OF ok, of c] by (simp add: sorted_map by_time_def)
qed

definition timer_example_1 :: timer_sys where
  "timer_example_1 = the (timer_set 0 5 \<lparr>dl_when = 100, dl_slack = \<lparr>ts_amount = 10, ts_mode = TIMER_SLACK_CENTER\<rparr>\<rparr>
     (Some 7) 0 timer_sys_init)"

lemmas timer_eval = timer_set_def timer_sys_init_def timer_world_init_def timer_world.defs timer_init_def upd_timer_def
  insert_timer_in_queue_def update_platform_timer_def Deadline_earliest_def Deadline_latest_def TIME_INFINITE_def
  zx_time_add_duration_def zx_time_sub_duration_def zx_time_sub_time_def add_overflow_def sub_overflow_def

lemma timer_example_1_eq:
  "timer_set 0 5 \<lparr>dl_when = 100, dl_slack = \<lparr>ts_amount = 10, ts_mode = TIMER_SLACK_CENTER\<rparr>\<rparr> (Some 7) 0 timer_sys_init
   = Some timer_example_1"
  by (simp add: timer_example_1_def timer_eval)

lemma timer_example_1_queue:
  "tw_timer_queue timer_example_1 0 = [5]" "sched timer_example_1 5 = 100" "tw_next_timer_deadline timer_example_1 0 = 100"
  "kt_node (tw_timer timer_example_1 6) = None" "kt_active_cpu (tw_timer timer_example_1 x) = None"
  "kt_cancel (tw_timer timer_example_1 x) = False" "tw_coalesced timer_example_1 = 0"
  "ts_tick timer_example_1 c = None" "ts_spin timer_example_1 x = None" "tw_oneshot timer_example_1 0 = Some 100"
  "kt_node (tw_timer timer_example_1 5) = Some 0"
  by (simp_all add: timer_example_1_def timer_eval)

lemma timer_example_1_reachable: "timer_reachable timer_example_1"
proof -
  have "timer_step timer_sys_init timer_example_1"
    by (rule timer_step.set [OF _ _ timer_example_1_eq]) (simp_all add: timer_owned_def timer_sys_init_def timer_world.defs)
  then show ?thesis unfolding timer_reachable_def by (rule r_into_rtranclp)
qed

lemma timer_queues_ordered_witness:
  "timer_reachable timer_example_1 \<and> tw_timer_queue timer_example_1 0 = [5]
   \<and> sorted (map (\<lambda>t. sint (sched timer_example_1 t)) (tw_timer_queue timer_example_1 0))"
  using timer_queues_ordered [OF timer_example_1_reachable, of 0 5] timer_example_1_reachable
  by (simp add: timer_example_1_queue)

text \<open>
  Property C16: no timer is missed. In every reachable state, on every processor that is not inside a
  timer interrupt, a queued timer with a finite deadline has the hardware timer of that processor
  programmed for no later than its scheduled time, and so has the preemption deadline.
\<close>

theorem timer_hardware_covers:
  assumes "timer_reachable s" "ts_tick s c = None"
  shows "(\<forall>t\<in>set (tw_timer_queue s c). sched s t \<noteq> TIME_INFINITE \<longrightarrow>
            (\<exists>d. tw_oneshot s c = Some d \<and> sint d \<le> sint (sched s t)))
    \<and> (tw_preempt_timer_deadline s c \<noteq> TIME_INFINITE \<longrightarrow>
            (\<exists>d. tw_oneshot s c = Some d \<and> sint d \<le> sint (tw_preempt_timer_deadline s c)))"
proof -
  have a: "armed s c" and cv: "covered s c"
    using timer_reachable_inv [OF assms(1)] assms(2) by (simp_all add: timer_inv_def hw_ok_def)
  have g: "\<exists>d. tw_oneshot s c = Some d \<and> sint d \<le> sint x"
    if "sint (tw_next_timer_deadline s c) \<le> sint x" "x \<noteq> TIME_INFINITE" for x
  proof -
    have "tw_next_timer_deadline s c \<noteq> TIME_INFINITE"
    proof
      assume "tw_next_timer_deadline s c = TIME_INFINITE"
      then have "sint x = sint TIME_INFINITE" using that(1) sint_le_infinite [of x] by simp
      then show False using that(2) signed_word_eqI by blast
    qed
    then show ?thesis using a that(1) by (simp add: armed_def)
  qed
  show ?thesis using cv g by (simp add: covered_def)
qed

theorem timer_hardware_covers_witness:
  "timer_reachable timer_example_1 \<and> ts_tick timer_example_1 0 = None
   \<and> (\<exists>d. tw_oneshot timer_example_1 0 = Some d \<and> sint d \<le> sint (sched timer_example_1 5))"
  using timer_hardware_covers [OF timer_example_1_reachable, of 0] timer_example_1_reachable
  by (simp add: timer_example_1_queue TIME_INFINITE_def)

text \<open>
  Property C17: cancellation is synchronous. When \<open>timer_cancel\<close> comes back from its wait, whatever
  other processors did meanwhile (including the timer's own callback setting it again), the timer is
  in no queue, its callback is not running anywhere and its callback pointer is cleared.
\<close>

theorem timer_cancel_synchronous:
  assumes "timer_reachable s" "ts_spin s t = Some b" "kt_active_cpu (tw_timer s t) = None"
    "s' = (timer_cancel_finish t s)\<lparr>ts_spin := (ts_spin s)(t := None)\<rparr>"
  shows "timer_step s s' \<and> t \<notin> set (tw_timer_queue s' c) \<and> ts_tick s' c \<noteq> Some (now, Some t)
    \<and> kt_active_cpu (tw_timer s' t) = None \<and> kt_callback (tw_timer s' t) = None"
proof -
  have inv: "timer_inv s" by (rule timer_reachable_inv [OF assms(1)])
  have "kt_node (tw_timer s t) = None" using inv assms(2) by (simp add: timer_inv_def spin_ok_def)
  then have "t \<notin> set (tw_timer_queue s c)" using tq_okD(1) [of s t c] inv by (simp add: timer_inv_def)
  moreover have "ts_tick s c \<noteq> Some (now, Some t)"
    using inv assms(3) unfolding timer_inv_def running_ok_def by (metis option.distinct(1))
  moreover have "timer_step s s'" unfolding assms(4) by (rule timer_step.cancel_return [OF assms(2,3)])
  ultimately show ?thesis using assms(3) by (simp add: assms(4) timer_cancel_finish_def)
qed

definition timer_example_spin :: timer_sys where
  "timer_example_spin = (snd (timer_cancel_locked 1 5 timer_example_1))
     \<lparr>ts_spin := (ts_spin (snd (timer_cancel_locked 1 5 timer_example_1)))(5 := Some True)\<rparr>"

lemma timer_example_cancel:
  "timer_cancel_locked 1 5 timer_example_1 = (Cancel_Spin True, snd (timer_cancel_locked 1 5 timer_example_1))"
  by (simp add: timer_cancel_locked_def Let_def timer_example_1_queue)

theorem timer_cancel_synchronous_witness:
  "timer_reachable timer_example_spin \<and> ts_spin timer_example_spin 5 = Some True
   \<and> 5 \<notin> set (tw_timer_queue ((timer_cancel_finish 5 timer_example_spin)
          \<lparr>ts_spin := (ts_spin timer_example_spin)(5 := None)\<rparr>) 0)"
proof -
  have "timer_step timer_example_1 timer_example_spin"
    unfolding timer_example_spin_def
    by (rule timer_step.cancel [OF _ timer_example_cancel]) (simp add: timer_example_1_queue)
  then have r: "timer_reachable timer_example_spin"
    using timer_example_1_reachable unfolding timer_reachable_def by simp
  have s: "ts_spin timer_example_spin 5 = Some True" by (simp add: timer_example_spin_def)
  have ok: "tq_ok timer_example_1"
    using timer_reachable_inv [OF timer_example_1_reachable] by (simp add: timer_inv_def)
  have a: "kt_active_cpu (tw_timer timer_example_spin 5) = None"
    using timer_cancel_locked_effect(4) [OF ok timer_example_cancel, of 5]
    by (simp add: timer_example_spin_def timer_example_1_queue)
  show ?thesis using timer_cancel_synchronous [OF r s a refl, of 0] r s by simp
qed

text \<open>
  Property C18: what setting a timer does to the queue. The timer is scheduled inside its window, the
  other timers of the queue keep their order and times, and it is coalesced, which means scheduled
  exactly at the time of a timer already queued, precisely when some queued timer lies in the window.
\<close>

theorem timer_set_coalesces:
  assumes "tq_ok w" "0 \<le> sint (ts_amount (dl_slack d))" "kt_node (tw_timer w t) = None"
    "kt_active_cpu (tw_timer w t) = None"
  shows "\<exists>w'. timer_set c t d cb a w = Some w'
    \<and> in_window (Deadline_earliest d) (Deadline_latest d) (sched w' t)
    \<and> remove1 t (tw_timer_queue w' c) = tw_timer_queue w c \<and> t \<in> set (tw_timer_queue w' c)
    \<and> (\<forall>x. x \<noteq> t \<longrightarrow> sched w' x = sched w x)
    \<and> (if \<exists>x\<in>set (tw_timer_queue w c). in_window (Deadline_earliest d) (Deadline_latest d) (sched w x)
       then \<exists>x\<in>set (tw_timer_queue w c). sched w' t = sched w x
       else sched w' t = dl_when d)"
proof -
  define w1 where "w1 = upd_timer t (\<lambda>k. k\<lparr>kt_scheduled_time := dl_when d, kt_callback := cb,
      kt_arg := a, kt_cancel := False\<rparr>) w"
  define w2 where "w2 = insert_timer_in_queue c t (Deadline_earliest d) (Deadline_latest d) w1"
  have set: "timer_set c t d cb a w = Some ((if hd (tw_timer_queue w2 c) = t
      then update_platform_timer c (dl_when d) w2 else w2)\<lparr>tw_created := tw_created w2 + 1\<rparr>)"
    using assms(3,4) by (simp add: timer_set_def w1_def [symmetric] w2_def [symmetric] Let_def update_platform_timer_created)
  obtain q st sl co where iw: "insert_walk (sched w1) t (sched w1 t) (Deadline_earliest d) (Deadline_latest d)
      (tw_timer_queue w1 c) = (q, st, sl, co)"
    and eff: "w2 = w1\<lparr>
       tw_timer := (tw_timer w1)(t := (tw_timer w1 t)\<lparr>kt_node := Some c, kt_scheduled_time := st, kt_slack := sl\<rparr>),
       tw_timer_queue := (tw_timer_queue w1)(c := q),
       tw_coalesced := tw_coalesced w1 + (if co then 1 else 0)\<rparr>"
    unfolding w2_def by (rule insert_timer_effect)
  have ok: "tq_ok w1" using upd_timer_ok [OF assms(1)] assms(3) by (simp add: w1_def)
  have out: "t \<notin> set (tw_timer_queue w c)" using tq_okD(1) [OF assms(1), of t c] assms(3) by simp
  have q1: "tw_timer_queue w1 c = tw_timer_queue w c" "sched w1 t = dl_when d"
    "x \<noteq> t \<Longrightarrow> sched w1 x = sched w x" for x by (simp_all add: w1_def)
  have win: "sint (Deadline_earliest d) \<le> sint (sched w1 t)" "sint (sched w1 t) \<le> sint (Deadline_latest d)"
    using deadline_window [OF assms(2)] q1(2) by simp_all
  have same: "sched w1 x = sched w x" if "x \<in> set (tw_timer_queue w c)" for x
    using that out q1(3) [of x] by metis
  have co: "co \<longleftrightarrow> (\<exists>x\<in>set (tw_timer_queue w c). in_window (Deadline_earliest d) (Deadline_latest d) (sched w x))"
    using insert_walk_coalesced [OF iw tq_okD(3) [OF ok] win] same by (auto simp: q1(1))
  have st: "\<not> co \<Longrightarrow> st = dl_when d" "co \<Longrightarrow> \<exists>x\<in>set (tw_timer_queue w c). st = sched w x"
    using insert_walk_slack [OF iw] same by (auto simp: q1(1,2))
  have "in_window (Deadline_earliest d) (Deadline_latest d) st" by (rule insert_walk_window [OF iw win])
  moreover have "remove1 t q = tw_timer_queue w c" "t \<in> set q"
    using insert_walk_remove [OF iw] insert_walk_mem [OF iw] out by (simp_all add: q1(1))
  ultimately show ?thesis
    using st q1(3) unfolding co [symmetric] set by (intro exI conjI) (auto simp: eff)
qed

theorem timer_set_coalesces_witness:
  "tq_ok timer_example_1 \<and> kt_node (tw_timer timer_example_1 6) = None
   \<and> (\<exists>w'. timer_set 0 6 \<lparr>dl_when = 95, dl_slack = \<lparr>ts_amount = 20, ts_mode = TIMER_SLACK_LATE\<rparr>\<rparr> (Some 8) 0
        timer_example_1 = Some w' \<and> remove1 6 (tw_timer_queue w' 0) = [5] \<and> sched w' 6 = 100)"
proof -
  have ok: "tq_ok timer_example_1"
    using timer_reachable_inv [OF timer_example_1_reachable] by (simp add: timer_inv_def)
  have "in_window (Deadline_earliest \<lparr>dl_when = 95, dl_slack = \<lparr>ts_amount = 20, ts_mode = TIMER_SLACK_LATE\<rparr>\<rparr>)
     (Deadline_latest \<lparr>dl_when = 95, dl_slack = \<lparr>ts_amount = 20, ts_mode = TIMER_SLACK_LATE\<rparr>\<rparr>) 100"
    by (simp add: in_window_def timer_eval)
  then show ?thesis
    using timer_set_coalesces [OF ok, of "\<lparr>dl_when = 95, dl_slack = \<lparr>ts_amount = 20, ts_mode = TIMER_SLACK_LATE\<rparr>\<rparr>" 6 0 "Some 8" 0] ok
    by (auto simp: timer_example_1_queue)
qed

text \<open>A callback that leaves this processor's queue and the times of its timers alone.\<close>

definition quiet_callback :: "cpu \<Rightarrow> (timer_id \<Rightarrow> timer_world \<Rightarrow> timer_world) \<Rightarrow> bool" where
  "quiet_callback c cb \<longleftrightarrow> (\<forall>t w. tq_ok w \<longrightarrow> tq_ok (cb t w) \<and> tw_timer_queue (cb t w) c = tw_timer_queue w c
     \<and> (\<forall>x\<in>set (tw_timer_queue w c). sched (cb t w) x = sched w x))"

lemma tick_loop_fires:
  assumes "quiet_callback c cb"
  shows "tq_ok w \<Longrightarrow> tw_timer_queue w c = q \<Longrightarrow>
    \<exists>w'. tick_loop cb c now fired w = Some (fired @ takeWhile (\<lambda>t. sint (sched w t) \<le> sint now) q, w')
       \<and> tw_timer_queue w' c = dropWhile (\<lambda>t. sint (sched w t) \<le> sint now) q \<and> tq_ok w'"
proof (induction q arbitrary: w fired)
  case Nil
  then show ?case by (subst tick_loop.simps) (simp add: tick_take_def)
next
  case (Cons t q)
  show ?case
  proof (cases "sint (sched w t) \<le> sint now")
    case False
    then show ?thesis using Cons.prems by (subst tick_loop.simps) (simp add: tick_take_def)
  next
    case True
    then obtain w1 where tk: "tick_take c now w = Some (t, w1)" using Cons.prems(2) by (simp add: tick_take_def Let_def)
    note e = tick_take_effect [OF Cons.prems(1) tk]
    have q1: "tw_timer_queue w1 c = q" using e(10) Cons.prems(2) by simp
    have tq: "t \<notin> set q" using tq_okD(2) [OF Cons.prems(1), of c] Cons.prems(2) by simp
    define w2 where "w2 = cb t w1"
    have w2: "tq_ok w2" "tw_timer_queue w2 c = q" "x \<in> set q \<Longrightarrow> sched w2 x = sched w1 x" for x
      using assms e(1) q1 unfolding quiet_callback_def w2_def by auto
    have w3: "tq_ok (tick_done t w2)" "tw_timer_queue (tick_done t w2) c = q"
      using upd_timer_ok [OF w2(1)] w2(2) by (simp_all add: tick_done_def)
    have sc: "sched (tick_done t w2) x = sched w x" if "x \<in> set q" for x
    proof -
      have "x \<noteq> t" using that tq by auto
      then show ?thesis using w2(3) [OF that] e(9) [of x] by (simp add: tick_done_def)
    qed
    have tw: "takeWhile (\<lambda>t. sint (sched (tick_done t' w2) t) \<le> sint now) q = takeWhile (\<lambda>t. sint (sched w t) \<le> sint now) q"
      "dropWhile (\<lambda>t. sint (sched (tick_done t' w2) t) \<le> sint now) q = dropWhile (\<lambda>t. sint (sched w t) \<le> sint now) q"
      if "t' = t" for t'
      using sc unfolding that by (auto intro: takeWhile_cong dropWhile_cong)
    have "tick_loop cb c now fired w = tick_loop cb c now (fired @ [t]) (tick_done t w2)"
      by (subst tick_loop.simps) (simp add: tk w2_def)
    then show ?thesis using Cons.IH [OF w3, of "fired @ [t]"] tw [OF refl] True by simp
  qed
qed

lemma tick_enter_frame [simp]:
  "tw_timer (tick_enter c now w) = tw_timer w" "tw_timer_queue (tick_enter c now w) = tw_timer_queue w"
  by (simp_all add: tick_enter_def Let_def)

text \<open>
  Property C19: a timer interrupt ends and fires exactly what is due. When callbacks leave the queue of
  the interrupted processor alone, \<open>timer_tick\<close> returns, having fired, in order, precisely the timers
  scheduled at or before the current time; the later ones are still queued and none of them is due.
\<close>

theorem timer_tick_fires_due:
  assumes "tq_ok w" "quiet_callback c cb"
  shows "\<exists>w'. timer_tick cb c now w
      = Some (filter (\<lambda>t. sint (sched w t) \<le> sint now) (tw_timer_queue w c), w')
    \<and> tw_timer_queue w' c = filter (\<lambda>t. \<not> sint (sched w t) \<le> sint now) (tw_timer_queue w c)"
proof -
  have ok: "tq_ok (tick_enter c now w)" using assms(1) by (simp add: tq_ok_def)
  have flt: "takeWhile (\<lambda>t. sint (sched w t) \<le> sint now) q = filter (\<lambda>t. sint (sched w t) \<le> sint now) q
      \<and> dropWhile (\<lambda>t. sint (sched w t) \<le> sint now) q = filter (\<lambda>t. \<not> sint (sched w t) \<le> sint now) q"
    if "by_time (sched w) q" for q
    using that
  proof (induction q)
    case (Cons x q)
    show ?case
    proof (cases "sint (sched w x) \<le> sint now")
      case False
      then have "\<forall>y\<in>set q. \<not> sint (sched w y) \<le> sint now" using Cons.prems by force
      then show ?thesis using False by (auto simp: filter_empty_conv filter_id_conv)
    qed (use Cons in simp)
  qed simp
  obtain w' where l: "tick_loop cb c now [] (tick_enter c now w)
      = Some (takeWhile (\<lambda>t. sint (sched w t) \<le> sint now) (tw_timer_queue w c), w')"
    "tw_timer_queue w' c = dropWhile (\<lambda>t. sint (sched w t) \<le> sint now) (tw_timer_queue w c)"
    using tick_loop_fires [OF assms(2) ok refl, of now "[]"] by auto
  have "tw_timer_queue (tick_leave c w') = tw_timer_queue w'" by (simp add: tick_leave_def Let_def)
  then show ?thesis using l flt [OF tq_okD(3) [OF assms(1), of c]] by (simp add: timer_tick_def)
qed

definition timer_example_world :: timer_world where
  "timer_example_world = the (timer_set 0 5 (Deadline_no_slack 100) (Some 7) 0
     (the (timer_set 0 6 (Deadline_no_slack 300) (Some 8) 0 timer_world_init)))"

lemma timer_example_world_queue:
  "tw_timer_queue timer_example_world = (\<lambda>_. [])(0 := [5, 6])"
  "kt_node (tw_timer timer_example_world x) = (if x = 5 \<or> x = 6 then Some 0 else None)"
  "sched timer_example_world 5 = 100" "sched timer_example_world 6 = 300"
  by (auto simp: timer_example_world_def Deadline_no_slack_def TimerSlack_none_def timer_eval)

theorem timer_tick_fires_due_witness:
  "tq_ok timer_example_world \<and> quiet_callback 0 (\<lambda>t w. w)
   \<and> (\<exists>w'. timer_tick (\<lambda>t w. w) 0 200 timer_example_world = Some ([5], w') \<and> tw_timer_queue w' 0 = [6])"
proof -
  have ok: "tq_ok timer_example_world"
    by (auto simp: tq_ok_def timer_example_world_queue split: if_splits)
  have qc: "quiet_callback 0 (\<lambda>t w. w)" by (simp add: quiet_callback_def)
  show ?thesis using timer_tick_fires_due [OF ok qc, of 200] ok qc by (simp add: timer_example_world_queue)
qed

end
