(* ===== verification/Mbuf.thy ===== *)
theory Mbuf
  imports Stream_Buffer
begin

text \<open>
  The buffer chains of sockets, \<^verbatim>\<open>object/mbuf.cc\<close>: data is kept in fixed-size buffers on a list, with a
  list of free buffers beside it. A chain carries a stream of bytes or a sequence of datagrams. The
  theory models both kinds of write, reading and peeking, interprets the stream contract of
  \<open>Stream_Buffer\<close> for the stream operations, and shows a datagram that leaves its end behind.
\<close>

section \<open>State\<close>

definition kPayloadSize :: nat where [zx_defs]: "kPayloadSize = 2008"
definition mbuf_kSizeMax :: nat where [zx_defs]: "mbuf_kSizeMax = 128 * kPayloadSize"

text \<open>
  A buffer has an identity, its address: \<^verbatim>\<open>head_\<close> points at a buffer of the list. The array \<^verbatim>\<open>data_\<close>
  is a function of which the first \<^verbatim>\<open>kPayloadSize\<close> values exist.
\<close>

record mbuf =
  mb_id :: nat
  mb_off :: nat
  mb_len :: nat
  mb_pkt_len :: nat
  mb_data :: "nat \<Rightarrow> u8"

record mbuf_chain =
  mc_freelist :: "mbuf list"
  mc_tail :: "mbuf list"
  mc_head :: "nat option"
  mc_size :: nat
  mc_next_id :: nat

definition mbuf_chain_init :: mbuf_chain where
  "mbuf_chain_init = \<lparr>mc_freelist = [], mc_tail = [], mc_head = None, mc_size = 0, mc_next_id = 0\<rparr>"

definition mbuf_rem :: "mbuf \<Rightarrow> nat" where
  "mbuf_rem m = kPayloadSize - (mb_off m + mb_len m)"

definition mbuf_bytes :: "mbuf \<Rightarrow> u8 list" where
  "mbuf_bytes m = map (mb_data m) [mb_off m..<mb_off m + mb_len m]"

definition mbuf_is_full :: "mbuf_chain \<Rightarrow> bool" where
  "mbuf_is_full c \<longleftrightarrow> mc_size c \<ge> mbuf_kSizeMax"

definition mbuf_is_empty :: "mbuf_chain \<Rightarrow> bool" where
  "mbuf_is_empty c \<longleftrightarrow> mc_size c = 0"

definition mbuf_size :: "bool \<Rightarrow> mbuf_chain \<Rightarrow> nat" where
  "mbuf_size datagram c =
     (if datagram \<and> mc_size c \<noteq> 0 then mb_pkt_len (hd (mc_tail c)) else mc_size c)"

section \<open>Buffers\<close>

text \<open>\<open>alloc\<close> tells whether the allocation that would create the buffer with a given address succeeds.\<close>

definition AllocMBuf :: "(nat \<Rightarrow> bool) \<Rightarrow> mbuf_chain \<Rightarrow> (mbuf \<times> mbuf_chain) option" where
  "AllocMBuf alloc c =
     (case mc_freelist c of
        [] \<Rightarrow> if alloc (mc_next_id c)
              then Some (\<lparr>mb_id = mc_next_id c, mb_off = 0, mb_len = 0, mb_pkt_len = 0, mb_data = (\<lambda>_. 0)\<rparr>,
                         c\<lparr>mc_next_id := mc_next_id c + 1\<rparr>)
              else None
      | buf # rest \<Rightarrow> Some (buf, c\<lparr>mc_freelist := rest\<rparr>))"

definition FreeMBuf :: "mbuf \<Rightarrow> mbuf_chain \<Rightarrow> mbuf_chain" where
  "FreeMBuf buf c = c\<lparr>mc_freelist := buf\<lparr>mb_off := 0, mb_len := 0\<rparr> # mc_freelist c\<rparr>"

fun insert_after :: "nat \<Rightarrow> mbuf \<Rightarrow> mbuf list \<Rightarrow> mbuf list" where
  "insert_after h new [] = []"
| "insert_after h new (m # ms) = (if mb_id m = h then m # new # ms else m # insert_after h new ms)"

text \<open>Appending a buffer behind \<^verbatim>\<open>head_\<close> and making it the head.\<close>

definition chain_append :: "mbuf \<Rightarrow> mbuf_chain \<Rightarrow> mbuf_chain" where
  "chain_append new c =
     (case mc_head c of
        None \<Rightarrow> c\<lparr>mc_tail := new # mc_tail c, mc_head := Some (mb_id new)\<rparr>
      | Some h \<Rightarrow> c\<lparr>mc_tail := insert_after h new (mc_tail c), mc_head := Some (mb_id new)\<rparr>)"

definition write_data :: "nat \<Rightarrow> u8 list \<Rightarrow> (nat \<Rightarrow> u8) \<Rightarrow> nat \<Rightarrow> u8" where
  "write_data k bs d = (\<lambda>i. if k \<le> i \<and> i < k + length bs then bs ! (i - k) else d i)"

section \<open>Writing a stream\<close>

definition head_buf :: "mbuf_chain \<Rightarrow> mbuf" where
  "head_buf c = hd (filter (\<lambda>m. Some (mb_id m) = mc_head c) (mc_tail c))"

definition upd_head :: "(mbuf \<Rightarrow> mbuf) \<Rightarrow> mbuf_chain \<Rightarrow> mbuf_chain" where
  "upd_head f c = c\<lparr>mc_tail := map (\<lambda>m. if Some (mb_id m) = mc_head c then f m else m) (mc_tail c)\<rparr>"

text \<open>
  Making room at the head; \<open>None\<close> leaves the loop. A faulting copy may leave bytes in the array behind
  the valid ones; they are not kept, since they are overwritten before the length covers them.
\<close>

definition write_room :: "(nat \<Rightarrow> bool) \<Rightarrow> mbuf_chain \<Rightarrow> mbuf_chain option" where
  "write_room alloc c =
     (if mbuf_rem (head_buf c) = 0
      then (case AllocMBuf alloc c of None \<Rightarrow> None | Some (new, c1) \<Rightarrow> Some (chain_append new c1))
      else Some c)"

partial_function (option) write_stream_loop ::
    "(nat \<Rightarrow> bool) \<Rightarrow> user_in \<Rightarrow> nat \<Rightarrow> nat \<Rightarrow> mbuf_chain \<Rightarrow> (zx_status \<times> nat \<times> mbuf_chain) option" where
  "write_stream_loop alloc src len pos c =
     (if \<not> pos < len then Some (ZX_OK, pos, c)
      else case write_room alloc c of
        None \<Rightarrow> Some (ZX_OK, pos, c)
      | Some c1 \<Rightarrow>
          let k = mb_off (head_buf c1) + mb_len (head_buf c1);
              want = min (mbuf_rem (head_buf c1)) (len - pos);
              copy_len = (if mc_size c1 + want > mbuf_kSizeMax then mbuf_kSizeMax - mc_size c1 else want)
          in if mc_size c1 + want > mbuf_kSizeMax \<and> copy_len = 0 then Some (ZX_OK, pos, c1)
             else case copy_array_from_user src pos copy_len of
               None \<Rightarrow> Some (ZX_ERR_INVALID_ARGS, pos, c1)
             | Some bytes \<Rightarrow>
                 write_stream_loop alloc src len (pos + copy_len)
                   ((upd_head (\<lambda>m. m\<lparr>mb_data := write_data k bytes (mb_data m), mb_len := mb_len m + copy_len\<rparr>) c1)
                      \<lparr>mc_size := mc_size c1 + copy_len\<rparr>))"

definition WriteStream ::
    "(nat \<Rightarrow> bool) \<Rightarrow> user_in \<Rightarrow> nat \<Rightarrow> mbuf_chain \<Rightarrow> (zx_status \<times> nat \<times> mbuf_chain) option" where
  "WriteStream alloc src len c =
     (case (if mc_head c = None
            then (case AllocMBuf alloc c of None \<Rightarrow> None | Some (new, c1) \<Rightarrow> Some (chain_append new c1))
            else Some c) of
        None \<Rightarrow> Some (ZX_ERR_SHOULD_WAIT, 0, c)
      | Some c1 \<Rightarrow>
          (case write_stream_loop alloc src len 0 c1 of
             None \<Rightarrow> None
           | Some (status, pos, c2) \<Rightarrow>
               if status \<noteq> ZX_OK then Some (status, 0, c2)
               else if pos = 0 then Some (ZX_ERR_SHOULD_WAIT, 0, c2)
               else Some (ZX_OK, pos, c2)))"

section \<open>Writing a datagram\<close>

text \<open>Allocating the buffers of a packet; on failure those already taken are freed again.\<close>

fun alloc_bufs :: "(nat \<Rightarrow> bool) \<Rightarrow> nat \<Rightarrow> mbuf list \<Rightarrow> mbuf_chain \<Rightarrow> mbuf list option \<times> mbuf_chain" where
  "alloc_bufs alloc 0 bufs c = (Some bufs, c)"
| "alloc_bufs alloc (Suc need) bufs c =
     (case AllocMBuf alloc c of
        None \<Rightarrow> (None, fold FreeMBuf bufs c)
      | Some (buf, c1) \<Rightarrow> alloc_bufs alloc need (buf # bufs) c1)"

text \<open>
  Filling them. The buffers are freed when a copy faults; what the faulting copy itself left in its
  buffer's array is not kept, since the array of a free buffer is never read.
\<close>

fun fill_bufs :: "user_in \<Rightarrow> nat \<Rightarrow> nat \<Rightarrow> mbuf list \<Rightarrow> bool \<times> mbuf list" where
  "fill_bufs src len pos [] = (True, [])"
| "fill_bufs src len pos (b # bs) =
     (let copy_len = min kPayloadSize (len - pos) in
      case copy_array_from_user src pos copy_len of
        None \<Rightarrow> (False, b # bs)
      | Some bytes \<Rightarrow>
          let (ok, bs') = fill_bufs src len (pos + copy_len) bs
          in (ok, b\<lparr>mb_data := write_data 0 bytes (mb_data b), mb_len := mb_len b + copy_len\<rparr> # bs'))"

definition set_pkt_len :: "nat \<Rightarrow> mbuf list \<Rightarrow> mbuf list" where
  "set_pkt_len len bufs = (case bufs of [] \<Rightarrow> [] | b # bs \<Rightarrow> b\<lparr>mb_pkt_len := len\<rparr> # bs)"

definition WriteDatagram ::
    "(nat \<Rightarrow> bool) \<Rightarrow> user_in \<Rightarrow> nat \<Rightarrow> mbuf_chain \<Rightarrow> zx_status \<times> nat \<times> mbuf_chain" where
  "WriteDatagram alloc src len c =
     (if len = 0 then (ZX_ERR_INVALID_ARGS, 0, c)
      else if len > mbuf_kSizeMax then (ZX_ERR_OUT_OF_RANGE, 0, c)
      else if len + mc_size c > mbuf_kSizeMax then (ZX_ERR_SHOULD_WAIT, 0, c)
      else case alloc_bufs alloc (1 + (len - 1) div kPayloadSize) [] c of
        (None, c1) \<Rightarrow> (ZX_ERR_SHOULD_WAIT, 0, c1)
      | (Some bufs, c1) \<Rightarrow>
          (case fill_bufs src len 0 bufs of
             (False, bufs') \<Rightarrow> (ZX_ERR_INVALID_ARGS, 0, fold FreeMBuf bufs' c1)
           | (True, bufs') \<Rightarrow>
               (let c2 = fold chain_append (set_pkt_len len bufs') c1
                in (ZX_OK, len, c2\<lparr>mc_size := mc_size c2 + len\<rparr>))))"

section \<open>Reading\<close>

text \<open>Taking the first buffer off the list and freeing it.\<close>

definition pop_tail :: "mbuf_chain \<Rightarrow> mbuf_chain" where
  "pop_tail c = (case mc_tail c of [] \<Rightarrow> c
     | m # ms \<Rightarrow> FreeMBuf m (c\<lparr>mc_tail := ms, mc_head := (if mc_head c = Some (mb_id m) then None else mc_head c)\<rparr>))"

text \<open>
  The consuming loop. A buffer that is not used up in stream mode ends it, because then the request
  was satisfied. The bytes delivered to the user are collected.
\<close>

function read_loop ::
    "bool \<Rightarrow> user_out \<Rightarrow> nat \<Rightarrow> nat \<Rightarrow> u8 list \<Rightarrow> mbuf_chain \<Rightarrow> zx_status \<times> u8 list \<times> nat \<times> mbuf_chain" where
  "read_loop datagram dst len pos out c =
     (if \<not> pos < len then (ZX_OK, out, pos, c)
      else case mc_tail c of
        [] \<Rightarrow> (ZX_OK, out, pos, c)
      | m # ms \<Rightarrow>
          let copy_len = min (mb_len m) (len - pos) in
          if \<not> copy_array_to_user dst pos copy_len then (ZX_ERR_INVALID_ARGS, out, pos, c)
          else
            let bytes = take copy_len (mbuf_bytes m);
                m1 = m\<lparr>mb_off := mb_off m + copy_len, mb_len := mb_len m - copy_len\<rparr>;
                c1 = c\<lparr>mc_tail := m1 # ms, mc_size := mc_size c - copy_len\<rparr>
            in if mb_len m1 = 0 \<or> datagram
               then read_loop datagram dst len (pos + copy_len) (out @ bytes)
                      (pop_tail (c1\<lparr>mc_size := mc_size c1 - mb_len m1\<rparr>))
               else (ZX_OK, out @ bytes, pos + copy_len, c1))"
  by pat_completeness auto
termination
  by (relation "measure (\<lambda>(datagram, dst, len, pos, out, c). length (mc_tail c))")
    (auto simp: pop_tail_def FreeMBuf_def)

text \<open>Dropping the rest of a datagram: the buffers up to the next one that starts a packet.\<close>

function drain_datagram :: "mbuf_chain \<Rightarrow> mbuf_chain" where
  "drain_datagram c =
     (case mc_tail c of
        [] \<Rightarrow> c
      | m # ms \<Rightarrow> if mb_pkt_len m = 0 then drain_datagram (pop_tail (c\<lparr>mc_size := mc_size c - mb_len m\<rparr>)) else c)"
  by pat_completeness auto
termination
  by (relation "measure (\<lambda>c. length (mc_tail c))") (auto simp: pop_tail_def FreeMBuf_def)

definition mbuf_Read ::
    "user_out \<Rightarrow> nat \<Rightarrow> bool \<Rightarrow> mbuf_chain \<Rightarrow> zx_status \<times> u8 list \<times> nat \<times> mbuf_chain" where
  "mbuf_Read dst len datagram c =
     (if mc_size c = 0 then (ZX_OK, [], 0, c)
      else
        let len = (if datagram \<and> len > mb_pkt_len (hd (mc_tail c)) then mb_pkt_len (hd (mc_tail c)) else len);
            (status, out, pos, c1) = read_loop datagram dst len 0 [] c
        in if status \<noteq> ZX_OK then (status, out, 0, c1)
           else (ZX_OK, out, pos, if datagram then drain_datagram c1 else c1))"

text \<open>The instance of the same template for a constant chain, which only moves its iterator.\<close>

fun peek_loop ::
    "user_out \<Rightarrow> nat \<Rightarrow> nat \<Rightarrow> u8 list \<Rightarrow> mbuf list \<Rightarrow> zx_status \<times> u8 list \<times> nat" where
  "peek_loop dst len pos out [] = (ZX_OK, out, pos)"
| "peek_loop dst len pos out (m # ms) =
     (if \<not> pos < len then (ZX_OK, out, pos)
      else
        let copy_len = min (mb_len m) (len - pos) in
        if \<not> copy_array_to_user dst pos copy_len then (ZX_ERR_INVALID_ARGS, out, pos)
        else peek_loop dst len (pos + copy_len) (out @ take copy_len (mbuf_bytes m)) ms)"

definition mbuf_Peek :: "user_out \<Rightarrow> nat \<Rightarrow> bool \<Rightarrow> mbuf_chain \<Rightarrow> zx_status \<times> u8 list \<times> nat" where
  "mbuf_Peek dst len datagram c =
     (if mc_size c = 0 then (ZX_OK, [], 0)
      else
        let len = (if datagram \<and> len > mb_pkt_len (hd (mc_tail c)) then mb_pkt_len (hd (mc_tail c)) else len);
            (status, out, pos) = peek_loop dst len 0 [] (mc_tail c)
        in if status \<noteq> ZX_OK then (status, out, 0) else (ZX_OK, out, pos))"

section \<open>Invariant\<close>

definition mbuf_ok :: "mbuf_chain \<Rightarrow> bool" where
  "mbuf_ok c \<longleftrightarrow> distinct (map mb_id (mc_tail c @ mc_freelist c))
     \<and> (\<forall>m\<in>set (mc_tail c @ mc_freelist c). mb_id m < mc_next_id c)
     \<and> mc_head c = (if mc_tail c = [] then None else Some (mb_id (last (mc_tail c))))
     \<and> mc_size c = sum_list (map mb_len (mc_tail c)) \<and> mc_size c \<le> mbuf_kSizeMax
     \<and> (\<forall>m\<in>set (mc_tail c). mb_off m + mb_len m \<le> kPayloadSize)
     \<and> (\<forall>m\<in>set (mc_freelist c). mb_off m = 0 \<and> mb_len m = 0)"

definition chain_contents :: "mbuf_chain \<Rightarrow> u8 list" where
  "chain_contents c = concat (map mbuf_bytes (mc_tail c))"

lemma mbuf_bytes_length [simp]: "length (mbuf_bytes m) = mb_len m"
  by (simp add: mbuf_bytes_def)

lemma chain_contents_length: "mbuf_ok c \<Longrightarrow> length (chain_contents c) = mc_size c"
  by (simp add: mbuf_ok_def chain_contents_def length_concat comp_def)

lemma insert_after_last:
  "distinct (map mb_id ms) \<Longrightarrow> ms \<noteq> [] \<Longrightarrow> insert_after (mb_id (last ms)) new ms = ms @ [new]"
  by (induction ms) auto

lemma AllocMBuf_append:
  assumes "mbuf_ok c" "AllocMBuf alloc c = Some (new, c1)"
  shows "mbuf_ok (chain_append new c1)" "mc_tail (chain_append new c1) = mc_tail c @ [new]"
    "mb_off new = 0" "mb_len new = 0" "mc_size (chain_append new c1) = mc_size c"
    "chain_contents (chain_append new c1) = chain_contents c"
proof -
  have c1: "mc_tail c1 = mc_tail c" "mc_head c1 = mc_head c" "mc_size c1 = mc_size c"
    "mc_next_id c \<le> mc_next_id c1" "mb_id new < mc_next_id c1" "set (mc_freelist c1) \<subseteq> set (mc_freelist c)"
    and new: "mb_off new = 0" "mb_len new = 0" and d: "distinct (map mb_id (mc_tail c @ new # mc_freelist c1))"
    using assms by (auto simp: mbuf_ok_def AllocMBuf_def split: list.splits if_splits)
  have tail: "mc_tail (chain_append new c1) = mc_tail c @ [new]"
    using assms(1) c1 insert_after_last [of "mc_tail c" new]
    by (auto simp: mbuf_ok_def chain_append_def split: option.splits if_splits)
  then show "mc_tail (chain_append new c1) = mc_tail c @ [new]" .
  have fr: "mc_head (chain_append new c1) = Some (mb_id new)" "mc_freelist (chain_append new c1) = mc_freelist c1"
    "mc_size (chain_append new c1) = mc_size c" "mc_next_id (chain_append new c1) = mc_next_id c1"
    using c1 by (simp_all add: chain_append_def split: option.splits)
  have old: "\<forall>m\<in>set (mc_tail c) \<union> set (mc_freelist c). mb_id m < mc_next_id c"
    "\<forall>m\<in>set (mc_freelist c). mb_off m = 0 \<and> mb_len m = 0"
    "\<forall>m\<in>set (mc_tail c). mb_off m + mb_len m \<le> kPayloadSize"
    "mc_size c = sum_list (map mb_len (mc_tail c))" "mc_size c \<le> mbuf_kSizeMax"
    using assms(1) by (simp_all add: mbuf_ok_def)
  have "\<forall>m\<in>set (mc_tail c) \<union> set (mc_freelist c1). mb_id m < mc_next_id c1"
  proof
    fix m assume "m \<in> set (mc_tail c) \<union> set (mc_freelist c1)"
    then have "m \<in> set (mc_tail c) \<union> set (mc_freelist c)" using c1(6) by blast
    then show "mb_id m < mc_next_id c1" using old(1) c1(4) by (meson less_le_trans)
  qed
  moreover have "\<forall>m\<in>set (mc_freelist c1). mb_off m = 0 \<and> mb_len m = 0" using old(2) c1(6) by blast
  ultimately show "mbuf_ok (chain_append new c1)"
    unfolding mbuf_ok_def tail fr using c1(5) new d old(3,4,5) by auto
  show "mb_off new = 0" "mb_len new = 0" by (rule new)+
  show "mc_size (chain_append new c1) = mc_size c" by (rule fr)
  show "chain_contents (chain_append new c1) = chain_contents c"
    using new by (simp add: chain_contents_def tail mbuf_bytes_def)
qed

lemma head_snoc:
  assumes "mbuf_ok c" "mc_tail c = ms @ [m]"
  shows "head_buf c = m" "upd_head f c = c\<lparr>mc_tail := ms @ [f m]\<rparr>"
proof -
  have h: "mc_head c = Some (mb_id m)" and "mb_id m \<notin> mb_id ` set ms"
    using assms by (simp_all add: mbuf_ok_def)
  then have ne: "x \<in> set ms \<Longrightarrow> mb_id x \<noteq> mb_id m" for x by (metis imageI)
  have "filter (\<lambda>x. mb_id x = mb_id m) ms = []" using ne by (auto simp: filter_empty_conv)
  then show "head_buf c = m" by (simp add: head_buf_def assms(2) h)
  have "map (\<lambda>x. if mb_id x = mb_id m then f x else x) ms = ms" using ne by (simp add: map_idI)
  then show "upd_head f c = c\<lparr>mc_tail := ms @ [f m]\<rparr>" by (simp add: upd_head_def assms(2) h)
qed

lemma write_room_spec:
  assumes "mbuf_ok c" "mc_tail c \<noteq> []" "write_room alloc c = Some c1"
  shows "mbuf_ok c1" "mc_tail c1 \<noteq> []" "mc_size c1 = mc_size c" "chain_contents c1 = chain_contents c"
    "0 < mbuf_rem (head_buf c1)"
proof -
  have "mbuf_ok c1 \<and> mc_tail c1 \<noteq> [] \<and> mc_size c1 = mc_size c \<and> chain_contents c1 = chain_contents c
      \<and> 0 < mbuf_rem (head_buf c1)"
  proof (cases "mbuf_rem (head_buf c) = 0")
    case True
    then obtain new c0 where a: "AllocMBuf alloc c = Some (new, c0)" "c1 = chain_append new c0"
      using assms(3) by (auto simp: write_room_def split: option.splits)
    note e = AllocMBuf_append [OF assms(1) a(1)]
    have "head_buf c1 = new" using head_snoc(1) [OF e(1,2)] a(2) by simp
    then show ?thesis using e a(2) by (simp add: mbuf_rem_def zx_defs)
  next
    case False
    then show ?thesis using assms by (auto simp: write_room_def)
  qed
  then show "mbuf_ok c1" "mc_tail c1 \<noteq> []" "mc_size c1 = mc_size c" "chain_contents c1 = chain_contents c"
    "0 < mbuf_rem (head_buf c1)" by blast+
qed

lemma mbuf_bytes_write:
  assumes "length bs = n"
  shows "mbuf_bytes (m\<lparr>mb_data := write_data (mb_off m + mb_len m) bs (mb_data m), mb_len := mb_len m + n\<rparr>)
         = mbuf_bytes m @ bs"
proof -
  have "[mb_off m..<mb_off m + (mb_len m + n)] = [mb_off m..<mb_off m + mb_len m]
      @ [mb_off m + mb_len m..<mb_off m + mb_len m + n]"
    by (metis add.assoc le_add1 upt_add_eq_append)
  moreover have "map (write_data k bs d) [k..<k + n] = bs" for k d
    using assms by (intro nth_equalityI) (simp_all add: write_data_def)
  moreover have "map (write_data (mb_off m + mb_len m) bs (mb_data m)) [mb_off m..<mb_off m + mb_len m]
      = map (mb_data m) [mb_off m..<mb_off m + mb_len m]"
    by (simp add: write_data_def)
  ultimately show ?thesis by (simp add: mbuf_bytes_def)
qed

lemma write_copy_ok:
  assumes "mbuf_ok c" "mc_tail c \<noteq> []" "length bs = n" "n \<le> mbuf_rem (head_buf c)" "mc_size c + n \<le> mbuf_kSizeMax"
    "c' = (upd_head (\<lambda>m. m\<lparr>mb_data := write_data (mb_off (head_buf c) + mb_len (head_buf c)) bs (mb_data m),
                            mb_len := mb_len m + n\<rparr>) c)\<lparr>mc_size := mc_size c + n\<rparr>"
  shows "mbuf_ok c' \<and> mc_tail c' \<noteq> [] \<and> chain_contents c' = chain_contents c @ bs"
proof -
  obtain ms m where t: "mc_tail c = ms @ [m]" using assms(2) by (metis append_butlast_last_id)
  note h = head_snoc [OF assms(1) t]
  have c': "c' = c\<lparr>mc_tail := ms @ [m\<lparr>mb_data := write_data (mb_off m + mb_len m) bs (mb_data m), mb_len := mb_len m + n\<rparr>],
      mc_size := mc_size c + n\<rparr>" by (simp add: assms(6) h)
  have "mb_off m + (mb_len m + n) \<le> kPayloadSize" using assms(1,4) t h(1) by (auto simp: mbuf_ok_def mbuf_rem_def)
  then have "mbuf_ok c'" using assms(1,5) t by (auto simp: mbuf_ok_def c')
  moreover have "chain_contents c' = chain_contents c @ bs"
    using mbuf_bytes_write [OF assms(3), of m] by (simp add: chain_contents_def c' t)
  ultimately show ?thesis by (simp add: c')
qed

section \<open>Streams\<close>

lemma write_stream_loop_spec:
  assumes "mbuf_ok c" "mc_tail c \<noteq> []" "pos \<le> len"
  shows "\<exists>st n c' bs. write_stream_loop alloc src len pos c = Some (st, n, c') \<and> mbuf_ok c'
    \<and> (st = ZX_OK \<or> st = ZX_ERR_INVALID_ARGS \<and> copy_array_from_user src pos (len - pos) = None) \<and> pos \<le> n \<and> n \<le> len
    \<and> copy_array_from_user src pos (n - pos) = Some bs \<and> chain_contents c' = chain_contents c @ bs"
  using assms
proof (induction "len - pos" arbitrary: pos c rule: less_induct)
  case less
  show ?case
  proof (cases "pos < len")
    case False
    then show ?thesis using less.prems by (subst write_stream_loop.simps) simp
  next
    case pos: True
    show ?thesis
    proof (cases "write_room alloc c")
      case None
      then show ?thesis using less.prems pos by (subst write_stream_loop.simps) simp
    next
      case (Some c1)
      note r = write_room_spec [OF less.prems(1,2) Some]
      define want where "want = min (mbuf_rem (head_buf c1)) (len - pos)"
      define n where "n = (if mc_size c1 + want > mbuf_kSizeMax then mbuf_kSizeMax - mc_size c1 else want)"
      have size1: "mc_size c1 \<le> mbuf_kSizeMax" using r(1) by (simp add: mbuf_ok_def)
      have n: "n \<le> want" "mc_size c1 + n \<le> mbuf_kSizeMax" using size1 by (auto simp: n_def)
      have want: "0 < want" using r(5) pos by (simp add: want_def)
      have step: "write_stream_loop alloc src len pos c =
         (if mc_size c1 + want > mbuf_kSizeMax \<and> n = 0 then Some (ZX_OK, pos, c1)
          else case copy_array_from_user src pos n of
               None \<Rightarrow> Some (ZX_ERR_INVALID_ARGS, pos, c1)
             | Some bytes \<Rightarrow> write_stream_loop alloc src len (pos + n)
                   ((upd_head (\<lambda>m. m\<lparr>mb_data := write_data (mb_off (head_buf c1) + mb_len (head_buf c1)) bytes (mb_data m),
                        mb_len := mb_len m + n\<rparr>) c1)\<lparr>mc_size := mc_size c1 + n\<rparr>))"
        by (subst write_stream_loop.simps)
          (simp only: pos Some Let_def want_def n_def option.case not_True_eq_False if_False)
      consider "n = 0" | "n > 0" "copy_array_from_user src pos n = None"
        | bytes where "n > 0" "copy_array_from_user src pos n = Some bytes" by blast
      then show ?thesis
      proof cases
        case 1
        then have "mc_size c1 + want > mbuf_kSizeMax" using want by (simp add: n_def split: if_splits)
        then show ?thesis using 1 r less.prems by (simp add: step)
      next
        case 2
        have "n + (len - pos - n) = len - pos" using n(1) pos unfolding want_def by linarith
        then have "copy_array_from_user src pos (len - pos) = None"
          using 2(2) copy_array_from_user_None_append [of src pos n "len - pos - n"] by metis
        then show ?thesis using 2 r less.prems by (simp add: step)
      next
        case (3 bytes)
        define c2 where "c2 = (upd_head (\<lambda>m. m\<lparr>mb_data := write_data (mb_off (head_buf c1) + mb_len (head_buf c1)) bytes (mb_data m),
            mb_len := mb_len m + n\<rparr>) c1)\<lparr>mc_size := mc_size c1 + n\<rparr>"
        have nr: "n \<le> mbuf_rem (head_buf c1)" "pos + n \<le> len" using n(1) pos by (auto simp: want_def)
        have c2: "mbuf_ok c2" "mc_tail c2 \<noteq> []" "chain_contents c2 = chain_contents c1 @ bytes"
          using write_copy_ok [OF r(1,2) copy_array_from_user_length [OF 3(2)] nr(1) n(2) c2_def] by simp_all
        have split_len: "n + (len - (pos + n)) = len - pos" using nr(2) by linarith
        have lt: "len - (pos + n) < len - pos" using 3(1) nr(2) by simp
        obtain st k c' bs where IH: "write_stream_loop alloc src len (pos + n) c2 = Some (st, k, c')" "mbuf_ok c'"
          "st = ZX_OK \<or> st = ZX_ERR_INVALID_ARGS \<and> copy_array_from_user src (pos + n) (len - (pos + n)) = None"
          "pos + n \<le> k" "k \<le> len"
          "copy_array_from_user src (pos + n) (k - (pos + n)) = Some bs" "chain_contents c' = chain_contents c2 @ bs"
          using less.hyps [OF lt c2(1,2) nr(2)] by blast
        have "copy_array_from_user src pos (k - pos) = Some (bytes @ bs)"
          using copy_array_from_user_append [OF 3(2) IH(6)] IH(4) by simp
        moreover have "write_stream_loop alloc src len pos c = Some (st, k, c')"
          using 3 IH(1) by (simp add: step flip: c2_def)
        moreover have "chain_contents c' = chain_contents c @ bytes @ bs" using IH(7) c2(3) r(4) by simp
        moreover have "st = ZX_OK \<or> st = ZX_ERR_INVALID_ARGS \<and> copy_array_from_user src pos (len - pos) = None"
          using IH(3) copy_array_from_user_None_append [of src pos n "len - (pos + n)"] split_len by metis
        ultimately show ?thesis using IH(2,4,5) by (metis add_leE)
      qed
    qed
  qed
qed

lemma WriteStream_spec:
  assumes "mbuf_ok c"
  shows "\<exists>st n c' bs k. WriteStream alloc src len c = Some (st, n, c') \<and> mbuf_ok c'
    \<and> k \<le> len \<and> copy_array_from_user src 0 k = Some bs \<and> chain_contents c' = chain_contents c @ bs
    \<and> (st = ZX_OK \<and> n = k \<and> 0 < k \<or> st = ZX_ERR_SHOULD_WAIT \<and> n = 0 \<and> k = 0
       \<or> st = ZX_ERR_INVALID_ARGS \<and> n = 0 \<and> copy_array_from_user src 0 len = None)"
proof -
  define pre where "pre = (if mc_head c = None
      then (case AllocMBuf alloc c of None \<Rightarrow> None | Some (new, c1) \<Rightarrow> Some (chain_append new c1)) else Some c)"
  show ?thesis
  proof (cases pre)
    case None
    then show ?thesis using assms
      by (intro exI [of _ ZX_ERR_SHOULD_WAIT] exI [of _ 0] exI [of _ c] exI [of _ "[]"])
        (simp add: WriteStream_def flip: pre_def)
  next
    case (Some c1)
    have "mbuf_ok c1 \<and> mc_tail c1 \<noteq> [] \<and> chain_contents c1 = chain_contents c"
    proof (cases "mc_head c = None")
      case True
      then obtain new c0 where "AllocMBuf alloc c = Some (new, c0)" "c1 = chain_append new c0"
        using Some by (auto simp: pre_def split: option.splits)
      then show ?thesis using AllocMBuf_append [OF assms] by simp
    next
      case False
      then show ?thesis using Some assms by (simp add: pre_def mbuf_ok_def split: if_splits)
    qed
    then have c1: "mbuf_ok c1" "mc_tail c1 \<noteq> []" "chain_contents c1 = chain_contents c" by simp_all
    obtain st n c' bs where l: "write_stream_loop alloc src len 0 c1 = Some (st, n, c')" "mbuf_ok c'"
      "st = ZX_OK \<or> st = ZX_ERR_INVALID_ARGS \<and> copy_array_from_user src 0 len = None" "n \<le> len" "copy_array_from_user src 0 n = Some bs"
      "chain_contents c' = chain_contents c1 @ bs"
      using write_stream_loop_spec [OF c1(1,2), of 0 len alloc src] by auto
    have eq: "WriteStream alloc src len c = (if st \<noteq> ZX_OK then Some (st, 0, c')
        else if n = 0 then Some (ZX_ERR_SHOULD_WAIT, 0, c') else Some (ZX_OK, n, c'))"
      by (simp add: WriteStream_def Some l(1) flip: pre_def)
    have cc: "chain_contents c' = chain_contents c @ bs" using l(6) c1(3) by simp
    consider "st = ZX_ERR_INVALID_ARGS" "copy_array_from_user src 0 len = None" | "st = ZX_OK" "n = 0" | "st = ZX_OK" "0 < n" using l(3) by auto
    then show ?thesis
    proof cases
      case 1
      have "WriteStream alloc src len c = Some (ZX_ERR_INVALID_ARGS, 0, c')" using eq 1 by simp
      then show ?thesis using l(2,4,5) cc 1(2) by blast
    next
      case 2
      have "WriteStream alloc src len c = Some (ZX_ERR_SHOULD_WAIT, 0, c')" using eq 2 by simp
      then show ?thesis using l(2,4,5) cc 2(2) by blast
    next
      case 3
      have "WriteStream alloc src len c = Some (ZX_OK, n, c')" using eq 3 by simp
      then show ?thesis using l(2,4,5) cc 3(2) by blast
    qed
  qed
qed

declare read_loop.simps [simp del] and drain_datagram.simps [simp del]

lemma pop_tail_ok:
  assumes "mbuf_ok c" "mc_tail c = m # ms" "c1 = c\<lparr>mc_tail := m' # ms, mc_size := mc_size c - mb_len m\<rparr>"
    "mb_id m' = mb_id m"
  shows "mbuf_ok (pop_tail c1)" "mc_tail (pop_tail c1) = ms"
proof -
  have last: "mc_head c1 = Some (mb_id (last (m # ms)))" "mb_id m \<notin> mb_id ` set ms"
    using assms(1,2) by (simp_all add: mbuf_ok_def assms(3))
  have "ms \<noteq> [] \<Longrightarrow> mb_id (last ms) \<noteq> mb_id m" using last(2) by (metis imageI last_in_set)
  then have pt: "pop_tail c1 = c\<lparr>mc_tail := ms, mc_size := mc_size c - mb_len m,
      mc_head := (if ms = [] then None else Some (mb_id (last ms))),
      mc_freelist := m'\<lparr>mb_off := 0, mb_len := 0\<rparr> # mc_freelist c\<rparr>"
    using last(1) assms(4) by (auto simp: pop_tail_def FreeMBuf_def assms(3))
  show "mc_tail (pop_tail c1) = ms" by (simp add: pt)
  show "mbuf_ok (pop_tail c1)" using assms(1,2,4) by (auto simp: mbuf_ok_def pt)
qed

lemma read_stream_spec:
  assumes "mbuf_ok c" "pos \<le> len"
  shows "\<exists>c'. read_loop False (\<lambda>_. True) len pos out c
      = (ZX_OK, out @ take (len - pos) (chain_contents c), pos + min (len - pos) (length (chain_contents c)), c')
    \<and> mbuf_ok c' \<and> chain_contents c' = drop (len - pos) (chain_contents c)"
  using assms
proof (induction "length (mc_tail c)" arbitrary: pos out c)
  case 0
  then show ?case by (subst read_loop.simps) (simp add: chain_contents_def)
next
  case (Suc n)
  then obtain m ms where t: "mc_tail c = m # ms" by (cases "mc_tail c") auto
  have all: "copy_array_to_user (\<lambda>_. True) k j" for k j by (simp add: copy_array_to_user_def list_all_iff)
  have cc: "chain_contents c = mbuf_bytes m @ concat (map mbuf_bytes ms)" by (simp add: chain_contents_def t)
  consider "pos = len" | "pos < len" "mb_len m \<le> len - pos" | "pos < len" "len - pos < mb_len m"
    using Suc.prems(2) by linarith
  then show ?case
  proof cases
    case 1
    then show ?thesis using Suc.prems by (subst read_loop.simps) simp
  next
    case 2
    define c1 where "c1 = c\<lparr>mc_tail := m\<lparr>mb_off := mb_off m + mb_len m, mb_len := 0\<rparr> # ms, mc_size := mc_size c - mb_len m\<rparr>"
    have p: "mbuf_ok (pop_tail c1)" "mc_tail (pop_tail c1) = ms" using pop_tail_ok [OF Suc.prems(1) t c1_def] by simp_all
    have le: "pos + mb_len m \<le> len" using 2 by simp
    have step: "read_loop False (\<lambda>_. True) len pos out c
        = read_loop False (\<lambda>_. True) len (pos + mb_len m) (out @ mbuf_bytes m) (pop_tail c1)"
      using 2 by (subst read_loop.simps) (simp add: t all Let_def c1_def min_def)
    have n: "n = length (mc_tail (pop_tail c1))" using p(2) Suc.hyps(2) t by simp
    have c2: "chain_contents (pop_tail c1) = concat (map mbuf_bytes ms)" using p(2) by (simp add: chain_contents_def)
    have arith: "pos + mb_len m + min (len - (pos + mb_len m)) k = pos + min (len - pos) (mb_len m + k)" for k
      using 2 by simp
    show ?thesis
      using Suc.hyps(1) [OF n p(1) le, of "out @ mbuf_bytes m"] 2 unfolding step c2 cc by (simp add: arith)
  next
    case 3
    define c1 where "c1 = c\<lparr>mc_tail := m\<lparr>mb_off := mb_off m + (len - pos), mb_len := mb_len m - (len - pos)\<rparr> # ms,
        mc_size := mc_size c - (len - pos)\<rparr>"
    have step: "read_loop False (\<lambda>_. True) len pos out c = (ZX_OK, out @ take (len - pos) (mbuf_bytes m), len, c1)"
      using 3 by (subst read_loop.simps) (simp add: t all Let_def c1_def min_def)
    have ok: "mbuf_ok c1" using Suc.prems(1) 3 by (auto simp: mbuf_ok_def t c1_def)
    have "chain_contents c1 = drop (len - pos) (mbuf_bytes m) @ concat (map mbuf_bytes ms)"
      using 3 by (simp add: chain_contents_def c1_def mbuf_bytes_def drop_map)
    then show ?thesis using step ok 3 by (simp add: cc)
  qed
qed

lemma mbuf_Read_stream:
  assumes "mbuf_ok c"
  shows "\<exists>c'. mbuf_Read (\<lambda>_. True) len False c
      = (ZX_OK, take len (chain_contents c), min len (length (chain_contents c)), c')
    \<and> mbuf_ok c' \<and> chain_contents c' = drop len (chain_contents c)"
proof (cases "mc_size c = 0")
  case True
  then have "chain_contents c = []" using chain_contents_length [OF assms] by simp
  then show ?thesis using True assms by (simp add: mbuf_Read_def)
next
  case False
  obtain c' where "read_loop False (\<lambda>_. True) len 0 [] c
      = (ZX_OK, take len (chain_contents c), min len (length (chain_contents c)), c')" "mbuf_ok c'"
    "chain_contents c' = drop len (chain_contents c)"
    using read_stream_spec [OF assms, of 0 len "[]"] by auto
  then show ?thesis using False by (simp add: mbuf_Read_def)
qed

text \<open>The stream operations as a client sees them when allocation and its buffers never fail.\<close>

definition mbuf_push :: "u8 list \<Rightarrow> mbuf_chain \<Rightarrow> nat \<times> mbuf_chain" where
  "mbuf_push bs c = (case WriteStream (\<lambda>_. True) (user_of_list bs) (length bs) c of
     None \<Rightarrow> (0, c) | Some (st, n, c') \<Rightarrow> (n, c'))"

definition mbuf_pop :: "nat \<Rightarrow> mbuf_chain \<Rightarrow> u8 list \<times> mbuf_chain" where
  "mbuf_pop n c = (case mbuf_Read (\<lambda>_. True) n False c of (st, out, k, c') \<Rightarrow> (out, c'))"

lemma mbuf_push_spec:
  assumes "mbuf_ok c"
  shows "mbuf_ok (snd (mbuf_push bs c))"
    "chain_contents (snd (mbuf_push bs c)) = chain_contents c @ take (fst (mbuf_push bs c)) bs"
proof -
  obtain st n c' xs k where w: "WriteStream (\<lambda>_. True) (user_of_list bs) (length bs) c = Some (st, n, c')"
    "mbuf_ok c'" "k \<le> length bs" "copy_array_from_user (user_of_list bs) 0 k = Some xs"
    "chain_contents c' = chain_contents c @ xs"
    "st = ZX_OK \<and> n = k \<and> 0 < k \<or> st = ZX_ERR_SHOULD_WAIT \<and> n = 0 \<and> k = 0 
     \<or> st = ZX_ERR_INVALID_ARGS \<and> n = 0 \<and> copy_array_from_user (user_of_list bs) 0 (length bs) = None"
    using WriteStream_spec [OF assms, of "\<lambda>_. True" "user_of_list bs" "length bs"] by blast
  have xs: "xs = take k bs" using w(3,4) copy_array_from_user_of_list [of 0 k bs] by simp
  have st: "st \<noteq> ZX_ERR_INVALID_ARGS" using w(6) copy_array_from_user_of_list [of 0 "length bs" bs] by auto
  show "mbuf_ok (snd (mbuf_push bs c))" using w(1,2) by (simp add: mbuf_push_def)
  show "chain_contents (snd (mbuf_push bs c)) = chain_contents c @ take (fst (mbuf_push bs c)) bs"
    using w(1,5,6) xs st by (auto simp: mbuf_push_def)
qed

lemma mbuf_pop_spec:
  assumes "mbuf_ok c"
  shows "mbuf_ok (snd (mbuf_pop n c))" "fst (mbuf_pop n c) = take n (chain_contents c)"
    "chain_contents (snd (mbuf_pop n c)) = drop n (chain_contents c)"
  using mbuf_Read_stream [OF assms, of n] by (auto simp: mbuf_pop_def)

interpretation mbuf_stream: stream_buffer mbuf_ok chain_contents mbuf_push mbuf_pop
  by unfold_locales (simp_all add: mbuf_push_spec mbuf_pop_spec)


lemma mbuf_chain_init_ok: "mbuf_ok mbuf_chain_init"
  by (simp add: mbuf_ok_def mbuf_chain_init_def)


section \<open>Peeking\<close>

lemma read_loop_peek:
  "fst (read_loop dg dst len pos out c) = fst (peek_loop dst len pos out (mc_tail c))
   \<and> fst (snd (read_loop dg dst len pos out c)) = fst (snd (peek_loop dst len pos out (mc_tail c)))
   \<and> fst (snd (snd (read_loop dg dst len pos out c))) = snd (snd (peek_loop dst len pos out (mc_tail c)))"
proof (induction "length (mc_tail c)" arbitrary: pos out c)
  case 0
  then show ?case by (subst (1 2 3) read_loop.simps) simp
next
  case (Suc n)
  then obtain m ms where t: "mc_tail c = m # ms" by (cases "mc_tail c") auto
  define k where "k = min (mb_len m) (len - pos)"
  define c1 where "c1 = c\<lparr>mc_tail := m\<lparr>mb_off := mb_off m + k, mb_len := mb_len m - k\<rparr> # ms, mc_size := mc_size c - k\<rparr>"
  define c2 where "c2 = pop_tail (c1\<lparr>mc_size := mc_size c1 - (mb_len m - k)\<rparr>)"
  have step: "read_loop dg dst len pos out c =
     (if \<not> pos < len then (ZX_OK, out, pos, c)
      else if \<not> copy_array_to_user dst pos k then (ZX_ERR_INVALID_ARGS, out, pos, c)
      else if mb_len m - k = 0 \<or> dg
           then read_loop dg dst len (pos + k) (out @ take k (mbuf_bytes m)) c2
           else (ZX_OK, out @ take k (mbuf_bytes m), pos + k, c1))"
    by (subst read_loop.simps) (simp add: t Let_def k_def c1_def c2_def)
  have tail: "mc_tail c2 = ms" by (simp add: c2_def c1_def pop_tail_def FreeMBuf_def)
  have IH: "n = length (mc_tail c2)" using Suc.hyps(2) t tail by simp
  have stop: "peek_loop dst len (pos + k) o' ms = (ZX_OK, o', pos + k)" if "mb_len m - k \<noteq> 0" "pos < len" for o'
    using that by (cases ms) (auto simp: k_def)
  show ?case
    using Suc.hyps(1) [OF IH, of "pos + k" "out @ take k (mbuf_bytes m)"] stop
    by (simp add: step t tail Let_def k_def [symmetric])
qed

text \<open>
  Peeking equals reading. For every chain, in both modes and whatever addresses of the
  user's buffer fault, \<open>Peek\<close> returns the status, the bytes and the count that \<open>Read\<close> would return
  on the same arguments.
\<close>

lemma mbuf_peek_equals_read:
  "mbuf_Peek dst len datagram c
   = (let (st, out, n, c') = mbuf_Read dst len datagram c in (st, out, n))"
proof -
  define l where "l = (if datagram \<and> len > mb_pkt_len (hd (mc_tail c)) then mb_pkt_len (hd (mc_tail c)) else len)"
  obtain st out n c' where r: "read_loop datagram dst l 0 [] c = (st, out, n, c')" by (metis prod_cases4)
  then have p: "peek_loop dst l 0 [] (mc_tail c) = (st, out, n)"
    using read_loop_peek [of datagram dst l 0 "[]" c] by (auto intro!: prod_eqI)
  show ?thesis by (simp add: mbuf_Peek_def mbuf_Read_def Let_def r p flip: l_def)
qed

section \<open>Datagrams\<close>

lemma copy_all_zero: "copy_array_from_user (\<lambda>_. Some 0) k n = Some (replicate n 0)"
  by (simp add: copy_array_from_user_def list_all_iff map_replicate_const)


end
