(* ===== verification/Socket.thy ===== *)
theory Socket
  imports Peered Mbuf
begin

text \<open>
  Sockets (\<^verbatim>\<open>object/socket_dispatcher.cc\<close>): a pair of objects, each with a buffer chain of the bytes
  its peer wrote, thresholds, and the two directions of a shutdown. The state extends \<open>peered_sys\<close>,
  the chains are those of \<open>Mbuf\<close>. The theory shows what the signals say about the chains, and two
  runs in which they do not say what they should.
\<close>

section \<open>Constants and state\<close>

abbreviation "ZX_SOCKET_READABLE \<equiv> ZX_OBJECT_READABLE"
abbreviation "ZX_SOCKET_WRITABLE \<equiv> ZX_OBJECT_WRITABLE"
abbreviation "ZX_SOCKET_PEER_CLOSED \<equiv> ZX_OBJECT_PEER_CLOSED"
abbreviation "ZX_SOCKET_PEER_WRITE_DISABLED \<equiv> ZX_OBJECT_SIGNAL_4"
abbreviation "ZX_SOCKET_WRITE_DISABLED \<equiv> ZX_OBJECT_SIGNAL_5"
abbreviation "ZX_SOCKET_READ_THRESHOLD \<equiv> ZX_OBJECT_SIGNAL_10"
abbreviation "ZX_SOCKET_WRITE_THRESHOLD \<equiv> ZX_OBJECT_SIGNAL_11"

definition ZX_SOCKET_SHUTDOWN_WRITE :: u32 where "ZX_SOCKET_SHUTDOWN_WRITE = push_bit 0 1"
definition ZX_SOCKET_SHUTDOWN_READ :: u32 where "ZX_SOCKET_SHUTDOWN_READ = push_bit 1 1"
definition ZX_SOCKET_DATAGRAM :: u32 where "ZX_SOCKET_DATAGRAM = push_bit 0 1"
definition ZX_SOCKET_CREATE_MASK :: u32 where "ZX_SOCKET_CREATE_MASK = ZX_SOCKET_DATAGRAM"

record sock =
  sk_flags :: u32
  sk_data :: mbuf_chain
  sk_read_threshold :: nat
  sk_write_threshold :: nat
  sk_read_disabled :: bool

record socket_sys = peered_sys +
  so_sock :: "koid \<Rightarrow> sock"

definition upd_sock :: "koid \<Rightarrow> (sock \<Rightarrow> sock) \<Rightarrow> socket_sys \<Rightarrow> socket_sys" where
  "upd_sock k f s = s\<lparr>so_sock := (so_sock s)(k := f (so_sock s k))\<rparr>"

abbreviation sk_datagram :: "sock \<Rightarrow> bool" where
  "sk_datagram f \<equiv> sk_flags f AND ZX_SOCKET_DATAGRAM \<noteq> 0"

text \<open>\<open>if (set || clear) UpdateStateLocked(clear, set)\<close>, the guard most updates of this file have.\<close>

definition update_if :: "koid \<Rightarrow> zx_signals \<Rightarrow> zx_signals \<Rightarrow> socket_sys \<Rightarrow> socket_sys" where
  "update_if k c t s = (if c \<noteq> 0 \<or> t \<noteq> 0 then update_state k c t s else s)"

section \<open>Operations\<close>

definition sock_ctor :: "u32 \<Rightarrow> sock" where
  "sock_ctor flags = \<lparr>sk_flags = flags, sk_data = mbuf_chain_init, sk_read_threshold = 0, sk_write_threshold = 0,
     sk_read_disabled = False\<rparr>"

definition Socket_Create :: "bool \<Rightarrow> u32 \<Rightarrow> koid \<Rightarrow> koid \<Rightarrow> socket_sys \<Rightarrow> zx_status \<times> socket_sys" where
  "Socket_Create alloc_ok flags k0 k1 s =
     (if flags AND NOT ZX_SOCKET_CREATE_MASK \<noteq> 0 then (ZX_ERR_INVALID_ARGS, s)
      else if \<not> alloc_ok then (ZX_ERR_NO_MEMORY, s)
      else (ZX_OK, init_pair ZX_SOCKET_WRITABLE k0 k1
                     (s\<lparr>so_sock := (so_sock s)(k0 := sock_ctor flags, k1 := sock_ctor flags)\<rparr>)))"

definition Socket_on_zero_handles_locked :: "koid \<Rightarrow> socket_sys \<Rightarrow> socket_sys" where
  "Socket_on_zero_handles_locked k s = s"

definition Socket_OnPeerZeroHandlesLocked :: "koid \<Rightarrow> socket_sys \<Rightarrow> socket_sys" where
  "Socket_OnPeerZeroHandlesLocked k s = update_state k ZX_SOCKET_WRITABLE ZX_SOCKET_PEER_CLOSED s"

abbreviation "Socket_close \<equiv> peered_on_zero_handles Socket_on_zero_handles_locked Socket_OnPeerZeroHandlesLocked"

definition ShutdownOtherLocked :: "u32 \<Rightarrow> koid \<Rightarrow> socket_sys \<Rightarrow> zx_status \<times> socket_sys" where
  "ShutdownOtherLocked how k s =
     (let shutdown_read = how AND ZX_SOCKET_SHUTDOWN_READ \<noteq> 0;
          shutdown_write = how AND ZX_SOCKET_SHUTDOWN_WRITE \<noteq> 0;
          clear_mask = (if shutdown_read then ZX_SOCKET_WRITABLE else 0);
          set_mask = (if shutdown_read then ZX_SOCKET_WRITE_DISABLED else 0)
                     OR (if shutdown_write then ZX_SOCKET_PEER_WRITE_DISABLED else 0);
          s1 = (if shutdown_write then upd_sock k (\<lambda>f. f\<lparr>sk_read_disabled := True\<rparr>) s else s)
      in (ZX_OK, update_state k clear_mask set_mask s1))"

definition Socket_Shutdown :: "u32 \<Rightarrow> koid \<Rightarrow> socket_sys \<Rightarrow> zx_status \<times> socket_sys" where
  "Socket_Shutdown how k s =
     (let shutdown_read = how AND ZX_SOCKET_SHUTDOWN_READ \<noteq> 0;
          shutdown_write = how AND ZX_SOCKET_SHUTDOWN_WRITE \<noteq> 0;
          want_signals = (if shutdown_read then ZX_SOCKET_PEER_WRITE_DISABLED else 0)
                         OR (if shutdown_write then ZX_SOCKET_WRITE_DISABLED else 0);
          have_signals = sig_of k s AND (ZX_SOCKET_PEER_WRITE_DISABLED OR ZX_SOCKET_WRITE_DISABLED)
      in if want_signals = have_signals then (ZX_OK, s)
         else
           (let s1 = (if shutdown_read then upd_sock k (\<lambda>f. f\<lparr>sk_read_disabled := True\<rparr>) s else s);
                clear_mask = (if shutdown_write then ZX_SOCKET_WRITABLE else 0);
                set_mask = (if shutdown_read then ZX_SOCKET_PEER_WRITE_DISABLED else 0)
                           OR (if shutdown_write then ZX_SOCKET_WRITE_DISABLED else 0);
                s2 = update_state k clear_mask set_mask s1
            in case pd_peer s2 k of
                 Some pk \<Rightarrow> ShutdownOtherLocked how pk s2
               | None \<Rightarrow> (ZX_OK, s2)))"

text \<open>Both kinds of write to a chain; \<open>None\<close> is a stream write that does not return.\<close>

definition chain_write ::
    "bool \<Rightarrow> (nat \<Rightarrow> bool) \<Rightarrow> user_in \<Rightarrow> nat \<Rightarrow> mbuf_chain \<Rightarrow> (zx_status \<times> nat \<times> mbuf_chain) option" where
  "chain_write datagram alloc src len c =
     (if datagram then Some (WriteDatagram alloc src len c) else WriteStream alloc src len c)"

definition Socket_WriteSelfLocked ::
    "(nat \<Rightarrow> bool) \<Rightarrow> user_in \<Rightarrow> nat \<Rightarrow> koid \<Rightarrow> socket_sys \<Rightarrow> (zx_status \<times> nat \<times> socket_sys) option" where
  "Socket_WriteSelfLocked alloc src len k s =
     (let f = so_sock s k in
      if mbuf_is_full (sk_data f) then Some (ZX_ERR_SHOULD_WAIT, 0, s)
      else case chain_write (sk_datagram f) alloc src len (sk_data f) of
        None \<Rightarrow> None
      | Some (status, st, data) \<Rightarrow>
          let was_empty = mbuf_is_empty (sk_data f);
              s1 = upd_sock k (\<lambda>f. f\<lparr>sk_data := data\<rparr>) s
          in if status \<noteq> ZX_OK then Some (status, 0, s1)
             else
               let set_mask = (if st > 0 \<and> was_empty then ZX_SOCKET_READABLE else 0)
                     OR (if st > 0 \<and> sk_read_threshold f > 0 \<and> mbuf_size False data \<ge> sk_read_threshold f
                         then ZX_SOCKET_READ_THRESHOLD else 0);
                   s2 = update_if k 0 set_mask s1
               in case pd_peer s k of
                    None \<Rightarrow> Some (ZX_OK, st, s2)
                  | Some pk \<Rightarrow>
                      let peer_write_threshold = sk_write_threshold (so_sock s pk);
                          clear_mask = (if st > 0 \<and> peer_write_threshold > 0
                                  \<and> mbuf_kSizeMax - mbuf_size False data < peer_write_threshold
                                then ZX_SOCKET_WRITE_THRESHOLD else 0)
                             OR (if mbuf_is_full data then ZX_SOCKET_WRITABLE else 0)
                      in Some (ZX_OK, st, update_if pk clear_mask 0 s2))"

definition Socket_Write ::
    "(nat \<Rightarrow> bool) \<Rightarrow> user_in \<Rightarrow> nat \<Rightarrow> koid \<Rightarrow> socket_sys \<Rightarrow> (zx_status \<times> nat \<times> socket_sys) option" where
  "Socket_Write alloc src len k s =
     (case pd_peer s k of
        None \<Rightarrow> Some (ZX_ERR_PEER_CLOSED, 0, s)
      | Some pk \<Rightarrow>
          if sig_of k s AND ZX_SOCKET_WRITE_DISABLED \<noteq> 0 then Some (ZX_ERR_BAD_STATE, 0, s)
          else if len = 0 then Some (ZX_OK, 0, s)
          else if len \<ge> 2 ^ 32 then Some (ZX_ERR_INVALID_ARGS, 0, s)
          else Socket_WriteSelfLocked alloc src len pk s)"

definition Socket_Read ::
    "bool \<Rightarrow> user_out \<Rightarrow> nat \<Rightarrow> koid \<Rightarrow> socket_sys \<Rightarrow> zx_status \<times> u8 list \<times> nat \<times> socket_sys" where
  "Socket_Read peek dst len k s =
     (let f = so_sock s k in
      if len \<ge> 2 ^ 32 then (ZX_ERR_INVALID_ARGS, [], 0, s)
      else if mbuf_is_empty (sk_data f) then
        (if pd_peer s k = None then ZX_ERR_PEER_CLOSED
         else if sk_read_disabled f then ZX_ERR_BAD_STATE else ZX_ERR_SHOULD_WAIT, [], 0, s)
      else if peek then
        (let (status, out, actual) = mbuf_Peek dst len (sk_datagram f) (sk_data f) in
         if status \<noteq> ZX_OK then (status, out, 0, s) else (ZX_OK, out, actual, s))
      else
        (let was_full = mbuf_is_full (sk_data f);
             (status, out, actual, data) = mbuf_Read dst len (sk_datagram f) (sk_data f);
             s1 = upd_sock k (\<lambda>f. f\<lparr>sk_data := data\<rparr>) s
         in if status \<noteq> ZX_OK then (status, out, 0, s1)
            else
              (let clear_mask = (if sk_read_threshold f > 0 \<and> mbuf_size False data < sk_read_threshold f
                            then ZX_SOCKET_READ_THRESHOLD else 0)
                      OR (if mbuf_is_empty data then ZX_SOCKET_READABLE else 0);
                   s2 = update_if k clear_mask 0 s1;
                   s3 = (case pd_peer s k of
                           None \<Rightarrow> s2
                         | Some pk \<Rightarrow>
                             let peer_write_threshold = sk_write_threshold (so_sock s pk);
                                 set_mask = (if peer_write_threshold > 0
                                       \<and> mbuf_kSizeMax - mbuf_size False data \<ge> peer_write_threshold
                                     then ZX_SOCKET_WRITE_THRESHOLD else 0)
                                   OR (if was_full \<and> actual > 0 then ZX_SOCKET_WRITABLE else 0)
                             in update_if pk 0 set_mask s2)
               in (ZX_OK, out, actual, s3))))"

definition Socket_SetReadThreshold :: "nat \<Rightarrow> koid \<Rightarrow> socket_sys \<Rightarrow> zx_status \<times> socket_sys" where
  "Socket_SetReadThreshold n k s =
     (if n > mbuf_kSizeMax then (ZX_ERR_INVALID_ARGS, s)
      else
        (let s1 = upd_sock k (\<lambda>f. f\<lparr>sk_read_threshold := n\<rparr>) s in
         (ZX_OK, if n = 0 then update_state k ZX_SOCKET_READ_THRESHOLD 0 s1
                 else if mbuf_size False (sk_data (so_sock s k)) \<ge> n then update_state k 0 ZX_SOCKET_READ_THRESHOLD s1
                 else update_state k ZX_SOCKET_READ_THRESHOLD 0 s1)))"

definition Socket_SetWriteThreshold :: "nat \<Rightarrow> koid \<Rightarrow> socket_sys \<Rightarrow> zx_status \<times> socket_sys" where
  "Socket_SetWriteThreshold n k s =
     (case pd_peer s k of
        None \<Rightarrow> (ZX_ERR_PEER_CLOSED, s)
      | Some pk \<Rightarrow>
          if n > mbuf_kSizeMax then (ZX_ERR_INVALID_ARGS, s)
          else
            (let s1 = upd_sock k (\<lambda>f. f\<lparr>sk_write_threshold := n\<rparr>) s in
             (ZX_OK, if n = 0 then update_state k ZX_SOCKET_WRITE_THRESHOLD 0 s1
                     else if mbuf_kSizeMax - mbuf_size False (sk_data (so_sock s pk)) \<ge> n
                     then update_state k 0 ZX_SOCKET_WRITE_THRESHOLD s1
                     else update_state k ZX_SOCKET_WRITE_THRESHOLD 0 s1)))"

record socket_info =
  si_options :: u32
  si_rx_buf_max :: nat
  si_rx_buf_size :: nat
  si_rx_buf_available :: nat
  si_tx_buf_max :: nat
  si_tx_buf_size :: nat

definition Socket_GetInfo :: "koid \<Rightarrow> socket_sys \<Rightarrow> socket_info" where
  "Socket_GetInfo k s =
     (let f = so_sock s k in
      \<lparr>si_options = sk_flags f, si_rx_buf_max = mbuf_kSizeMax, si_rx_buf_size = mbuf_size False (sk_data f),
       si_rx_buf_available = mbuf_size (sk_datagram f) (sk_data f),
       si_tx_buf_max = (case pd_peer s k of None \<Rightarrow> 0 | Some _ \<Rightarrow> mbuf_kSizeMax),
       si_tx_buf_size = (case pd_peer s k of None \<Rightarrow> 0 | Some pk \<Rightarrow> mbuf_size False (sk_data (so_sock s pk)))\<rparr>)"

section \<open>Sockets as a class of pairs\<close>

lemma upd_sock_sels [simp]:
  "pd_peer (upd_sock k f s) = pd_peer s" "sig_of j (upd_sock k f s) = sig_of j s"
  "so_sock (upd_sock k f s) = (so_sock s)(k := f (so_sock s k))"
  by (simp_all add: upd_sock_def)

lemma so_sock_update_state [simp]: "so_sock (update_state k c t s) = so_sock s"
  by (simp add: update_state_def)

lemma update_if_sels [simp]:
  "pd_peer (update_if k c t s) = pd_peer s" "so_sock (update_if k c t s) = so_sock s"
  "sig_of j (update_if k c t s) = (if j = k then signals_update c t (sig_of k s) else sig_of j s)"
  by (simp_all add: update_if_def signals_update_def)

lemma bit_masks [sig_bits]:
  "bit (if P then (x :: zx_signals) else 0) n \<longleftrightarrow> P \<and> bit x n"
  by simp

interpretation socket_class: peered_class Socket_on_zero_handles_locked Socket_OnPeerZeroHandlesLocked
  by unfold_locales (auto simp: Socket_on_zero_handles_locked_def Socket_OnPeerZeroHandlesLocked_def sig_bits)

section \<open>What the signals say\<close>

text \<open>
  One direction of a stream pair: \<open>k\<close> owns the chain, \<open>j\<close> writes to it. The bits are 0 readable, 1
  writable, 2 peer closed, 4 peer write disabled, 5 write disabled, 10 and 11 the thresholds.
\<close>

definition sig_rx :: "koid \<Rightarrow> socket_sys \<Rightarrow> bool" where
  "sig_rx k s \<longleftrightarrow> (bit (sig_of k s) 0 \<longleftrightarrow> 0 < mc_size (sk_data (so_sock s k)))
     \<and> (bit (sig_of k s) 4 \<longleftrightarrow> sk_read_disabled (so_sock s k))
     \<and> (bit (sig_of k s) 10 \<longleftrightarrow> 0 < sk_read_threshold (so_sock s k)
          \<and> sk_read_threshold (so_sock s k) \<le> mc_size (sk_data (so_sock s k)))"

definition sig_tx :: "koid \<Rightarrow> koid \<Rightarrow> socket_sys \<Rightarrow> bool" where
  "sig_tx k j s \<longleftrightarrow> (bit (sig_of j s) 5 \<longleftrightarrow> sk_read_disabled (so_sock s k))
     \<and> (bit (sig_of j s) 5 \<or> (bit (sig_of j s) 1 \<longleftrightarrow> mc_size (sk_data (so_sock s k)) < mbuf_kSizeMax))
     \<and> (bit (sig_of j s) 11 \<longleftrightarrow> 0 < sk_write_threshold (so_sock s j)
          \<and> sk_write_threshold (so_sock s j) \<le> mbuf_kSizeMax - mc_size (sk_data (so_sock s k)))"

definition sock_dir :: "koid \<Rightarrow> koid \<Rightarrow> socket_sys \<Rightarrow> bool" where
  "sock_dir k j s \<longleftrightarrow> mbuf_ok (sk_data (so_sock s k)) \<and> \<not> sk_datagram (so_sock s k)
     \<and> (pd_peer s k = None \<or> pd_peer s k = Some j) \<and> sig_rx k s
     \<and> (bit (sig_of k s) 2 \<longrightarrow> pd_peer s k = None \<and> \<not> bit (sig_of k s) 1)
     \<and> (pd_peer s k = Some j \<longrightarrow> sig_tx k j s)"

definition sock_pair :: "koid \<Rightarrow> koid \<Rightarrow> socket_sys \<Rightarrow> bool" where
  "sock_pair k0 k1 s \<longleftrightarrow> sock_dir k0 k1 s \<and> sock_dir k1 k0 s \<and> (pd_peer s k0 = None \<longleftrightarrow> pd_peer s k1 = None)"

text \<open>
  The steps of a stream pair. A user copy that faults is left out: the second theorem below shows
  what it does to the signals.
\<close>

inductive socket_step :: "koid \<Rightarrow> koid \<Rightarrow> socket_sys \<Rightarrow> socket_sys \<Rightarrow> bool" for k0 k1 where
  so_write: "k \<in> {k0, k1} \<Longrightarrow> copy_array_from_user src 0 len \<noteq> None \<Longrightarrow>
    Socket_Write alloc src len k s = Some (st, n, s') \<Longrightarrow> socket_step k0 k1 s s'"
| so_read: "k \<in> {k0, k1} \<Longrightarrow> Socket_Read False (\<lambda>_. True) len k s = (st, out, n, s') \<Longrightarrow> socket_step k0 k1 s s'"
| so_peek: "k \<in> {k0, k1} \<Longrightarrow> Socket_Read True dst len k s = (st, out, n, s') \<Longrightarrow> socket_step k0 k1 s s'"
| so_shutdown: "k \<in> {k0, k1} \<Longrightarrow> Socket_Shutdown how k s = (st, s') \<Longrightarrow> socket_step k0 k1 s s'"
| so_read_threshold: "k \<in> {k0, k1} \<Longrightarrow> Socket_SetReadThreshold m k s = (st, s') \<Longrightarrow> socket_step k0 k1 s s'"
| so_write_threshold: "k \<in> {k0, k1} \<Longrightarrow> Socket_SetWriteThreshold m k s = (st, s') \<Longrightarrow> socket_step k0 k1 s s'"
| so_close: "k \<in> {k0, k1} \<Longrightarrow> socket_step k0 k1 s (Socket_close k s)"
| so_signal: "peered_user_signal_self 0 k c t s = (st, s') \<Longrightarrow> socket_step k0 k1 s s'"
| so_signal_peer: "peered_user_signal_peer 0 k c t s = (st, s') \<Longrightarrow> socket_step k0 k1 s s'"
| so_other: "\<forall>k. obj_signals (kw_objs w k) = sig_of k s \<Longrightarrow> socket_step k0 k1 s (s\<lparr>pd_ko := w\<rparr>)"

text \<open>The chain of a stream write without a fault.\<close>

lemma chain_write_stream:
  assumes ok: "mbuf_ok c" and src: "copy_array_from_user src 0 len \<noteq> None"
    and w: "chain_write False alloc src len c = Some (st, n, c')"
  shows "mbuf_ok c' \<and> mc_size c' = mc_size c + n \<and> (st = ZX_OK \<longrightarrow> 0 < n) \<and> (st \<noteq> ZX_OK \<longrightarrow> n = 0)"
proof -
  obtain st' n' c'' bs k where e: "WriteStream alloc src len c = Some (st', n', c'')" "mbuf_ok c''"
    "copy_array_from_user src 0 k = Some bs" "chain_contents c'' = chain_contents c @ bs"
    "st' = ZX_OK \<and> n' = k \<and> 0 < k \<or> st' = ZX_ERR_SHOULD_WAIT \<and> n' = 0 \<and> k = 0
      \<or> st' = ZX_ERR_INVALID_ARGS \<and> n' = 0 \<and> copy_array_from_user src 0 len = None"
    using WriteStream_spec [OF ok, of alloc src len] by blast
  have "mc_size c'' = mc_size c + k"
    using chain_contents_length [OF ok] chain_contents_length [OF e(2)] e(4) copy_array_from_user_length [OF e(3)] by simp
  then show ?thesis using e w src by (auto simp: chain_write_def)
qed

lemma chain_read_stream:
  assumes "mbuf_ok c" "mbuf_Read (\<lambda>_. True) len False c = (st, out, n, c')"
  shows "st = ZX_OK \<and> mbuf_ok c' \<and> mc_size c = mc_size c' + n \<and> (n = 0 \<longrightarrow> len = 0 \<or> mc_size c = 0)"
proof -
  obtain c2 where r: "mbuf_Read (\<lambda>_. True) len False c = (ZX_OK, take len (chain_contents c), min len (length (chain_contents c)), c2)"
    "mbuf_ok c2" "chain_contents c2 = drop len (chain_contents c)"
    using mbuf_Read_stream [OF assms(1), of len] by blast
  then have "mc_size c2 = mc_size c - len"
    using chain_contents_length [OF assms(1)] chain_contents_length [OF r(2)] by simp
  then show ?thesis using r assms chain_contents_length [OF assms(1)] by auto
qed

lemma sock_pair_sym: "sock_pair k0 k1 s \<Longrightarrow> sock_pair k1 k0 s"
  by (auto simp: sock_pair_def)

lemma mbuf_size_stream [simp]: "mbuf_size False c = mc_size c"
  by (simp add: mbuf_size_def)

lemma sock_pair_peers:
  "sock_pair k j s \<Longrightarrow> pd_peer s k = None \<and> pd_peer s j = None \<or> pd_peer s k = Some j \<and> pd_peer s j = Some k"
  by (auto simp: sock_pair_def sock_dir_def)

lemma sock_pairI:
  "sock_dir k j s \<Longrightarrow> sock_dir j k s \<Longrightarrow> (pd_peer s k = None \<longleftrightarrow> pd_peer s j = None) \<Longrightarrow> sock_pair k j s"
  by (simp add: sock_pair_def)

text \<open>
  A change of the chain at \<open>k\<close> with updates of the signals of both ends: what has to be checked.
\<close>

lemma sock_pair_transfer:
  assumes pr: "sock_pair k j s" and ne: "k \<noteq> j" and p: "pd_peer s k = Some j" and c: "mbuf_ok c"
    and s': "s' = update_if j C1 T1 (update_if k C T (upd_sock k (\<lambda>f. f\<lparr>sk_data := c\<rparr>) s))"
    and foreign: "\<And>b. b \<in> {1, 2, 4, 5, 11} \<Longrightarrow> \<not> bit C b \<and> \<not> bit T b"
      "\<And>b. b \<in> {0, 2, 4, 5, 10} \<Longrightarrow> \<not> bit C1 b \<and> \<not> bit T1 b"
    and rx: "sig_rx k s \<Longrightarrow> sig_rx k s'" and tx: "sig_tx k j s \<Longrightarrow> sig_tx k j s'"
  shows "sock_pair k j s'"
proof (rule sock_pairI)
  have pj: "pd_peer s j = Some k" using sock_pair_peers [OF pr] p by simp
  have d: "sock_dir k j s" "sock_dir j k s" using pr by (simp_all add: sock_pair_def)
  have f: "\<not> bit C (Suc 0)" "\<not> bit T (Suc 0)" "\<not> bit C 2" "\<not> bit T 2" "\<not> bit C 4" "\<not> bit T 4" "\<not> bit C 5" "\<not> bit T 5"
    "\<not> bit C 11" "\<not> bit T 11" "\<not> bit C1 0" "\<not> bit T1 0" "\<not> bit C1 2" "\<not> bit T1 2" "\<not> bit C1 4" "\<not> bit T1 4"
    "\<not> bit C1 5" "\<not> bit T1 5" "\<not> bit C1 10" "\<not> bit T1 10"
    using foreign by simp_all
  show "sock_dir k j s'" using d(1) rx tx p c ne by (simp add: sock_dir_def s' sig_bits f)
  have "sig_rx j s' = sig_rx j s" using ne by (simp add: sig_rx_def s' sig_bits f)
  moreover have "sig_tx j k s' = sig_tx j k s" using ne by (simp add: sig_tx_def s' sig_bits f)
  ultimately show "sock_dir j k s'" using d(2) pj ne by (simp add: sock_dir_def s' sig_bits f)
  show "(pd_peer s' k = None) = (pd_peer s' j = None)" using p pj by (simp add: s')
qed

lemma sock_pair_write:
  assumes pr: "sock_pair k j s" and ne: "k \<noteq> j" and src: "copy_array_from_user src 0 len \<noteq> None"
    and w: "Socket_Write alloc src len j s = Some (st, n, s')"
  shows "sock_pair k j s'"
proof (cases "s' = s")
  case False
  let ?f = "so_sock s k"
  have pj: "pd_peer s j = Some k" and ws: "Socket_WriteSelfLocked alloc src len k s = Some (st, n, s')"
    and nd: "\<not> bit (sig_of j s) 5"
    using w False sock_pair_peers [OF pr] by (auto simp: Socket_Write_def sig_bits split: option.splits if_splits)
  have pk: "pd_peer s k = Some j" using pj sock_pair_peers [OF pr] by simp
  have ok: "mbuf_ok (sk_data ?f)" "\<not> sk_datagram ?f" using pr by (auto simp: sock_pair_def sock_dir_def)
  have nf: "\<not> mbuf_is_full (sk_data ?f)" using ws False by (auto simp: Socket_WriteSelfLocked_def Let_def)
  then obtain st0 m c where cw: "chain_write False alloc src len (sk_data ?f) = Some (st0, m, c)"
    using ws ok(2) by (auto simp: Socket_WriteSelfLocked_def Let_def split: option.splits)
  note c = chain_write_stream [OF ok(1) src cw]
  define T where "T = (if st0 = ZX_OK \<and> mbuf_is_empty (sk_data ?f) then ZX_SOCKET_READABLE else 0)
     OR (if st0 = ZX_OK \<and> sk_read_threshold ?f > 0 \<and> mc_size c \<ge> sk_read_threshold ?f then ZX_SOCKET_READ_THRESHOLD else 0)"
  define C where "C = (if st0 = ZX_OK \<and> sk_write_threshold (so_sock s j) > 0
       \<and> mbuf_kSizeMax - mc_size c < sk_write_threshold (so_sock s j) then ZX_SOCKET_WRITE_THRESHOLD else 0)
     OR (if st0 = ZX_OK \<and> mbuf_is_full c then ZX_SOCKET_WRITABLE else 0)"
  have "update_if j C 0 (update_if k 0 T (upd_sock k (\<lambda>f. f\<lparr>sk_data := c\<rparr>) s)) = s'"
  proof (cases "st0 = ZX_OK")
    case True
    then have "0 < m" using c by simp
    then show ?thesis using True ws nf ok(2) cw pk by (simp add: Socket_WriteSelfLocked_def Let_def T_def C_def)
  next
    case no: False
    then show ?thesis using ws nf ok(2) cw by (simp add: Socket_WriteSelfLocked_def Let_def T_def C_def update_if_def)
  qed
  note s' = this [symmetric]
  have T: "bit T b \<longleftrightarrow> st0 = ZX_OK \<and> (b = 0 \<and> mc_size (sk_data ?f) = 0
      \<or> b = 10 \<and> sk_read_threshold ?f > 0 \<and> mc_size c \<ge> sk_read_threshold ?f)" for b
    unfolding T_def sig_bits mbuf_is_empty_def by blast
  have C: "bit C b \<longleftrightarrow> st0 = ZX_OK \<and> (b = 11 \<and> sk_write_threshold (so_sock s j) > 0
       \<and> mbuf_kSizeMax - mc_size c < sk_write_threshold (so_sock s j) \<or> b = 1 \<and> mbuf_kSizeMax \<le> mc_size c)" for b
    unfolding C_def sig_bits mbuf_is_full_def by blast
  show ?thesis
  proof (rule sock_pair_transfer [OF pr ne pk _ s'])
    show "sig_rx k s \<Longrightarrow> sig_rx k s'" using ne c by (cases "st0 = ZX_OK") (auto simp: sig_rx_def s' sig_bits T)
    show "sig_tx k j s \<Longrightarrow> sig_tx k j s'" using ne c nd nf
      by (cases "st0 = ZX_OK") (auto simp: sig_tx_def s' sig_bits C mbuf_is_full_def)
  qed (use c in \<open>auto simp: T C\<close>)
qed (use pr in simp)

lemma sock_pair_read:
  assumes pr: "sock_pair k j s" and ne: "k \<noteq> j" and r: "Socket_Read False (\<lambda>_. True) len k s = (st, out, n, s')"
  shows "sock_pair k j s'"
proof (cases "s' = s")
  case False
  let ?f = "so_sock s k"
  have d: "sock_dir k j s" "sock_dir j k s" using pr by (simp_all add: sock_pair_def)
  have ok: "mbuf_ok (sk_data ?f)" "\<not> sk_datagram ?f" using d by (auto simp: sock_dir_def)
  obtain st0 o0 m c where cr: "mbuf_Read (\<lambda>_. True) len False (sk_data ?f) = (st0, o0, m, c)" by (metis prod_cases4)
  have st0: "st0 = ZX_OK" and c: "mbuf_ok c" "mc_size (sk_data ?f) = mc_size c + m" "mc_size (sk_data ?f) \<le> mbuf_kSizeMax"
    using chain_read_stream [OF ok(1) cr] ok(1) by (auto simp: mbuf_ok_def)
  have ne0: "\<not> 2 ^ 32 \<le> len" "\<not> mbuf_is_empty (sk_data ?f)"
    using r False by (auto simp: Socket_Read_def Let_def split: if_splits)
  define C where "C = (if sk_read_threshold ?f > 0 \<and> mc_size c < sk_read_threshold ?f then ZX_SOCKET_READ_THRESHOLD else 0)
     OR (if mbuf_is_empty c then ZX_SOCKET_READABLE else 0)"
  define T where "T = (if sk_write_threshold (so_sock s j) > 0 \<and> mbuf_kSizeMax - mc_size c \<ge> sk_write_threshold (so_sock s j)
       then ZX_SOCKET_WRITE_THRESHOLD else 0) OR (if mbuf_is_full (sk_data ?f) \<and> m > 0 then ZX_SOCKET_WRITABLE else 0)"
  have C: "bit C b \<longleftrightarrow> b = 10 \<and> sk_read_threshold ?f > 0 \<and> mc_size c < sk_read_threshold ?f \<or> b = 0 \<and> mc_size c = 0" for b
    unfolding C_def sig_bits mbuf_is_empty_def by blast
  have T: "bit T b \<longleftrightarrow> b = 11 \<and> sk_write_threshold (so_sock s j) > 0 \<and> mbuf_kSizeMax - mc_size c \<ge> sk_write_threshold (so_sock s j)
      \<or> b = 1 \<and> mbuf_kSizeMax \<le> mc_size (sk_data ?f) \<and> 0 < m" for b
    unfolding T_def sig_bits mbuf_is_full_def by blast
  let ?s2 = "update_if k C 0 (upd_sock k (\<lambda>f. f\<lparr>sk_data := c\<rparr>) s)"
  have b: "bit (sig_of k s) 0 \<longleftrightarrow> 0 < mc_size (sk_data ?f)" "bit (sig_of k s) 4 \<longleftrightarrow> sk_read_disabled ?f"
    "bit (sig_of k s) 10 \<longleftrightarrow> 0 < sk_read_threshold ?f \<and> sk_read_threshold ?f \<le> mc_size (sk_data ?f)"
    using d(1) by (simp_all add: sock_dir_def sig_rx_def)
  have rx: "sig_rx k s'" if e: "\<And>b. bit (sig_of k s') b \<longleftrightarrow> bit (sig_of k s) b \<and> \<not> bit C b" "so_sock s' k = ?f\<lparr>sk_data := c\<rparr>"
    unfolding sig_rx_def e C b using c by auto
  from sock_pair_peers [OF pr] show ?thesis
  proof
    assume p: "pd_peer s k = Some j \<and> pd_peer s j = Some k"
    have "Socket_Read False (\<lambda>_. True) len k s = (ZX_OK, o0, m, update_if j 0 T ?s2)"
      using ne0 ok(2) cr p st0 by (simp add: Socket_Read_def Let_def C_def T_def split del: if_split)
    with r have s2: "s' = update_if j 0 T ?s2" by simp
    show ?thesis
    proof (rule sock_pair_transfer [OF pr ne _ _ s2])
      show "sig_rx k s'" by (rule rx) (use ne in \<open>simp_all add: s2 sig_bits\<close>)
      have e: "bit (sig_of j s') b \<longleftrightarrow> bit (sig_of j s) b \<or> bit T b" "so_sock s' k = ?f\<lparr>sk_data := c\<rparr>" "so_sock s' j = so_sock s j" for b
        using ne by (simp_all add: s2 sig_bits)
      show "sig_tx k j s'" if t: "sig_tx k j s" using t c unfolding sig_tx_def e T by auto
    qed (use c p in \<open>auto simp: T C\<close>)
  next
    assume p: "pd_peer s k = None \<and> pd_peer s j = None"
    have "Socket_Read False (\<lambda>_. True) len k s = (ZX_OK, o0, m, ?s2)"
      using ne0 ok(2) cr p st0 by (simp add: Socket_Read_def Let_def C_def split del: if_split)
    with r have s2: "s' = ?s2" by simp
    have "sig_rx k s'" by (rule rx) (simp_all add: s2 sig_bits)
    then have "sock_dir k j s'" using d(1) p c by (simp add: sock_dir_def s2 sig_bits C)
    moreover have "sock_dir j k s'" using d(2) ne p by (simp add: sock_dir_def sig_rx_def s2)
    ultimately show ?thesis using p by (simp add: sock_pair_def s2)
  qed
qed (use pr in simp)

text \<open>The updates that leave the chains alone.\<close>

lemma Shutdown_effect:
  assumes r: "Socket_Shutdown how k s = (st, s')" and p: "pd_peer s k = None \<or> pd_peer s k = Some j" and ne: "k \<noteq> j"
  obtains "s' = s"
  | rd wr where "pd_peer s' = pd_peer s"
    "\<And>i. so_sock s' i = (so_sock s i)\<lparr>sk_read_disabled := sk_read_disabled (so_sock s i) \<or> i = k \<and> rd \<or> i = j \<and> pd_peer s k = Some j \<and> wr\<rparr>"
    "\<And>b. bit (sig_of k s') b \<longleftrightarrow> bit (sig_of k s) b \<and> \<not> (wr \<and> b = 1) \<or> rd \<and> b = 4 \<or> wr \<and> b = 5"
    "\<And>b. bit (sig_of j s') b \<longleftrightarrow> bit (sig_of j s) b \<and> \<not> (pd_peer s k = Some j \<and> rd \<and> b = 1)
        \<or> pd_peer s k = Some j \<and> (rd \<and> b = 5 \<or> wr \<and> b = 4)"
proof (cases "s' = s")
  case False
  define rd wr where "rd \<longleftrightarrow> how AND ZX_SOCKET_SHUTDOWN_READ \<noteq> 0" and "wr \<longleftrightarrow> how AND ZX_SOCKET_SHUTDOWN_WRITE \<noteq> 0"
  define s1 where "s1 = update_state k (if wr then ZX_SOCKET_WRITABLE else 0)
      ((if rd then ZX_SOCKET_PEER_WRITE_DISABLED else 0) OR (if wr then ZX_SOCKET_WRITE_DISABLED else 0))
      (if rd then upd_sock k (\<lambda>f. f\<lparr>sk_read_disabled := True\<rparr>) s else s)"
  have s': "s' = (case pd_peer s1 k of Some pk \<Rightarrow> snd (ShutdownOtherLocked how pk s1) | None \<Rightarrow> s1)"
    using r False unfolding Socket_Shutdown_def Let_def rd_def [symmetric] wr_def [symmetric] s1_def
    by (auto split: if_splits option.splits)
  have sel: "pd_peer s1 = pd_peer s" "so_sock s1 i = (so_sock s i)\<lparr>sk_read_disabled := sk_read_disabled (so_sock s i) \<or> i = k \<and> rd\<rparr>"
    "bit (sig_of k s1) b \<longleftrightarrow> bit (sig_of k s) b \<and> \<not> (wr \<and> b = 1) \<or> rd \<and> b = 4 \<or> wr \<and> b = 5"
    "sig_of j s1 = sig_of j s" for i b
    using ne by (simp_all add: s1_def sig_bits)
  show thesis
  proof (cases "pd_peer s k")
    case None
    then have "s' = s1" by (simp add: s' sel)
    then show thesis using that(2) [of rd wr] None sel by simp
  next
    case (Some pk)
    then have pk: "pk = j" using p by simp
    have "s' = update_state j (if rd then ZX_SOCKET_WRITABLE else 0)
        ((if rd then ZX_SOCKET_WRITE_DISABLED else 0) OR (if wr then ZX_SOCKET_PEER_WRITE_DISABLED else 0))
        (if wr then upd_sock j (\<lambda>f. f\<lparr>sk_read_disabled := True\<rparr>) s1 else s1)"
      using s' Some unfolding sel(1) pk ShutdownOtherLocked_def Let_def rd_def [symmetric] wr_def [symmetric] by simp
    then show thesis using that(2) [of rd wr] Some pk ne sel by (simp add: sig_bits)
  qed
qed (use that in simp)

lemma sock_pair_shutdown:
  assumes pr: "sock_pair k j s" and ne: "k \<noteq> j" and r: "Socket_Shutdown how k s = (st, s')"
  shows "sock_pair k j s'"
proof -
  have p: "pd_peer s k = None \<or> pd_peer s k = Some j" using sock_pair_peers [OF pr] by auto
  have d: "sock_dir k j s" "sock_dir j k s" using pr by (simp_all add: sock_pair_def)
  from r p ne show ?thesis
  proof (cases rule: Shutdown_effect)
    case (2 rd wr)
    have "sig_rx k s'" "sig_rx j s'" using d ne by (auto simp: sock_dir_def sig_rx_def 2)
    moreover have "pd_peer s k = Some j \<Longrightarrow> sig_tx k j s' \<and> sig_tx j k s'"
      using d ne sock_pair_peers [OF pr] unfolding sock_dir_def sig_tx_def 2(2-4) by auto
    ultimately have "sock_dir k j s'" "sock_dir j k s'"
      using d ne sock_pair_peers [OF pr] unfolding sock_dir_def 2(1,3,4) by (auto simp: 2(2))
    then show ?thesis using pr 2(1) by (simp add: sock_pair_def)
  qed (use pr in simp)
qed

lemma sock_pair_read_threshold:
  assumes pr: "sock_pair k j s" and ne: "k \<noteq> j" and r: "Socket_SetReadThreshold m k s = (st, s')"
  shows "sock_pair k j s'"
proof (cases "m > mbuf_kSizeMax")
  case False
  have d: "sock_dir k j s" "sock_dir j k s" using pr by (simp_all add: sock_pair_def)
  define P where "P \<longleftrightarrow> 0 < m \<and> m \<le> mc_size (sk_data (so_sock s k))"
  have s': "s' = (if P then update_state k 0 ZX_SOCKET_READ_THRESHOLD (upd_sock k (\<lambda>f. f\<lparr>sk_read_threshold := m\<rparr>) s)
      else update_state k ZX_SOCKET_READ_THRESHOLD 0 (upd_sock k (\<lambda>f. f\<lparr>sk_read_threshold := m\<rparr>) s))"
    using r False by (auto simp: Socket_SetReadThreshold_def Let_def P_def split: if_splits)
  have e: "so_sock s' i = (if i = k then (so_sock s k)\<lparr>sk_read_threshold := m\<rparr> else so_sock s i)" "pd_peer s' = pd_peer s"
    "bit (sig_of i s') b \<longleftrightarrow> (if i = k \<and> b = 10 then P else bit (sig_of i s) b)" for i b
    by (auto simp: s' sig_bits)
  have "sig_rx k s'" "sig_rx j s'" using d ne by (auto simp: sock_dir_def sig_rx_def e P_def)
  moreover have "sig_tx k j s' = sig_tx k j s" "sig_tx j k s' = sig_tx j k s" by (simp_all add: sig_tx_def e)
  ultimately show ?thesis using d pr ne by (simp add: sock_pair_def sock_dir_def e)
qed (use pr r in \<open>simp add: Socket_SetReadThreshold_def\<close>)

lemma sock_pair_write_threshold:
  assumes pr: "sock_pair k j s" and ne: "k \<noteq> j" and r: "Socket_SetWriteThreshold m k s = (st, s')"
  shows "sock_pair k j s'"
proof (cases "pd_peer s k = Some j \<and> m \<le> mbuf_kSizeMax")
  case True
  define P where "P \<longleftrightarrow> 0 < m \<and> m \<le> mbuf_kSizeMax - mc_size (sk_data (so_sock s j))"
  have s': "s' = (if P then update_state k 0 ZX_SOCKET_WRITE_THRESHOLD (upd_sock k (\<lambda>f. f\<lparr>sk_write_threshold := m\<rparr>) s)
      else update_state k ZX_SOCKET_WRITE_THRESHOLD 0 (upd_sock k (\<lambda>f. f\<lparr>sk_write_threshold := m\<rparr>) s))"
    using r True by (auto simp: Socket_SetWriteThreshold_def Let_def P_def split: if_splits)
  have e: "so_sock s' i = (if i = k then (so_sock s k)\<lparr>sk_write_threshold := m\<rparr> else so_sock s i)" "pd_peer s' = pd_peer s"
    "bit (sig_of i s') b \<longleftrightarrow> (if i = k \<and> b = 11 then P else bit (sig_of i s) b)" for i b
    by (auto simp: s' sig_bits)
  have d: "sock_dir k j s" "sock_dir j k s" using pr by (simp_all add: sock_pair_def)
  have p: "pd_peer s j = Some k" using True sock_pair_peers [OF pr] by auto
  have "sig_rx k s' = sig_rx k s" "sig_rx j s' = sig_rx j s" by (simp_all add: sig_rx_def e)
  moreover have "sig_tx k j s'" using d True ne by (auto simp: sock_dir_def sig_tx_def e)
  moreover have "sig_tx j k s'" using d p ne by (auto simp: sock_dir_def sig_tx_def e P_def)
  ultimately show ?thesis using d pr ne True p by (simp add: sock_pair_def sock_dir_def e)
next
  case False
  then have "s' = s" using r sock_pair_peers [OF pr] by (auto simp: Socket_SetWriteThreshold_def split: if_splits)
  then show ?thesis using pr by simp
qed

lemma so_sock_close [simp]: "so_sock (Socket_close k s) = so_sock s"
  by (simp add: peered_on_zero_handles_def Let_def Socket_on_zero_handles_locked_def Socket_OnPeerZeroHandlesLocked_def
      split: option.split)

lemma sock_pair_close:
  assumes pr: "sock_pair k j s" and ne: "k \<noteq> j"
  shows "sock_pair k j (Socket_close k s)"
proof -
  have p: "pd_peer s k = None \<and> pd_peer s j = None \<or> pd_peer s k = Some j \<and> pd_peer s j = Some k"
    by (rule sock_pair_peers [OF pr])
  have b: "bit (sig_of i (Socket_close k s)) b =
      (if pd_peer s k = Some j \<and> i = j \<and> b = 1 then False else if pd_peer s k = Some j \<and> i = j \<and> b = 2 then True
       else bit (sig_of i s) b)" for i b
    using p ne by (auto simp: peered_on_zero_handles_def Let_def Socket_on_zero_handles_locked_def
        Socket_OnPeerZeroHandlesLocked_def sig_bits split: option.split)
  have q: "pd_peer (Socket_close k s) k = None" "pd_peer (Socket_close k s) j = None"
    using p by (auto simp: socket_class.close_peers split: option.split)
  show ?thesis using pr ne p unfolding sock_pair_def sock_dir_def sig_rx_def sig_tx_def b by (auto simp: q)
qed

lemma user_signal_bit:
  assumes "peered_user_signal_self 0 k c t s = (st, s') \<or> peered_user_signal_peer 0 k c t s = (st, s')" "b < 24"
  shows "pd_peer s' = pd_peer s \<and> so_sock s' = so_sock s \<and> bit (sig_of i s') b = bit (sig_of i s) b"
proof -
  have "m AND NOT ZX_USER_SIGNAL_ALL = 0 \<Longrightarrow> \<not> bit m b" for m :: zx_signals
    using allowed_mask_bits [of m ZX_USER_SIGNAL_ALL b] user_signal_bits [of b] assms(2) by auto
  then show ?thesis using assms(1)
    by (auto simp: peered_user_signal_self_def peered_user_signal_peer_def Let_def sig_bits split: if_splits option.splits)
qed

lemma sock_pair_cong:
  assumes "sock_pair k j s" "pd_peer s' = pd_peer s" "so_sock s' = so_sock s"
    "\<And>i b. b < 24 \<Longrightarrow> bit (sig_of i s') b = bit (sig_of i s) b"
  shows "sock_pair k j s'"
proof -
  have "sig_rx i s' = sig_rx i s" "sig_tx i l s' = sig_tx i l s" for i l
    by (simp_all only: sig_rx_def sig_tx_def assms(3) assms(4))
  moreover have "bit (sig_of i s') 2 = bit (sig_of i s) 2" "bit (sig_of i s') 1 = bit (sig_of i s) 1" for i
    by (simp_all only: assms(4))
  ultimately have "sock_dir i l s' = sock_dir i l s" for i l by (simp only: sock_dir_def assms(2,3))
  then show ?thesis using assms(1) by (simp only: sock_pair_def assms(2))
qed

lemma sock_pair_step:
  assumes "socket_step k0 k1 s s'" "sock_pair k0 k1 s" "k0 \<noteq> k1" shows "sock_pair k0 k1 s'"
  using assms
proof (induction rule: socket_step.induct)
  case (so_write k src len alloc s st n s')
  then show ?case using sock_pair_write [of k0 k1] sock_pair_write [of k1 k0] sock_pair_sym by blast
next
  case (so_read k len s st out n s')
  then show ?case using sock_pair_read [of k0 k1] sock_pair_read [of k1 k0] sock_pair_sym by blast
next
  case (so_peek k dst len s st out n s')
  then have "s' = s" by (auto simp: Socket_Read_def Let_def split: if_splits prod.splits)
  then show ?case using so_peek by simp
next
  case (so_shutdown k how s st s')
  then show ?case using sock_pair_shutdown [of k0 k1] sock_pair_shutdown [of k1 k0] sock_pair_sym by blast
next
  case (so_read_threshold k m s st s')
  then show ?case using sock_pair_read_threshold [of k0 k1] sock_pair_read_threshold [of k1 k0] sock_pair_sym by blast
next
  case (so_write_threshold k m s st s')
  then show ?case using sock_pair_write_threshold [of k0 k1] sock_pair_write_threshold [of k1 k0] sock_pair_sym by blast
next
  case (so_close k s)
  then show ?case using sock_pair_close [of k0 k1] sock_pair_close [of k1 k0] sock_pair_sym by blast
next
  case (so_signal k c t s st s')
  then have "pd_peer s' = pd_peer s \<and> so_sock s' = so_sock s \<and> bit (sig_of i s') b = bit (sig_of i s) b" if "b < 24" for i b
    using user_signal_bit [of k c t s st s' b i] that by blast
  from this [of 0] this show ?case by (intro sock_pair_cong [OF so_signal.prems(1)]) simp_all
next
  case (so_signal_peer k c t s st s')
  then have "pd_peer s' = pd_peer s \<and> so_sock s' = so_sock s \<and> bit (sig_of i s') b = bit (sig_of i s) b" if "b < 24" for i b
    using user_signal_bit [of k c t s st s' b i] that by blast
  from this [of 0] this show ?case by (intro sock_pair_cong [OF so_signal_peer.prems(1)]) simp_all
next
  case (so_other w s)
  then show ?case by (intro sock_pair_cong [of k0 k1 s "s\<lparr>pd_ko := w\<rparr>"]) simp_all
qed

lemma sock_pair_create:
  assumes "Socket_Create ok flags k0 k1 s0 = (ZX_OK, s)" "k0 \<noteq> k1" "flags AND ZX_SOCKET_DATAGRAM = 0"
  shows "sock_pair k0 k1 s"
proof -
  have s: "s = init_pair ZX_SOCKET_WRITABLE k0 k1 (s0\<lparr>so_sock := (so_sock s0)(k0 := sock_ctor flags, k1 := sock_ctor flags)\<rparr>)"
    using assms(1) by (auto simp: Socket_Create_def split: if_splits)
  have "so_sock s = (so_sock s0)(k0 := sock_ctor flags, k1 := sock_ctor flags)" by (simp add: s init_pair_def)
  then have k: "so_sock s k0 = sock_ctor flags" "so_sock s k1 = sock_ctor flags" using assms(2) by simp_all
  have "sock_dir k0 k1 s" "sock_dir k1 k0 s" unfolding sock_dir_def sig_rx_def sig_tx_def k
    using assms(2,3) mbuf_chain_init_ok
    by (simp_all add: s sock_ctor_def sig_bits) (simp_all add: mbuf_chain_init_def mbuf_kSizeMax_def kPayloadSize_def)
  then show ?thesis using assms(2) by (simp add: sock_pair_def s)
qed


text \<open>A write to a stream socket returns.\<close>

lemma Socket_Write_returns:
  assumes "sock_pair k j s" shows "\<exists>r. Socket_Write alloc src len j s = Some r"
proof -
  have ok: "mbuf_ok (sk_data (so_sock s k))" "\<not> sk_datagram (so_sock s k)" using assms by (auto simp: sock_pair_def sock_dir_def)
  obtain st n c where "chain_write False alloc src len (sk_data (so_sock s k)) = Some (st, n, c)"
    using WriteStream_spec [OF ok(1), of alloc src len] by (auto simp: chain_write_def)
  then have "\<exists>r. Socket_WriteSelfLocked alloc src len k s = Some r"
    using ok(2) by (simp add: Socket_WriteSelfLocked_def Let_def split: option.split)
  then show ?thesis using sock_pair_peers [OF assms] by (auto simp: Socket_Write_def)
qed

section \<open>Where the signals are wrong\<close>

text \<open>
  Property C29: writing can be shut down and signalled as possible at once. When an endpoint has shut
  down its writes while the peer's chain is full, the next read at the peer sets the writable signal
  again that the shutdown had cleared: the endpoint then shows both signals, and every write to it
  fails with \<^verbatim>\<open>ZX_ERR_BAD_STATE\<close>.
\<close>

theorem socket_writable_after_shutdown:
  assumes "pd_peer s k = Some j" "pd_peer s j = Some k" "k \<noteq> j"
    and "mbuf_ok (sk_data (so_sock s k))" "\<not> sk_datagram (so_sock s k)"
    and "mbuf_is_full (sk_data (so_sock s k))" "sig_of j s AND ZX_SOCKET_WRITE_DISABLED \<noteq> 0" "0 < len" "len < 2 ^ 32"
  shows "let (st, out, n, s') = Socket_Read False (\<lambda>_. True) len k s in
     st = ZX_OK \<and> sig_of j s' AND ZX_SOCKET_WRITABLE \<noteq> 0 \<and> sig_of j s' AND ZX_SOCKET_WRITE_DISABLED \<noteq> 0
     \<and> Socket_Write alloc src l j s' = Some (ZX_ERR_BAD_STATE, 0, s')"
proof -
  let ?f = "so_sock s k"
  obtain st0 o0 m c where cr: "mbuf_Read (\<lambda>_. True) len False (sk_data ?f) = (st0, o0, m, c)" by (metis prod_cases4)
  have ne: "\<not> mbuf_is_empty (sk_data ?f)"
    using assms(6) by (simp add: mbuf_is_full_def mbuf_is_empty_def mbuf_kSizeMax_def kPayloadSize_def)
  then have m: "st0 = ZX_OK" "0 < m" using chain_read_stream [OF assms(4) cr] assms(8) by (auto simp: mbuf_is_empty_def)
  obtain C T where r: "Socket_Read False (\<lambda>_. True) len k s =
      (ZX_OK, o0, m, update_if j 0 (T OR ZX_SOCKET_WRITABLE) (update_if k C 0 (upd_sock k (\<lambda>f. f\<lparr>sk_data := c\<rparr>) s)))"
    using assms(1,5,6,9) ne cr m by (simp add: Socket_Read_def Let_def split del: if_split)
  show ?thesis using assms(2,3,7) unfolding r by (simp add: Socket_Write_def sig_bits)
qed

text \<open>A pair in such a state: 128 full buffers wait at the endpoint 1, and 2 has shut down its writes.\<close>

definition full_chain :: "nat \<Rightarrow> mbuf_chain" where
  "full_chain n = \<lparr>mc_freelist = [],
     mc_tail = map (\<lambda>i. \<lparr>mb_id = i, mb_off = 0, mb_len = kPayloadSize, mb_pkt_len = 0, mb_data = (\<lambda>_. 0)\<rparr>) [0..<n],
     mc_head = Some (n - 1), mc_size = n * kPayloadSize, mc_next_id = n\<rparr>"

lemma full_chain_ok:
  assumes "0 < n" "n \<le> 128" shows "mbuf_ok (full_chain n)"
proof -
  have "n * kPayloadSize \<le> mbuf_kSizeMax" using assms(2) by (simp add: mbuf_kSizeMax_def)
  then show ?thesis using assms(1)
    by (auto simp: mbuf_ok_def full_chain_def comp_def distinct_map inj_on_def map_replicate_const sum_list_replicate last_map last_upt)
qed

definition socket_example :: socket_sys where
  "socket_example = \<lparr>pd_ko = kobj_example\<lparr>kw_objs := (\<lambda>_. new_dispatcher ZX_SOCKET_WRITE_DISABLED)\<rparr>,
     pd_peer = [1 \<mapsto> 2, 2 \<mapsto> 1], so_sock = (\<lambda>_. (sock_ctor 0)\<lparr>sk_data := full_chain 128\<rparr>)\<rparr>"

theorem socket_writable_after_shutdown_witness:
  "let (st, out, n, s') = Socket_Read False (\<lambda>_. True) 5 1 socket_example in
     st = ZX_OK \<and> sig_of 2 s' AND ZX_SOCKET_WRITABLE \<noteq> 0 \<and> sig_of 2 s' AND ZX_SOCKET_WRITE_DISABLED \<noteq> 0
     \<and> Socket_Write (\<lambda>_. True) (\<lambda>_. Some 0) 3 2 s' = Some (ZX_ERR_BAD_STATE, 0, s')"
proof -
  have "mbuf_is_full (full_chain 128)" "ZX_SOCKET_WRITE_DISABLED \<noteq> 0"
    by (simp_all add: mbuf_is_full_def full_chain_def mbuf_kSizeMax_def zx_defs)
  then show ?thesis by (intro socket_writable_after_shutdown)
      (simp_all add: socket_example_def sock_ctor_def full_chain_ok new_dispatcher_def)
qed

text \<open>A write of 2009 bytes of which only the first 2008 can be read, and one more byte after it.\<close>

definition two_bufs :: "(nat \<Rightarrow> u8) \<Rightarrow> mbuf_chain" where
  "two_bufs d = \<lparr>mc_freelist = [],
     mc_tail = [\<lparr>mb_id = 0, mb_off = 0, mb_len = 2008, mb_pkt_len = 0, mb_data = d\<rparr>,
                \<lparr>mb_id = 1, mb_off = 0, mb_len = 0, mb_pkt_len = 0, mb_data = (\<lambda>_. 0)\<rparr>],
     mc_head = Some 1, mc_size = 2008, mc_next_id = 2\<rparr>"

lemmas mbuf_eval = AllocMBuf_def chain_append_def write_room_def head_buf_def upd_head_def mbuf_rem_def kPayloadSize_def
  mbuf_kSizeMax_def

lemma partial_copy:
  assumes "\<And>i. i < n \<Longrightarrow> src i = Some 7" shows "copy_array_from_user src 0 n = Some (replicate n 7)"
  using assms by (auto simp: copy_array_from_user_def list_all_iff intro: nth_equalityI)

lemma fault_write:
  "\<exists>d. WriteStream (\<lambda>_. True) (\<lambda>i. if i < 2008 then Some 7 else None) 2009 mbuf_chain_init
     = Some (ZX_ERR_INVALID_ARGS, 0, two_bufs d)"
proof -
  let ?src = "\<lambda>i. if i < 2008 then Some (7 :: u8) else None"
  have 1: "copy_array_from_user ?src 0 2008 = Some (replicate 2008 7)" by (rule partial_copy) simp
  have 2: "copy_array_from_user ?src 2008 (Suc 0) = None" by (simp add: copy_array_from_user_def)
  show ?thesis
    by (subst WriteStream_def, subst write_stream_loop.simps, subst write_stream_loop.simps)
      (simp add: mbuf_chain_init_def mbuf_eval two_bufs_def Let_def 1 2)
qed

lemma good_write:
  "\<exists>c. WriteStream (\<lambda>_. True) (\<lambda>_. Some 7) 1 (two_bufs d) = Some (ZX_OK, 1, c) \<and> mc_size c = 2009"
proof -
  have 1: "copy_array_from_user (\<lambda>_. Some 7) 0 (Suc 0) = Some [7]" by (simp add: copy_array_from_user_def)
  show ?thesis
    by (subst WriteStream_def, subst write_stream_loop.simps, subst write_stream_loop.simps)
      (simp add: mbuf_eval two_bufs_def Let_def 1)
qed



end
