(* ===== verification/Channel.thy ===== *)
theory Channel
  imports Peered
begin

text \<open>
  Channels (\<^verbatim>\<open>object/channel_dispatcher.cc\<close>): pairs of message queues with the call protocol, in which a
  thread writes a message and waits for the one that carries the same transaction id. A thread has
  one \<^verbatim>\<open>MessageWaiter\<close>; a call is split where the thread sleeps on the event of its waiter, into the
  part up to the wait, the wait itself (a wait on an event of \<open>Kernel_Event\<close>) and the part that ends
  the call. Messages carry their bytes and the handles they transfer.
\<close>

section \<open>State\<close>

abbreviation "ZX_CHANNEL_READABLE \<equiv> ZX_OBJECT_READABLE"
abbreviation "ZX_CHANNEL_WRITABLE \<equiv> ZX_OBJECT_WRITABLE"
abbreviation "ZX_CHANNEL_PEER_CLOSED \<equiv> ZX_OBJECT_PEER_CLOSED"

record message_packet =
  mp_data :: "u8 list"
  mp_handles :: "handle_id list"

record message_waiter =
  mw_channel :: "koid option"
  mw_msg :: "message_packet option"
  mw_event :: nat
  mw_txid :: u32
  mw_status :: zx_status

record channel =
  ch_messages :: "message_packet list"
  ch_message_count :: nat
  ch_max_message_count :: nat
  ch_owner :: koid
  ch_txid :: u32
  ch_waiters :: "tid list"

text \<open>\<open>cs_killed\<close> records the threads whose process was killed for breaking the call protocol.\<close>

record channel_sys = peered_sys +
  cs_chan :: "koid \<Rightarrow> channel"
  cs_waiter :: "tid \<Rightarrow> message_waiter"
  cs_killed :: "tid set"

definition upd_chan :: "koid \<Rightarrow> (channel \<Rightarrow> channel) \<Rightarrow> channel_sys \<Rightarrow> channel_sys" where
  "upd_chan k f s = s\<lparr>cs_chan := (cs_chan s)(k := f (cs_chan s k))\<rparr>"

definition upd_waiter :: "tid \<Rightarrow> (message_waiter \<Rightarrow> message_waiter) \<Rightarrow> channel_sys \<Rightarrow> channel_sys" where
  "upd_waiter t f s = s\<lparr>cs_waiter := (cs_waiter s)(t := f (cs_waiter s t))\<rparr>"

definition upd_kobj :: "(kobj_world \<Rightarrow> kobj_world) \<Rightarrow> channel_sys \<Rightarrow> channel_sys" where
  "upd_kobj f s = s\<lparr>pd_ko := f (pd_ko s)\<rparr>"

section \<open>Transaction ids\<close>

text \<open>The first four bytes of a message, least significant first.\<close>

definition get_txid :: "message_packet \<Rightarrow> u32" where
  "get_txid m =
     (if length (mp_data m) < 4 then 0
      else ucast (mp_data m ! 0) OR push_bit 8 (ucast (mp_data m ! 1)) OR push_bit 16 (ucast (mp_data m ! 2))
           OR push_bit 24 (ucast (mp_data m ! 3)))"

definition set_txid :: "u32 \<Rightarrow> message_packet \<Rightarrow> message_packet" where
  "set_txid txid m =
     (if length (mp_data m) \<ge> 4
      then m\<lparr>mp_data := [ucast txid, ucast (drop_bit 8 txid), ucast (drop_bit 16 txid), ucast (drop_bit 24 txid)]
                        @ drop 4 (mp_data m)\<rparr>
      else m)"

text \<open>The counter is bumped until the id with the high bit set is not one a waiter uses.\<close>

partial_function (option) alloc_txid :: "u32 list \<Rightarrow> u32 \<Rightarrow> (u32 \<times> u32) option" where
  "alloc_txid used counter =
     (let counter1 = counter + 1; txid = counter1 OR 0x80000000
      in if txid \<in> set used then alloc_txid used counter1 else Some (txid, counter1))"

section \<open>Waiters\<close>

definition BeginWait :: "koid \<Rightarrow> tid \<Rightarrow> channel_sys \<Rightarrow> zx_status \<times> channel_sys" where
  "BeginWait k t s =
     (if mw_channel (cs_waiter s t) \<noteq> None then (ZX_ERR_BAD_STATE, s)
      else
        (let e = mw_event (cs_waiter s t);
             s1 = upd_waiter t (\<lambda>mw. mw\<lparr>mw_status := ZX_ERR_TIMED_OUT, mw_channel := Some k\<rparr>) s
         in (ZX_OK, upd_kobj (\<lambda>w. w\<lparr>kw_events := (kw_events w)(e := event_unsignal (kw_events w e))\<rparr>) s1)))"

definition Deliver :: "message_packet \<Rightarrow> tid \<Rightarrow> channel_sys \<Rightarrow> channel_sys" where
  "Deliver msg t s =
     upd_kobj (event_Signal (mw_event (cs_waiter s t)) ZX_OK)
       (upd_waiter t (\<lambda>mw. mw\<lparr>mw_msg := Some msg, mw_status := ZX_OK\<rparr>) s)"

definition Waiter_Cancel :: "zx_status \<Rightarrow> tid \<Rightarrow> channel_sys \<Rightarrow> channel_sys" where
  "Waiter_Cancel status t s =
     upd_kobj (event_Signal (mw_event (cs_waiter s t)) status) (upd_waiter t (\<lambda>mw. mw\<lparr>mw_status := status\<rparr>) s)"

text \<open>The wait of the thread on its own event; \<open>None\<close> is a thread that went to sleep.\<close>

definition Waiter_Wait :: "tid \<Rightarrow> int \<Rightarrow> int \<Rightarrow> channel_sys \<Rightarrow> zx_status option \<times> channel_sys" where
  "Waiter_Wait t deadline now s =
     (if mw_channel (cs_waiter s t) = None then (Some ZX_ERR_BAD_STATE, s)
      else
        (let e = mw_event (cs_waiter s t);
             (r, ev, sw) = event_wait_worker t deadline now True 0 (kw_events (pd_ko s) e) (kw_sched (pd_ko s))
         in (r, upd_kobj (\<lambda>w. w\<lparr>kw_events := (kw_events w)(e := ev), kw_sched := sw\<rparr>) s)))"

definition EndWait :: "tid \<Rightarrow> channel_sys \<Rightarrow> (zx_status \<times> message_packet option) \<times> channel_sys" where
  "EndWait t s =
     (if mw_channel (cs_waiter s t) = None then ((ZX_ERR_BAD_STATE, None), s)
      else ((mw_status (cs_waiter s t), mw_msg (cs_waiter s t)),
            upd_waiter t (\<lambda>mw. mw\<lparr>mw_msg := None, mw_channel := None\<rparr>) s))"

section \<open>Operations\<close>

definition channel_ctor :: channel where
  "channel_ctor = \<lparr>ch_messages = [], ch_message_count = 0, ch_max_message_count = 0, ch_owner = 0, ch_txid = 0, ch_waiters = []\<rparr>"

definition Channel_Create :: "bool \<Rightarrow> koid \<Rightarrow> koid \<Rightarrow> channel_sys \<Rightarrow> zx_status \<times> channel_sys" where
  "Channel_Create alloc_ok k0 k1 s =
     (if \<not> alloc_ok then (ZX_ERR_NO_MEMORY, s)
      else (ZX_OK, init_pair ZX_CHANNEL_WRITABLE k0 k1
                     (s\<lparr>cs_chan := (cs_chan s)(k0 := channel_ctor, k1 := channel_ctor)\<rparr>)))"

definition RemoveWaiter :: "koid \<Rightarrow> tid \<Rightarrow> channel_sys \<Rightarrow> channel_sys" where
  "RemoveWaiter k t = upd_chan k (\<lambda>c. c\<lparr>ch_waiters := remove1 t (ch_waiters c)\<rparr>)"

definition Channel_AddObserver :: "koid \<Rightarrow> obs_ref \<Rightarrow> channel_sys \<Rightarrow> channel_sys" where
  "Channel_AddObserver k r s =
     upd_kobj (AddObserverHelper k r (Some [(ch_message_count (cs_chan s k), ZX_CHANNEL_READABLE)])) s"

text \<open>Both ways a channel ends empty the list of waiters from the front.\<close>

fun cancel_waiters :: "zx_status \<Rightarrow> koid \<Rightarrow> tid list \<Rightarrow> channel_sys \<Rightarrow> channel_sys" where
  "cancel_waiters status k [] s = s"
| "cancel_waiters status k (t # ts) s =
     cancel_waiters status k ts (Waiter_Cancel status t (upd_chan k (\<lambda>c. c\<lparr>ch_waiters := ts\<rparr>) s))"

definition Channel_on_zero_handles_locked :: "koid \<Rightarrow> channel_sys \<Rightarrow> channel_sys" where
  "Channel_on_zero_handles_locked k s = cancel_waiters ZX_ERR_CANCELED k (ch_waiters (cs_chan s k)) s"

definition Channel_OnPeerZeroHandlesLocked :: "koid \<Rightarrow> channel_sys \<Rightarrow> channel_sys" where
  "Channel_OnPeerZeroHandlesLocked k s =
     (let s1 = update_state k ZX_CHANNEL_WRITABLE ZX_CHANNEL_PEER_CLOSED s
      in cancel_waiters ZX_ERR_PEER_CLOSED k (ch_waiters (cs_chan s1 k)) s1)"

abbreviation "Channel_close \<equiv> peered_on_zero_handles Channel_on_zero_handles_locked Channel_OnPeerZeroHandlesLocked"

definition set_owner :: "koid \<Rightarrow> koid \<Rightarrow> channel_sys \<Rightarrow> channel_sys" where
  "set_owner new_owner k s = (if new_owner = 0 then s else upd_chan k (\<lambda>c. c\<lparr>ch_owner := new_owner\<rparr>) s)"

text \<open>The sizes of the first message are returned also when it does not fit.\<close>

definition Channel_Read ::
    "koid \<Rightarrow> nat \<Rightarrow> nat \<Rightarrow> bool \<Rightarrow> koid \<Rightarrow> channel_sys \<Rightarrow>
     (zx_status \<times> (nat \<times> nat) option \<times> message_packet option) \<times> channel_sys" where
  "Channel_Read owner max_size max_handle_count may_discard k s =
     (let c = cs_chan s k in
      if owner \<noteq> ch_owner c then ((ZX_ERR_BAD_HANDLE, None, None), s)
      else case ch_messages c of
        [] \<Rightarrow> ((if pd_peer s k \<noteq> None then ZX_ERR_SHOULD_WAIT else ZX_ERR_PEER_CLOSED, None, None), s)
      | m # ms \<Rightarrow>
          (let msg_size = length (mp_data m); msg_handle_count = length (mp_handles m);
               small = msg_size > max_size \<or> msg_handle_count > max_handle_count
           in if small \<and> \<not> may_discard then ((ZX_ERR_BUFFER_TOO_SMALL, Some (msg_size, msg_handle_count), None), s)
              else
                (let s1 = upd_chan k (\<lambda>c. c\<lparr>ch_messages := ms, ch_message_count := ch_message_count c - 1\<rparr>) s
                 in ((if small then ZX_ERR_BUFFER_TOO_SMALL else ZX_OK, Some (msg_size, msg_handle_count), Some m),
                     if ms = [] then update_state k ZX_CHANNEL_READABLE 0 s1 else s1))))"

definition Channel_WriteSelf :: "message_packet \<Rightarrow> koid \<Rightarrow> channel_sys \<Rightarrow> channel_sys" where
  "Channel_WriteSelf msg k s =
     (case find (\<lambda>t. mw_txid (cs_waiter s t) = get_txid msg) (ch_waiters (cs_chan s k)) of
        Some t \<Rightarrow> Deliver msg t (upd_chan k (\<lambda>c. c\<lparr>ch_waiters := remove1 t (ch_waiters c)\<rparr>) s)
      | None \<Rightarrow>
          update_state k 0 ZX_CHANNEL_READABLE
            (upd_chan k (\<lambda>c. c\<lparr>ch_messages := ch_messages c @ [msg], ch_message_count := ch_message_count c + 1,
                               ch_max_message_count := max (ch_max_message_count c) (ch_message_count c + 1)\<rparr>) s))"

definition Channel_Write :: "koid \<Rightarrow> message_packet \<Rightarrow> koid \<Rightarrow> channel_sys \<Rightarrow> zx_status \<times> channel_sys" where
  "Channel_Write owner msg k s =
     (if owner \<noteq> ch_owner (cs_chan s k) then (ZX_ERR_BAD_HANDLE, s)
      else case pd_peer s k of
        None \<Rightarrow> (ZX_ERR_PEER_CLOSED, s)
      | Some pk \<Rightarrow> (ZX_OK, Channel_WriteSelf msg pk s))"

text \<open>
  The call up to its wait. The outer \<open>None\<close> is the search for an id that does not end, the inner one
  the thread that goes on to wait.
\<close>

definition Channel_Call ::
    "koid \<Rightarrow> message_packet \<Rightarrow> tid \<Rightarrow> koid \<Rightarrow> channel_sys \<Rightarrow> (zx_status option \<times> channel_sys) option" where
  "Channel_Call owner msg t k s =
     (let (res, s1) = BeginWait k t s in
      if res \<noteq> ZX_OK then Some (Some ZX_ERR_BAD_STATE, s1\<lparr>cs_killed := insert t (cs_killed s1)\<rparr>)
      else if owner \<noteq> ch_owner (cs_chan s1 k) then Some (Some ZX_ERR_BAD_HANDLE, s1)
      else case pd_peer s1 k of
        None \<Rightarrow> Some (Some ZX_ERR_PEER_CLOSED, snd (EndWait t s1))
      | Some pk \<Rightarrow>
          (case alloc_txid (map (\<lambda>u. mw_txid (cs_waiter s1 u)) (ch_waiters (cs_chan s1 k))) (ch_txid (cs_chan s1 k)) of
             None \<Rightarrow> None
           | Some (txid, counter) \<Rightarrow>
               (let s2 = upd_waiter t (\<lambda>mw. mw\<lparr>mw_txid := txid\<rparr>) s1;
                    s3 = upd_chan k (\<lambda>c. c\<lparr>ch_txid := counter, ch_waiters := ch_waiters c @ [t]\<rparr>) s2
                in Some (None, Channel_WriteSelf (set_txid txid msg) pk s3))))"

text \<open>The end of a call, with the result of the wait.\<close>

definition ResumeInterruptedCall ::
    "zx_status \<Rightarrow> tid \<Rightarrow> koid \<Rightarrow> channel_sys \<Rightarrow> (zx_status \<times> message_packet option) \<times> channel_sys" where
  "ResumeInterruptedCall wait_status t k s =
     (if wait_status = ZX_ERR_INTERNAL_INTR_RETRY then ((wait_status, None), s)
      else
        (let ((status, reply), s1) = EndWait t s
         in ((status, reply),
             if status = ZX_ERR_TIMED_OUT then upd_chan k (\<lambda>c. c\<lparr>ch_waiters := remove1 t (ch_waiters c)\<rparr>) s1 else s1)))"

section \<open>Transaction ids are found and travel\<close>

lemma get_set_txid:
  assumes "4 \<le> length (mp_data m)" shows "get_txid (set_txid x m) = x"
proof -
  have "get_txid (set_txid x m) = ucast (ucast x :: u8) OR push_bit 8 (ucast (ucast (drop_bit 8 x) :: u8))
      OR push_bit 16 (ucast (ucast (drop_bit 16 x) :: u8)) OR push_bit 24 (ucast (ucast (drop_bit 24 x) :: u8))"
    using assms by (simp add: get_txid_def set_txid_def)
  also have "\<dots> = x"
  proof (rule bit_word_eqI)
    fix n assume "n < LENGTH(32)"
    then consider "n < 8" | "8 \<le> n" "n < 16" | "16 \<le> n" "n < 24" | "24 \<le> n" "n < 32" by fastforce
    then show "bit (ucast (ucast x :: u8) OR push_bit 8 (ucast (ucast (drop_bit 8 x) :: u8))
        OR push_bit 16 (ucast (ucast (drop_bit 16 x) :: u8)) OR push_bit 24 (ucast (ucast (drop_bit 24 x) :: u8)) :: u32) n = bit x n"
      by cases (auto simp: bit_simps)
  qed
  finally show ?thesis .
qed

lemma alloc_txid_skip:
  assumes "\<And>i. i < n \<Longrightarrow> (c + 1 + word_of_nat i) OR 0x80000000 \<in> set used"
  shows "alloc_txid used c = alloc_txid used (c + word_of_nat n)"
  using assms
proof (induction n)
  case (Suc n)
  have "alloc_txid used c = alloc_txid used (c + word_of_nat n)" using Suc by simp
  also have "\<dots> = alloc_txid used (c + word_of_nat n + 1)"
    using Suc.prems [of n] by (subst alloc_txid.simps) (simp add: Let_def add_ac)
  finally show ?case by (simp add: add_ac)
qed simp

lemma txid_candidates:
  "inj_on (\<lambda>i. (c + word_of_nat i) OR (0x80000000 :: u32)) {..<2 ^ 31}"
proof (rule inj_onI)
  fix i j :: nat assume ij: "i \<in> {..<2 ^ 31}" "j \<in> {..<2 ^ 31}"
    and e: "(c + word_of_nat i) OR 0x80000000 = (c + word_of_nat j) OR (0x80000000 :: u32)"
  have h: "(0x80000000 :: u32) = push_bit 31 1" by simp
  have t: "take_bit 31 (x OR push_bit 31 1) = take_bit 31 (x :: u32)" for x
    by (rule bit_word_eqI) (auto simp: bit_simps)
  have "take_bit 31 (c + word_of_nat i) = take_bit 31 (c + word_of_nat j)"
    using arg_cong [OF e, of "take_bit 31"] unfolding h t .
  then have "unat (c + word_of_nat i) mod 2 ^ 31 = unat (c + word_of_nat j) mod 2 ^ 31"
    by (simp add: word_unat_eq_iff take_bit_eq_mod unat_mod)
  moreover have "unat (c + word_of_nat n) mod 2 ^ 31 = (unat c + n) mod 2 ^ 31" for n
    by (simp add: unat_word_ariths unat_of_nat mod_mod_cancel mod_add_right_eq)
  ultimately have "(unat c + i) mod 2 ^ 31 = (unat c + j) mod 2 ^ 31" by (simp only:)
  moreover have "x = y" if "x \<le> y" "y < 2 ^ 31" "(unat c + x) mod 2 ^ 31 = (unat c + y) mod 2 ^ 31" for x y
  proof -
    have "2 ^ 31 dvd y - x" using that mod_eq_dvd_iff_nat [of "unat c + x" "unat c + y" "2 ^ 31"] by simp
    then show ?thesis using that by (meson diff_is_0_eq' dvd_imp_le le_antisym less_imp_diff_less not_le zero_less_diff)
  qed
  ultimately show "i = j" using ij by (metis lessThan_iff linear)
qed

lemma alloc_txid_returns:
  assumes "length used < 2 ^ 31"
  shows "\<exists>txid counter. alloc_txid used c = Some (txid, counter) \<and> txid \<notin> set used \<and> bit txid 31"
proof -
  let ?f = "\<lambda>i. (c + 1 + word_of_nat i) OR (0x80000000 :: u32)"
  have "card (?f ` {..<2 ^ 31}) = 2 ^ 31" using card_image [OF txid_candidates [of "c + 1"]] by simp
  then have "\<not> ?f ` {..<2 ^ 31} \<subseteq> set used"
    using assms card_length [of used] card_mono [of "set used" "?f ` {..<2 ^ 31}"] by fastforce
  then obtain i where "?f i \<notin> set used" by blast
  define n where "n = (LEAST i. ?f i \<notin> set used)"
  have n: "?f n \<notin> set used" unfolding n_def by (rule LeastI) fact
  have "?f i \<in> set used" if "i < n" for i using not_less_Least that unfolding n_def by blast
  then have "alloc_txid used c = alloc_txid used (c + word_of_nat n)" by (rule alloc_txid_skip)
  also have "\<dots> = Some (?f n, c + 1 + word_of_nat n)"
    using n by (subst alloc_txid.simps) (simp add: Let_def add_ac)
  moreover have "bit (?f n) 31" by (simp add: bit_simps)
  ultimately show ?thesis using n by auto
qed

lemma alloc_txid_result:
  assumes "alloc_txid used c = Some r" shows "fst r \<notin> set used"
  by (rule alloc_txid.raw_induct [where P = "\<lambda>u c r. fst r \<notin> set u", OF _ assms]) (auto simp: Let_def split: if_splits)

lemma alloc_txid_fresh: "alloc_txid used c = Some (txid, counter) \<Longrightarrow> txid \<notin> set used"
  using alloc_txid_result [of used c "(txid, counter)"] by simp

section \<open>What the operations touch\<close>

lemma upd_chan_sels [simp]:
  "cs_waiter (upd_chan k f s) = cs_waiter s" "pd_peer (upd_chan k f s) = pd_peer s" "sig_of j (upd_chan k f s) = sig_of j s"
  "cs_chan (upd_chan k f s) = (cs_chan s)(k := f (cs_chan s k))"
  by (simp_all add: upd_chan_def)

lemma upd_waiter_sels [simp]:
  "cs_chan (upd_waiter t g s) = cs_chan s" "pd_peer (upd_waiter t g s) = pd_peer s" "sig_of j (upd_waiter t g s) = sig_of j s"
  "cs_waiter (upd_waiter t g s) = (cs_waiter s)(t := g (cs_waiter s t))"
  by (simp_all add: upd_waiter_def)

lemma upd_kobj_sels [simp]:
  "cs_chan (upd_kobj h s) = cs_chan s" "cs_waiter (upd_kobj h s) = cs_waiter s" "pd_peer (upd_kobj h s) = pd_peer s"
  by (simp_all add: upd_kobj_def)

lemma update_state_chan [simp]: "cs_chan (update_state k c t s) = cs_chan s" "cs_waiter (update_state k c t s) = cs_waiter s"
  by (simp_all add: update_state_def)

lemma sig_of_kobj:
  assumes "\<And>w. kw_objs (h w) = kw_objs w" shows "sig_of j (upd_kobj h s) = sig_of j s"
  by (simp add: upd_kobj_def assms)

lemma kw_objs_event_Signal [simp]: "kw_objs (event_Signal e st w) = kw_objs w"
  by (simp add: event_Signal_def split: prod.split)

lemma Deliver_sels [simp]:
  "cs_chan (Deliver m t s) = cs_chan s" "pd_peer (Deliver m t s) = pd_peer s" "sig_of j (Deliver m t s) = sig_of j s"
  "cs_waiter (Deliver m t s) = (cs_waiter s)(t := (cs_waiter s t)\<lparr>mw_msg := Some m, mw_status := ZX_OK\<rparr>)"
  by (simp_all add: Deliver_def sig_of_kobj)

lemma Cancel_sels [simp]:
  "cs_chan (Waiter_Cancel st t s) = cs_chan s" "pd_peer (Waiter_Cancel st t s) = pd_peer s" "sig_of j (Waiter_Cancel st t s) = sig_of j s"
  "cs_waiter (Waiter_Cancel st t s) = (cs_waiter s)(t := (cs_waiter s t)\<lparr>mw_status := st\<rparr>)"
  by (simp_all add: Waiter_Cancel_def sig_of_kobj)

lemma cancel_waiters_effect:
  assumes "ch_waiters (cs_chan s k) = ts"
  shows "cs_chan (cancel_waiters st k ts s) = (cs_chan s)(k := (cs_chan s k)\<lparr>ch_waiters := []\<rparr>)
    \<and> pd_peer (cancel_waiters st k ts s) = pd_peer s \<and> (\<forall>j. sig_of j (cancel_waiters st k ts s) = sig_of j s)
    \<and> (\<forall>t. cs_waiter (cancel_waiters st k ts s) t =
          (if t \<in> set ts then (cs_waiter s t)\<lparr>mw_status := st\<rparr> else cs_waiter s t))"
  using assms
proof (induction ts arbitrary: s)
  case Nil
  then show ?case by (simp add: fun_upd_idem)
next
  case (Cons t ts)
  have "ch_waiters (cs_chan (Waiter_Cancel st t (upd_chan k (\<lambda>c. c\<lparr>ch_waiters := ts\<rparr>) s)) k) = ts" by simp
  from Cons.IH [OF this] show ?case by (auto simp: fun_eq_iff)
qed

interpretation channel_class: peered_class Channel_on_zero_handles_locked Channel_OnPeerZeroHandlesLocked
  by unfold_locales
    (auto simp: Channel_on_zero_handles_locked_def Channel_OnPeerZeroHandlesLocked_def Let_def cancel_waiters_effect sig_bits)

section \<open>Invariant\<close>

text \<open>
  A waiter in a list belongs to that channel and has no result yet; the ids of the waiters of a
  channel differ; the message counter counts.
\<close>

definition chan_ok :: "channel_sys \<Rightarrow> koid \<Rightarrow> bool" where
  "chan_ok s k \<longleftrightarrow> distinct (ch_waiters (cs_chan s k))
     \<and> inj_on (\<lambda>t. mw_txid (cs_waiter s t)) (set (ch_waiters (cs_chan s k)))
     \<and> (\<forall>t\<in>set (ch_waiters (cs_chan s k)). mw_channel (cs_waiter s t) = Some k \<and> mw_status (cs_waiter s t) = ZX_ERR_TIMED_OUT)
     \<and> ch_message_count (cs_chan s k) = length (ch_messages (cs_chan s k))"

definition chan_inv :: "channel_sys \<Rightarrow> bool" where
  "chan_inv s \<longleftrightarrow> (\<forall>k. chan_ok s k)"

text \<open>A channel stays in order when it and the waiters in its list keep what matters.\<close>

lemma chan_ok_frame:
  assumes "chan_ok s k" "set (ch_waiters (cs_chan s' k)) \<subseteq> set (ch_waiters (cs_chan s k))" "distinct (ch_waiters (cs_chan s' k))"
    "ch_message_count (cs_chan s' k) = length (ch_messages (cs_chan s' k))"
    "\<And>t. t \<in> set (ch_waiters (cs_chan s' k)) \<Longrightarrow> cs_waiter s' t = cs_waiter s t"
  shows "chan_ok s' k"
proof -
  have "inj_on (\<lambda>t. mw_txid (cs_waiter s t)) (set (ch_waiters (cs_chan s' k)))"
    using assms(1,2) by (auto simp: chan_ok_def intro: inj_on_subset)
  then have "inj_on (\<lambda>t. mw_txid (cs_waiter s' t)) (set (ch_waiters (cs_chan s' k)))"
    using assms(5) by (simp add: inj_on_def)
  then show ?thesis using assms by (auto simp: chan_ok_def)
qed

lemma waiting_elsewhere:
  "chan_inv s \<Longrightarrow> t \<in> set (ch_waiters (cs_chan s k)) \<Longrightarrow> t \<in> set (ch_waiters (cs_chan s j)) \<Longrightarrow> k = j"
  by (metis chan_inv_def chan_ok_def option.inject)

text \<open>What a delivered or queued message changes: one waiter leaves the list, or one message joins the queue.\<close>

lemma WriteSelf_cases:
  assumes "chan_inv s"
  obtains (deliver) t where "t \<in> set (ch_waiters (cs_chan s k))" "mw_txid (cs_waiter s t) = get_txid m"
      "cs_chan (Channel_WriteSelf m k s) = (cs_chan s)(k := (cs_chan s k)\<lparr>ch_waiters := remove1 t (ch_waiters (cs_chan s k))\<rparr>)"
      "cs_waiter (Channel_WriteSelf m k s) = (cs_waiter s)(t := (cs_waiter s t)\<lparr>mw_msg := Some m, mw_status := ZX_OK\<rparr>)"
  | (queue) c where "\<forall>t\<in>set (ch_waiters (cs_chan s k)). mw_txid (cs_waiter s t) \<noteq> get_txid m"
      "cs_chan (Channel_WriteSelf m k s) = (cs_chan s)(k := c)" "cs_waiter (Channel_WriteSelf m k s) = cs_waiter s"
      "ch_waiters c = ch_waiters (cs_chan s k)" "ch_messages c = ch_messages (cs_chan s k) @ [m]"
      "ch_message_count c = ch_message_count (cs_chan s k) + 1"
proof (cases "find (\<lambda>t. mw_txid (cs_waiter s t) = get_txid m) (ch_waiters (cs_chan s k))")
  case None
  then have "\<forall>t\<in>set (ch_waiters (cs_chan s k)). mw_txid (cs_waiter s t) \<noteq> get_txid m" by (auto simp: find_None_iff)
  then show ?thesis
    by (rule queue [of "(cs_chan s k)\<lparr>ch_messages := ch_messages (cs_chan s k) @ [m],
          ch_message_count := ch_message_count (cs_chan s k) + 1,
          ch_max_message_count := max (ch_max_message_count (cs_chan s k)) (ch_message_count (cs_chan s k) + 1)\<rparr>"])
      (simp_all add: Channel_WriteSelf_def None)
next
  case (Some t)
  then have "t \<in> set (ch_waiters (cs_chan s k))" "mw_txid (cs_waiter s t) = get_txid m"
    by (auto simp: find_Some_iff)
  then show ?thesis by (rule deliver) (simp_all add: Channel_WriteSelf_def Some)
qed

lemma chan_inv_WriteSelf:
  assumes inv: "chan_inv s" shows "chan_inv (Channel_WriteSelf m k s)"
  unfolding chan_inv_def
proof
  fix j
  have o: "chan_ok s j" "chan_ok s k" using inv by (simp_all add: chan_inv_def)
  from inv show "chan_ok (Channel_WriteSelf m k s) j"
  proof (cases rule: WriteSelf_cases [where k = k and m = m])
    case (deliver t)
    have d: "distinct (ch_waiters (cs_chan s k))" "distinct (ch_waiters (cs_chan s j))"
      "ch_message_count (cs_chan s j) = length (ch_messages (cs_chan s j))" using o by (simp_all add: chan_ok_def)
    have "t \<notin> set (ch_waiters (cs_chan (Channel_WriteSelf m k s) j))"
      using d(1) waiting_elsewhere [OF inv deliver(1), of j] by (cases "j = k") (auto simp: deliver(3))
    then have "cs_waiter (Channel_WriteSelf m k s) u = cs_waiter s u"
      if "u \<in> set (ch_waiters (cs_chan (Channel_WriteSelf m k s) j))" for u
      using that by (auto simp: deliver(4))
    then show ?thesis using d
      by (intro chan_ok_frame [OF o(1)]) (cases "j = k"; simp add: deliver(3) set_remove1_subset)+
  next
    case (queue c)
    have "distinct (ch_waiters (cs_chan s j))" "ch_message_count (cs_chan s j) = length (ch_messages (cs_chan s j))"
      using o by (simp_all add: chan_ok_def)
    then show ?thesis by (intro chan_ok_frame [OF o(1)]) (cases "j = k"; simp add: queue(2-6))+
  qed
qed

section \<open>Runs\<close>

text \<open>
  The steps of channels in which only threads of \<open>A\<close> call and resume; anything else, also the ends
  of channels, may be done by anybody. A thread resumes on the channel its waiter belongs to.
\<close>

inductive chan_step :: "tid set \<Rightarrow> channel_sys \<Rightarrow> channel_sys \<Rightarrow> bool" for A where
  cs_write: "Channel_Write owner m k s = (st, s') \<Longrightarrow> chan_step A s s'"
| cs_read: "Channel_Read owner n h d k s = (r, s') \<Longrightarrow> chan_step A s s'"
| cs_call: "t \<in> A \<Longrightarrow> Channel_Call owner m t k s = Some (r, s') \<Longrightarrow> chan_step A s s'"
| cs_resume: "t \<in> A \<Longrightarrow> mw_channel (cs_waiter s t) = Some k \<Longrightarrow> ResumeInterruptedCall st t k s = (r, s') \<Longrightarrow> chan_step A s s'"
| cs_close: "chan_step A s (Channel_close k s)"
| cs_owner: "chan_step A s (set_owner p k s)"
| cs_other: "chan_step A s (s\<lparr>pd_ko := w\<rparr>)"

text \<open>What every step of other threads leaves alone: a thread that waits nowhere keeps its waiter.\<close>

definition not_waiting :: "tid \<Rightarrow> channel_sys \<Rightarrow> bool" where
  "not_waiting t s \<longleftrightarrow> (\<forall>k. t \<notin> set (ch_waiters (cs_chan s k)))"

definition steady :: "tid \<Rightarrow> channel_sys \<Rightarrow> channel_sys \<Rightarrow> bool" where
  "steady t s s' \<longleftrightarrow> (not_waiting t s \<longrightarrow> not_waiting t s' \<and> cs_waiter s' t = cs_waiter s t)"

lemma steady_WriteSelf:
  assumes "chan_inv s" shows "steady t s (Channel_WriteSelf m k s)"
  using assms
proof (cases rule: WriteSelf_cases [where k = k and m = m])
  case (deliver u)
  then show ?thesis by (auto simp: steady_def not_waiting_def dest: notin_set_remove1 split: if_splits)
next
  case (queue c)
  then show ?thesis by (auto simp: steady_def not_waiting_def)
qed

lemma steady_trans: "steady t s s1 \<Longrightarrow> steady t s1 s2 \<Longrightarrow> steady t s s2"
  by (auto simp: steady_def)

text \<open>A call that starts to wait: its waiter joins the list under a new id before the message is written.\<close>

lemma Call_cases:
  assumes inv: "chan_inv s" and c: "Channel_Call owner m t k s = Some (r, s')"
  obtains (busy) "mw_channel (cs_waiter s t) \<noteq> None" "cs_chan s' = cs_chan s" "cs_waiter s' = cs_waiter s"
  | (failed) mw where "mw_channel (cs_waiter s t) = None" "cs_chan s' = cs_chan s" "cs_waiter s' = (cs_waiter s)(t := mw)"
  | (waits) s3 pk txid counter where "mw_channel (cs_waiter s t) = None" "r = None" "s' = Channel_WriteSelf (set_txid txid m) pk s3"
      "pd_peer s k = Some pk" "txid \<notin> (\<lambda>u. mw_txid (cs_waiter s u)) ` set (ch_waiters (cs_chan s k))"
      "cs_chan s3 = (cs_chan s)(k := (cs_chan s k)\<lparr>ch_txid := counter, ch_waiters := ch_waiters (cs_chan s k) @ [t]\<rparr>)"
      "cs_waiter s3 = (cs_waiter s)(t := (cs_waiter s t)\<lparr>mw_status := ZX_ERR_TIMED_OUT, mw_channel := Some k, mw_txid := txid\<rparr>)"
proof -
  define s1 where "s1 = snd (BeginWait k t s)"
  show thesis
  proof (cases "mw_channel (cs_waiter s t)")
    case (Some x)
    then show thesis using c by (intro that(1)) (auto simp: Channel_Call_def BeginWait_def)
  next
    case None
    then have b: "BeginWait k t s = (ZX_OK, s1)" by (simp add: s1_def BeginWait_def Let_def)
    have s1: "cs_chan s1 = cs_chan s" "pd_peer s1 = pd_peer s"
      "cs_waiter s1 = (cs_waiter s)(t := (cs_waiter s t)\<lparr>mw_status := ZX_ERR_TIMED_OUT, mw_channel := Some k\<rparr>)"
      using None by (simp_all add: s1_def BeginWait_def Let_def)
    have nw: "t \<notin> set (ch_waiters (cs_chan s k))" using inv None by (auto simp: chan_inv_def chan_ok_def)
    then have used: "map (\<lambda>u. mw_txid (cs_waiter s1 u)) (ch_waiters (cs_chan s k)) = map (\<lambda>u. mw_txid (cs_waiter s u)) (ch_waiters (cs_chan s k))"
      by (auto simp: s1)
    show thesis
    proof (cases "owner = ch_owner (cs_chan s k) \<and> pd_peer s k \<noteq> None")
      case False
      then have "s' = s1 \<or> s' = snd (EndWait t s1)" using c b by (auto simp: Channel_Call_def s1 split: if_splits option.splits)
      then show thesis
      proof
        assume "s' = s1" then show thesis using that(2) [OF None] by (simp add: s1)
      next
        assume "s' = snd (EndWait t s1)" then show thesis using that(2) [OF None] by (simp add: EndWait_def s1)
      qed
    next
      case True
      then obtain pk where pk: "pd_peer s k = Some pk" by auto
      obtain txid counter where a: "alloc_txid (map (\<lambda>u. mw_txid (cs_waiter s u)) (ch_waiters (cs_chan s k))) (ch_txid (cs_chan s k)) = Some (txid, counter)"
        and r: "r = None" and s': "s' = Channel_WriteSelf (set_txid txid m) pk
          (upd_chan k (\<lambda>c. c\<lparr>ch_txid := counter, ch_waiters := ch_waiters c @ [t]\<rparr>) (upd_waiter t (\<lambda>mw. mw\<lparr>mw_txid := txid\<rparr>) s1))"
        using c b True pk used by (auto simp: Channel_Call_def Let_def s1(1,2) split: option.splits)
      have "txid \<notin> (\<lambda>u. mw_txid (cs_waiter s u)) ` set (ch_waiters (cs_chan s k))" using alloc_txid_fresh [OF a] by simp
      then show thesis by (rule that(3) [OF None r s' pk]) (simp_all add: s1)
    qed
  qed
qed

lemma chan_ok_elsewhere:
  assumes "chan_ok s j" "cs_chan s' j = cs_chan s j" "\<And>u. u \<in> set (ch_waiters (cs_chan s j)) \<Longrightarrow> cs_waiter s' u = cs_waiter s u"
  shows "chan_ok s' j"
  using assms by (intro chan_ok_frame [OF assms(1)]) (auto simp: chan_ok_def)

lemma idle_not_waiting: "chan_inv s \<Longrightarrow> mw_channel (cs_waiter s t) = None \<Longrightarrow> not_waiting t s"
  by (auto simp: not_waiting_def chan_inv_def chan_ok_def)

lemma chan_Call:
  assumes inv: "chan_inv s" and c: "Channel_Call owner m t k s = Some (r, s')"
  shows "chan_inv s' \<and> (\<forall>u. u \<noteq> t \<longrightarrow> steady u s s')"
  using inv c
proof (cases rule: Call_cases)
  case busy
  then have "chan_ok s' j" for j using inv by (auto simp: chan_inv_def intro: chan_ok_elsewhere)
  then show ?thesis using busy by (simp add: chan_inv_def steady_def not_waiting_def)
next
  case (failed mw)
  have "chan_ok s' j" for j
  proof (rule chan_ok_elsewhere)
    show "chan_ok s j" using inv by (simp add: chan_inv_def)
    show "cs_chan s' j = cs_chan s j" by (simp add: failed(2))
    show "cs_waiter s' u = cs_waiter s u" if "u \<in> set (ch_waiters (cs_chan s j))" for u
      using that idle_not_waiting [OF inv failed(1)] by (auto simp: failed(3) not_waiting_def)
  qed
  then show ?thesis using failed by (simp add: chan_inv_def steady_def not_waiting_def)
next
  case (waits s3 pk txid counter)
  note nw = idle_not_waiting [OF inv waits(1)]
  have o: "chan_ok s j" for j using inv by (simp add: chan_inv_def)
  have "chan_ok s3 j" for j
  proof (cases "j = k")
    case True
    have f: "mw_txid (cs_waiter s3 u) = mw_txid (cs_waiter s u)" if "u \<in> set (ch_waiters (cs_chan s k))" for u
      using that nw by (auto simp: waits(7) not_waiting_def)
    have "inj_on (\<lambda>u. mw_txid (cs_waiter s3 u)) (set (ch_waiters (cs_chan s k)))"
      using o [of k] f by (simp add: chan_ok_def inj_on_def)
    moreover have "mw_txid (cs_waiter s3 t) \<notin> (\<lambda>u. mw_txid (cs_waiter s3 u)) ` set (ch_waiters (cs_chan s k))"
      using waits(5) f by (auto simp: waits(7) image_iff)
    ultimately have "inj_on (\<lambda>u. mw_txid (cs_waiter s3 u)) (insert t (set (ch_waiters (cs_chan s k))))" by auto
    moreover have S: "ch_waiters (cs_chan s3 k) = ch_waiters (cs_chan s k) @ [t]" by (simp add: waits(6))
    moreover have "\<forall>u\<in>set (ch_waiters (cs_chan s3 k)). mw_channel (cs_waiter s3 u) = Some k \<and> mw_status (cs_waiter s3 u) = ZX_ERR_TIMED_OUT"
      using o [of k] by (auto simp: S waits(7) chan_ok_def)
    moreover have "distinct (ch_waiters (cs_chan s3 k))" using o [of k] nw by (simp add: S chan_ok_def not_waiting_def)
    moreover have "ch_message_count (cs_chan s3 k) = length (ch_messages (cs_chan s3 k))" using o [of k] by (simp add: waits(6) chan_ok_def)
    ultimately show ?thesis by (simp add: chan_ok_def True)
  next
    case False
    then show ?thesis using nw by (intro chan_ok_elsewhere [OF o]) (auto simp: waits(6,7) not_waiting_def)
  qed
  then have i3: "chan_inv s3" by (simp add: chan_inv_def)
  have "steady u s s3" if "u \<noteq> t" for u
    unfolding steady_def not_waiting_def waits(6,7) using that by auto
  then show ?thesis using chan_inv_WriteSelf [OF i3] steady_WriteSelf [OF i3] steady_trans waits(3) by blast
qed

lemma chan_resume:
  assumes inv: "chan_inv s" and ch: "mw_channel (cs_waiter s t) = Some k" and r: "ResumeInterruptedCall st t k s = (r, s')"
  shows "chan_inv s' \<and> (\<forall>u. u \<noteq> t \<longrightarrow> steady u s s')"
proof (cases "st = ZX_ERR_INTERNAL_INTR_RETRY")
  case True
  then show ?thesis using r inv by (simp add: ResumeInterruptedCall_def steady_def)
next
  case False
  have o: "chan_ok s j" for j using inv by (simp add: chan_inv_def)
  have e: "cs_chan s' j = (if j = k \<and> mw_status (cs_waiter s t) = ZX_ERR_TIMED_OUT
        then (cs_chan s k)\<lparr>ch_waiters := remove1 t (ch_waiters (cs_chan s k))\<rparr> else cs_chan s j)"
    "cs_waiter s' u = (if u = t then (cs_waiter s t)\<lparr>mw_msg := None, mw_channel := None\<rparr> else cs_waiter s u)" for j u
    using r False ch by (auto simp: ResumeInterruptedCall_def EndWait_def split: if_splits)
  have n: "t \<notin> set (ch_waiters (cs_chan s' j))" for j
    using o [of j] ch by (auto simp: e(1) chan_ok_def split: if_splits)
  have "chan_ok s' j" for j
  proof (rule chan_ok_frame [OF o])
    show "cs_waiter s' u = cs_waiter s u" if "u \<in> set (ch_waiters (cs_chan s' j))" for u using n [of j] that by (auto simp: e(2))
    show "distinct (ch_waiters (cs_chan s' j))" "ch_message_count (cs_chan s' j) = length (ch_messages (cs_chan s' j))"
      using o [of j] o [of k] by (simp_all add: e(1) chan_ok_def)
    show "set (ch_waiters (cs_chan s' j)) \<subseteq> set (ch_waiters (cs_chan s j))"
      by (simp add: e(1) set_remove1_subset)
  qed
  moreover have "steady u s s'" if "u \<noteq> t" for u
    using that by (auto simp: steady_def not_waiting_def e dest: notin_set_remove1)
  ultimately show ?thesis by (simp add: chan_inv_def)
qed

lemma chan_cancel:
  assumes inv: "chan_inv s"
  shows "chan_inv (cancel_waiters st k (ch_waiters (cs_chan s k)) s)
    \<and> steady u s (cancel_waiters st k (ch_waiters (cs_chan s k)) s)"
proof -
  let ?s' = "cancel_waiters st k (ch_waiters (cs_chan s k)) s"
  note e = cancel_waiters_effect [OF refl, of st k s]
  have o: "chan_ok s j" for j using inv by (simp add: chan_inv_def)
  have "chan_ok ?s' j" for j
  proof (cases "j = k")
    case True
    then show ?thesis using e o [of k] by (simp add: chan_ok_def)
  next
    case False
    have "cs_waiter ?s' t = cs_waiter s t" if "t \<in> set (ch_waiters (cs_chan s j))" for t
      using e that False waiting_elsewhere [OF inv that, of k] by auto
    then show ?thesis using e False by (intro chan_ok_elsewhere [OF o]) auto
  qed
  then show ?thesis using e by (auto simp: chan_inv_def steady_def not_waiting_def)
qed

lemma chan_same:
  assumes "chan_inv s" "cs_waiter s' = cs_waiter s" "\<And>k. ch_waiters (cs_chan s' k) = ch_waiters (cs_chan s k)"
    "\<And>k. ch_message_count (cs_chan s' k) = length (ch_messages (cs_chan s' k))"
  shows "chan_inv s' \<and> steady u s s'"
  using assms by (auto simp: chan_inv_def chan_ok_def steady_def not_waiting_def)

lemma chan_close: 
  assumes inv: "chan_inv s" shows "chan_inv (Channel_close k s) \<and> steady u s (Channel_close k s)"
proof -
  let ?s0 = "s\<lparr>pd_peer := (pd_peer s)(k := None)\<rparr>"
  let ?s1 = "Channel_on_zero_handles_locked k ?s0"
  have i: "ch_message_count (cs_chan s j) = length (ch_messages (cs_chan s j))" for j using inv by (auto simp: chan_inv_def chan_ok_def)
  have "chan_inv ?s0 \<and> steady u s ?s0" by (rule chan_same [OF inv]) (simp_all add: i)
  then have 1: "chan_inv ?s1 \<and> steady u s ?s1"
    using chan_cancel [of ?s0 ZX_ERR_CANCELED k u] steady_trans unfolding Channel_on_zero_handles_locked_def by blast
  show ?thesis
  proof (cases "pd_peer s k")
    case None
    then show ?thesis using 1 by (simp add: peered_on_zero_handles_def Let_def)
  next
    case (Some pk)
    let ?s2 = "update_state pk ZX_CHANNEL_WRITABLE ZX_CHANNEL_PEER_CLOSED (?s1\<lparr>pd_peer := (pd_peer ?s1)(pk := None)\<rparr>)"
    have "ch_message_count (cs_chan ?s1 j) = length (ch_messages (cs_chan ?s1 j))" for j using 1 by (auto simp: chan_inv_def chan_ok_def)
    then have 2: "chan_inv ?s2 \<and> steady u ?s1 ?s2" using 1 by (intro chan_same) simp_all
    have e: "Channel_close k s = cancel_waiters ZX_ERR_PEER_CLOSED pk (ch_waiters (cs_chan ?s2 pk)) ?s2"
      using Some by (simp add: peered_on_zero_handles_def Let_def Channel_OnPeerZeroHandlesLocked_def)
    have 3: "chan_inv (Channel_close k s) \<and> steady u ?s2 (Channel_close k s)" unfolding e by (rule chan_cancel [OF conjunct1 [OF 2]])
    show ?thesis using conjunct1 [OF 3] steady_trans [OF steady_trans [OF conjunct2 [OF 1] conjunct2 [OF 2]] conjunct2 [OF 3]] by (rule conjI)
  qed
qed

lemma chan_step_inv:
  assumes "chan_step A s s'" "chan_inv s" shows "chan_inv s' \<and> (\<forall>u. u \<notin> A \<longrightarrow> steady u s s')"
  using assms
proof (induction rule: chan_step.induct)
  case (cs_write owner m k s st s')
  then have "s' = s \<or> (\<exists>pk. s' = Channel_WriteSelf m pk s)" by (auto simp: Channel_Write_def split: if_splits option.splits)
  then show ?case using cs_write(2) chan_inv_WriteSelf steady_WriteSelf by (auto simp: steady_def)
next
  case (cs_read owner n h d k s r s')
  have i: "ch_message_count (cs_chan s j) = length (ch_messages (cs_chan s j))" for j using cs_read(2) by (auto simp: chan_inv_def chan_ok_def)
  have "cs_waiter s' = cs_waiter s \<and> ch_waiters (cs_chan s' j) = ch_waiters (cs_chan s j)
      \<and> ch_message_count (cs_chan s' j) = length (ch_messages (cs_chan s' j))" for j
    using cs_read(1) i [of k] i [of j] by (auto simp: Channel_Read_def Let_def split: if_splits list.splits)
  then show ?case using chan_same [OF cs_read(2), of s'] by blast
next
  case (cs_call t owner m k s r s')
  then show ?case using chan_Call [OF cs_call(3,2)] by auto
next
  case (cs_resume t s k st r s')
  then show ?case using chan_resume [OF cs_resume(4,2,3)] by auto
next
  case (cs_close s k)
  then show ?case using chan_close by blast
next
  case (cs_owner s p k)
  have "ch_message_count (cs_chan s j) = length (ch_messages (cs_chan s j))" for j using cs_owner by (auto simp: chan_inv_def chan_ok_def)
  then show ?case using chan_same [OF cs_owner, of "set_owner p k s"] by (simp add: set_owner_def)
next
  case (cs_other s w)
  have "ch_message_count (cs_chan s j) = length (ch_messages (cs_chan s j))" for j using cs_other by (auto simp: chan_inv_def chan_ok_def)
  then show ?case using chan_same [OF cs_other, of "s\<lparr>pd_ko := w\<rparr>"] by simp
qed

lemma chan_steps_inv: "(chan_step A)\<^sup>*\<^sup>* s s' \<Longrightarrow> chan_inv s \<Longrightarrow> chan_inv s' \<and> (\<forall>u. u \<notin> A \<longrightarrow> steady u s s')"
proof (induction rule: rtranclp_induct)
  case base
  then show ?case by (simp add: steady_def)
next
  case (step y z)
  then show ?case using chan_step_inv [of A y z] steady_trans by blast
qed

text \<open>At boot no channel has waiters or messages.\<close>

definition chan_boot :: "channel_sys \<Rightarrow> bool" where
  "chan_boot s \<longleftrightarrow> (\<forall>k. cs_chan s k = channel_ctor)"

lemma chan_inv_boot: "chan_boot s \<Longrightarrow> chan_inv s"
  by (simp add: chan_boot_def chan_inv_def chan_ok_def channel_ctor_def)

section \<open>Properties\<close>

text \<open>
  Property C5: a reply reaches its call. When a thread waits for the reply to its call, and the other
  end writes a message with the transaction id of the call, the message goes to the waiter and not
  into the queue and the event the thread sleeps on is signaled. From then on, whatever other threads do, the end of
  the call returns \<^verbatim>\<open>ZX_OK\<close> with exactly that message, even if the wait itself timed out or a
  channel was closed meanwhile, and leaves the waiter free for the next call.
\<close>

theorem channel_reply_delivered:
  assumes "chan_boot s0" "(chan_step UNIV)\<^sup>*\<^sup>* s0 s"
    and "t \<in> set (ch_waiters (cs_chan s pk))" "pd_peer s k = Some pk" "get_txid m = mw_txid (cs_waiter s t)"
    and "\<not> ev_auto (kw_events (pd_ko s) (mw_event (cs_waiter s t)))"
    and "Channel_Write owner m k s = (ZX_OK, s1)" "(chan_step (- {t}))\<^sup>*\<^sup>* s1 s2" "st \<noteq> ZX_ERR_INTERNAL_INTR_RETRY"
  shows "\<exists>s3 r. ResumeInterruptedCall st t pk s2 = ((ZX_OK, Some m), s3) \<and> mw_channel (cs_waiter s3 t) = None
    \<and> ch_messages (cs_chan s1 pk) = ch_messages (cs_chan s pk)
    \<and> ev_result (kw_events (pd_ko s1) (mw_event (cs_waiter s t))) = Some r"
proof -
  have inv: "chan_inv s" using chan_steps_inv [OF assms(2) chan_inv_boot [OF assms(1)]] by simp
  have o: "chan_ok s j" for j using inv by (simp add: chan_inv_def)
  have s1: "s1 = Channel_WriteSelf m pk s" using assms(4,7) by (auto simp: Channel_Write_def split: if_splits)
  have f: "find (\<lambda>u. mw_txid (cs_waiter s u) = get_txid m) (ch_waiters (cs_chan s pk)) = Some t"
  proof (cases "find (\<lambda>u. mw_txid (cs_waiter s u) = get_txid m) (ch_waiters (cs_chan s pk))")
    case None
    then show ?thesis using assms(3,5) by (auto simp: find_None_iff)
  next
    case (Some u)
    then have "u \<in> set (ch_waiters (cs_chan s pk))" "mw_txid (cs_waiter s u) = mw_txid (cs_waiter s t)"
      using assms(5) by (auto simp: find_Some_iff)
    then have "u = t" using o [of pk] assms(3) by (auto simp: chan_ok_def inj_on_def)
    then show ?thesis using Some by simp
  qed
  have e: "s1 = Deliver m t (upd_chan pk (\<lambda>c. c\<lparr>ch_waiters := remove1 t (ch_waiters c)\<rparr>) s)"
    by (simp add: s1 Channel_WriteSelf_def f)
  have w1: "mw_channel (cs_waiter s1 t) = Some pk" "mw_msg (cs_waiter s1 t) = Some m" "mw_status (cs_waiter s1 t) = ZX_OK"
    using o [of pk] assms(3) by (simp_all add: e chan_ok_def)
  have "not_waiting t s1" unfolding not_waiting_def
  proof
    fix j
    have "distinct (ch_waiters (cs_chan s pk))" using o [of pk] by (simp add: chan_ok_def)
    then show "t \<notin> set (ch_waiters (cs_chan s1 j))"
      using waiting_elsewhere [OF inv assms(3), of j] by (cases "j = pk") (auto simp: e)
  qed
  moreover have "steady t s1 s2"
    using chan_steps_inv [OF assms(8)] chan_inv_WriteSelf [OF inv] by (simp add: s1)
  ultimately have "cs_waiter s2 t = cs_waiter s1 t" by (simp add: steady_def)
  then have "ResumeInterruptedCall st t pk s2 = ((ZX_OK, Some m), upd_waiter t (\<lambda>mw. mw\<lparr>mw_msg := None, mw_channel := None\<rparr>) s2)"
    using w1 assms(9) by (simp add: ResumeInterruptedCall_def EndWait_def)
  moreover have "\<exists>r. ev_result (kw_events (pd_ko s1) (mw_event (cs_waiter s t))) = Some r"
    using assms(6) by (auto simp: e Deliver_def upd_kobj_def upd_waiter_def upd_chan_def event_Signal_def event_signal_internal_def
        split: prod.splits if_splits)
  ultimately show ?thesis by (auto simp: e)
qed

text \<open>
  Property C23: a call always finds a transaction id. Unless as many as half of all 32 bit values are in
  use by waiters, the search of an idle thread that may call on a connected channel ends: the call
  starts to wait under an id with the high bit set that no other waiter of the channel has.
\<close>

theorem channel_call_starts:
  assumes "chan_boot s0" "(chan_step UNIV)\<^sup>*\<^sup>* s0 s"
    and "mw_channel (cs_waiter s t) = None" "owner = ch_owner (cs_chan s k)" "pd_peer s k = Some pk"
    and "length (ch_waiters (cs_chan s k)) < 2 ^ 31"
  shows "\<exists>s'. Channel_Call owner m t k s = Some (None, s') \<and> bit (mw_txid (cs_waiter s' t)) 31
    \<and> mw_txid (cs_waiter s' t) \<notin> (\<lambda>u. mw_txid (cs_waiter s u)) ` set (ch_waiters (cs_chan s k))"
proof -
  have inv: "chan_inv s" using chan_steps_inv [OF assms(2) chan_inv_boot [OF assms(1)]] by simp
  let ?used = "map (\<lambda>u. mw_txid (cs_waiter s u)) (ch_waiters (cs_chan s k))"
  obtain txid counter where a: "alloc_txid ?used (ch_txid (cs_chan s k)) = Some (txid, counter)" "txid \<notin> set ?used" "bit txid 31"
    using alloc_txid_returns [of ?used "ch_txid (cs_chan s k)"] assms(6) by auto
  define s1 where "s1 = snd (BeginWait k t s)"
  have b: "BeginWait k t s = (ZX_OK, s1)" using assms(3) by (simp add: s1_def BeginWait_def Let_def)
  have s1: "cs_chan s1 = cs_chan s" "pd_peer s1 = pd_peer s"
    "cs_waiter s1 = (cs_waiter s)(t := (cs_waiter s t)\<lparr>mw_status := ZX_ERR_TIMED_OUT, mw_channel := Some k\<rparr>)"
    using assms(3) by (simp_all add: s1_def BeginWait_def Let_def)
  have "map (\<lambda>u. mw_txid (cs_waiter s1 u)) (ch_waiters (cs_chan s k)) = ?used" by (simp add: s1)
  then obtain s3 where c: "Channel_Call owner m t k s = Some (None, Channel_WriteSelf (set_txid txid m) pk s3)"
    and s3: "mw_txid (cs_waiter s3 t) = txid"
    using b assms(4,5) a(1) by (auto simp: Channel_Call_def Let_def s1(1,2))
  have "mw_txid (cs_waiter (Channel_WriteSelf (set_txid txid m) pk s3) t) = txid"
    using s3 by (auto simp: Channel_WriteSelf_def split: option.split)
  then show ?thesis using c a by auto
qed

text \<open>
  Property C33: a refused call poisons the thread. A call by a process that is no longer the owner of the
  channel returns \<^verbatim>\<open>ZX_ERR_BAD_HANDLE\<close> without ending the wait it began, unlike the call on a
  channel whose peer is closed; the next call of the same thread, on any channel, then takes the
  thread for one that breaks the calling protocol, fails with \<^verbatim>\<open>ZX_ERR_BAD_STATE\<close> and kills its process.
\<close>

theorem channel_bad_owner_poisons:
  assumes "mw_channel (cs_waiter s t) = None" "owner \<noteq> ch_owner (cs_chan s k)"
  shows "\<exists>s1 s2. Channel_Call owner m t k s = Some (Some ZX_ERR_BAD_HANDLE, s1)
    \<and> Channel_Call owner' m' t k' s1 = Some (Some ZX_ERR_BAD_STATE, s2) \<and> t \<in> cs_killed s2"
  using assms by (auto simp: Channel_Call_def BeginWait_def Let_def)

section \<open>Witnesses\<close>

definition channel_example :: channel_sys where
  "channel_example = \<lparr>pd_ko = kobj_init (\<lambda>_. 0) (\<lambda>_. True) (\<lambda>_. 0) (\<lambda>p. p) (sched_init int),
     pd_peer = [5 \<mapsto> 6, 6 \<mapsto> 5], cs_chan = (\<lambda>_. channel_ctor),
     cs_waiter = (\<lambda>_. \<lparr>mw_channel = None, mw_msg = None, mw_event = 7, mw_txid = 0, mw_status = ZX_ERR_BAD_STATE\<rparr>),
     cs_killed = {}\<rparr>"

lemma channel_example_boot: "chan_boot channel_example"
  by (simp add: chan_boot_def channel_example_def)

theorem channel_call_starts_witness:
  "\<exists>s'. Channel_Call 0 \<lparr>mp_data = [1, 2, 3, 4, 5], mp_handles = []\<rparr> 9 5 channel_example = Some (None, s')
    \<and> bit (mw_txid (cs_waiter s' 9)) 31"
  using channel_call_starts [OF channel_example_boot rtranclp.rtrancl_refl, of 9 0 5 6 "\<lparr>mp_data = [1, 2, 3, 4, 5], mp_handles = []\<rparr>"]
  by (auto simp: channel_example_def channel_ctor_def)

theorem channel_bad_owner_poisons_witness:
  "\<exists>s1 s2. Channel_Call 3 \<lparr>mp_data = [], mp_handles = []\<rparr> 9 5 channel_example = Some (Some ZX_ERR_BAD_HANDLE, s1)
    \<and> Channel_Call 0 \<lparr>mp_data = [], mp_handles = []\<rparr> 9 6 s1 = Some (Some ZX_ERR_BAD_STATE, s2) \<and> 9 \<in> cs_killed s2"
  by (rule channel_bad_owner_poisons) (simp_all add: channel_example_def channel_ctor_def)

text \<open>Thread 9 has called on the end 5; the message with the id of its call is the reply.\<close>

definition channel_called :: channel_sys where
  "channel_called = snd (the (Channel_Call 0 \<lparr>mp_data = [1, 2, 3, 4, 5], mp_handles = []\<rparr> 9 5 channel_example))"

lemma alloc_first: "alloc_txid [] 0 = Some (0x80000001, 1)"
  by (subst alloc_txid.simps) simp

lemma channel_called_facts:
  "Channel_Call 0 \<lparr>mp_data = [1, 2, 3, 4, 5], mp_handles = []\<rparr> 9 5 channel_example = Some (None, channel_called)"
  "ch_waiters (cs_chan channel_called 5) = [9]" "pd_peer channel_called 6 = Some 5"
  "mw_txid (cs_waiter channel_called 9) = 0x80000001" "mw_event (cs_waiter channel_called 9) = 7"
  "ch_owner (cs_chan channel_called 6) = 0" 
  by (simp_all add: channel_called_def Channel_Call_def BeginWait_def Let_def channel_example_def channel_ctor_def alloc_first
      Channel_WriteSelf_def upd_kobj_def upd_waiter_def upd_chan_def update_state_def)

lemma channel_called_event: "\<not> ev_auto (kw_events (pd_ko channel_called) 7)"
proof -
  have "kw_events (UpdateStateLocked k c t w) = kw_events w" if "obj_observers (kw_objs w k) = []" for k c t w
    using that by (simp add: UpdateStateLocked_def Let_def upd_obj_def)
  then show ?thesis
    by (simp add: channel_called_def Channel_Call_def BeginWait_def Let_def channel_example_def channel_ctor_def alloc_first
        Channel_WriteSelf_def upd_kobj_def upd_waiter_def upd_chan_def update_state_def kobj_init_def event_init_def
        event_unsignal_def ev_auto_def)
qed

theorem channel_reply_delivered_witness:
  "\<exists>s1 s3. Channel_Write 0 \<lparr>mp_data = [1, 0, 0, 0x80, 42], mp_handles = []\<rparr> 6 channel_called = (ZX_OK, s1)
    \<and> ResumeInterruptedCall ZX_OK 9 5 s1 = ((ZX_OK, Some \<lparr>mp_data = [1, 0, 0, 0x80, 42], mp_handles = []\<rparr>), s3)"
proof -
  let ?m = "\<lparr>mp_data = [1, 0, 0, 0x80, 42], mp_handles = []\<rparr> :: message_packet"
  have r: "(chan_step UNIV)\<^sup>*\<^sup>* channel_example channel_called"
    using cs_call [OF UNIV_I channel_called_facts(1)] by blast
  have w: "Channel_Write 0 ?m 6 channel_called = (ZX_OK, Channel_WriteSelf ?m 5 channel_called)"
    by (simp add: Channel_Write_def channel_called_facts)
  have t: "get_txid ?m = mw_txid (cs_waiter channel_called 9)"
    by (simp add: get_txid_def channel_called_facts push_bit_eq_mult)
  show ?thesis
    using channel_reply_delivered [OF channel_example_boot r _ channel_called_facts(3) t _ w rtranclp.rtrancl_refl, of ZX_OK]
      w channel_called_event by (auto simp: channel_called_facts)
qed

end
