(* ===== verification/Job_Policy.thy ===== *)
theory Job_Policy
  imports Zx_Time
begin

text \<open>
  Job policy, \<^verbatim>\<open>object/job_policy.cc\<close>: what the processes of a job may do, packed into one 64 bit
  cookie. The bit fields of \<^verbatim>\<open>fbl/bitfield.h\<close> are kept as shifts and masks of the word, the
  operations follow the code line by line, and the abstract view is a table from fields to an
  action and a lock, with \<open>AddBasicPolicy\<close> as an update of the whole table. The theory also holds
  the job's policy setters (\<^verbatim>\<open>object/job_dispatcher.cc\<close>), and the enforcement at the process
  (\<^verbatim>\<open>object/process_dispatcher.cc\<close>).
\<close>

section \<open>Constants\<close>

definition ZX_JOB_POL_RELATIVE :: u32 where [zx_defs]: "ZX_JOB_POL_RELATIVE = 0"
definition ZX_JOB_POL_ABSOLUTE :: u32 where [zx_defs]: "ZX_JOB_POL_ABSOLUTE = 1"
definition ZX_POL_BAD_HANDLE :: u32 where [zx_defs]: "ZX_POL_BAD_HANDLE = 0"
definition ZX_POL_WRONG_OBJECT :: u32 where [zx_defs]: "ZX_POL_WRONG_OBJECT = 1"
definition ZX_POL_VMAR_WX :: u32 where [zx_defs]: "ZX_POL_VMAR_WX = 2"
definition ZX_POL_NEW_ANY :: u32 where [zx_defs]: "ZX_POL_NEW_ANY = 3"
definition ZX_POL_NEW_VMO :: u32 where [zx_defs]: "ZX_POL_NEW_VMO = 4"
definition ZX_POL_NEW_CHANNEL :: u32 where [zx_defs]: "ZX_POL_NEW_CHANNEL = 5"
definition ZX_POL_NEW_EVENT :: u32 where [zx_defs]: "ZX_POL_NEW_EVENT = 6"
definition ZX_POL_NEW_EVENTPAIR :: u32 where [zx_defs]: "ZX_POL_NEW_EVENTPAIR = 7"
definition ZX_POL_NEW_PORT :: u32 where [zx_defs]: "ZX_POL_NEW_PORT = 8"
definition ZX_POL_NEW_SOCKET :: u32 where [zx_defs]: "ZX_POL_NEW_SOCKET = 9"
definition ZX_POL_NEW_FIFO :: u32 where [zx_defs]: "ZX_POL_NEW_FIFO = 10"
definition ZX_POL_NEW_TIMER :: u32 where [zx_defs]: "ZX_POL_NEW_TIMER = 11"
definition ZX_POL_NEW_PROCESS :: u32 where [zx_defs]: "ZX_POL_NEW_PROCESS = 12"
definition ZX_POL_NEW_PROFILE :: u32 where [zx_defs]: "ZX_POL_NEW_PROFILE = 13"
definition ZX_POL_AMBIENT_MARK_VMO_EXEC :: u32 where [zx_defs]: "ZX_POL_AMBIENT_MARK_VMO_EXEC = 14"
definition ZX_POL_MAX :: nat where [zx_defs]: "ZX_POL_MAX = 15"
definition ZX_POL_ACTION_ALLOW :: u32 where [zx_defs]: "ZX_POL_ACTION_ALLOW = 0"
definition ZX_POL_ACTION_DENY :: u32 where [zx_defs]: "ZX_POL_ACTION_DENY = 1"
definition ZX_POL_ACTION_ALLOW_EXCEPTION :: u32 where [zx_defs]: "ZX_POL_ACTION_ALLOW_EXCEPTION = 2"
definition ZX_POL_ACTION_DENY_EXCEPTION :: u32 where [zx_defs]: "ZX_POL_ACTION_DENY_EXCEPTION = 3"
definition ZX_POL_ACTION_KILL :: u32 where [zx_defs]: "ZX_POL_ACTION_KILL = 4"
definition ZX_POL_ACTION_MAX :: u32 where [zx_defs]: "ZX_POL_ACTION_MAX = 5"
definition ZX_POL_OVERRIDE_ALLOW :: u32 where [zx_defs]: "ZX_POL_OVERRIDE_ALLOW = 0"
definition ZX_POL_OVERRIDE_DENY :: u32 where [zx_defs]: "ZX_POL_OVERRIDE_DENY = 1"

section \<open>Bit fields\<close>

text \<open>
  \<^verbatim>\<open>BitFieldMember<uint64_t, Offset, BitCount>\<close>: reading masks the field out, assigning shifts the
  new value in without masking it to the width of the field.
\<close>

definition field_maximum :: "nat \<Rightarrow> u64" where
  "field_maximum bit_count = push_bit bit_count 1 - 1"

definition field_mask :: "nat \<Rightarrow> nat \<Rightarrow> u64" where
  "field_mask off bit_count = push_bit off (field_maximum bit_count)"

definition field_read :: "nat \<Rightarrow> nat \<Rightarrow> u64 \<Rightarrow> u64" where
  "field_read off bit_count v = drop_bit off v AND field_maximum bit_count"

definition field_assign :: "nat \<Rightarrow> nat \<Rightarrow> u64 \<Rightarrow> u64 \<Rightarrow> u64" where
  "field_assign off bit_count new_value v =
     (v AND NOT (field_mask off bit_count)) OR push_bit off new_value"

text \<open>The members of \<^verbatim>\<open>JobPolicyBits\<close>: an action of three bits and its override of one bit each.\<close>

datatype job_policy_field =
    bad_handle
  | wrong_object
  | vmar_wx
  | new_vmo
  | new_channel
  | new_event
  | new_eventpair
  | new_port
  | new_socket
  | new_fifo
  | new_timer
  | new_process
  | new_profile
  | ambient_mark_vmo_exec

primrec action_offset :: "job_policy_field \<Rightarrow> nat" where
  "action_offset bad_handle = 0"
| "action_offset wrong_object = 4"
| "action_offset vmar_wx = 8"
| "action_offset new_vmo = 12"
| "action_offset new_channel = 16"
| "action_offset new_event = 20"
| "action_offset new_eventpair = 24"
| "action_offset new_port = 28"
| "action_offset new_socket = 32"
| "action_offset new_fifo = 36"
| "action_offset new_timer = 40"
| "action_offset new_process = 44"
| "action_offset new_profile = 48"
| "action_offset ambient_mark_vmo_exec = 52"

primrec override_offset :: "job_policy_field \<Rightarrow> nat" where
  "override_offset bad_handle = 3"
| "override_offset wrong_object = 7"
| "override_offset vmar_wx = 11"
| "override_offset new_vmo = 15"
| "override_offset new_channel = 19"
| "override_offset new_event = 23"
| "override_offset new_eventpair = 27"
| "override_offset new_port = 31"
| "override_offset new_socket = 35"
| "override_offset new_fifo = 39"
| "override_offset new_timer = 43"
| "override_offset new_process = 47"
| "override_offset new_profile = 51"
| "override_offset ambient_mark_vmo_exec = 55"

definition Action_of :: "job_policy_field \<Rightarrow> u64 \<Rightarrow> u64" where
  "Action_of f = field_read (action_offset f) 3"

definition Override_of :: "job_policy_field \<Rightarrow> u64 \<Rightarrow> u64" where
  "Override_of f = field_read (override_offset f) 1"

definition set_Action :: "job_policy_field \<Rightarrow> u32 \<Rightarrow> u64 \<Rightarrow> u64" where
  "set_Action f action = field_assign (action_offset f) 3 (ucast action)"

definition set_Override :: "job_policy_field \<Rightarrow> u32 \<Rightarrow> u64 \<Rightarrow> u64" where
  "set_Override f override = field_assign (override_offset f) 1 (ucast override)"

text \<open>The specialisations of \<^verbatim>\<open>FieldSelector\<close>; a condition without one has no field.\<close>

definition FieldSelector :: "u32 \<Rightarrow> job_policy_field option" where
  "FieldSelector = map_of
    [(ZX_POL_BAD_HANDLE, bad_handle),
     (ZX_POL_WRONG_OBJECT, wrong_object),
     (ZX_POL_VMAR_WX, vmar_wx),
     (ZX_POL_NEW_VMO, new_vmo),
     (ZX_POL_NEW_CHANNEL, new_channel),
     (ZX_POL_NEW_EVENT, new_event),
     (ZX_POL_NEW_EVENTPAIR, new_eventpair),
     (ZX_POL_NEW_PORT, new_port),
     (ZX_POL_NEW_SOCKET, new_socket),
     (ZX_POL_NEW_FIFO, new_fifo),
     (ZX_POL_NEW_TIMER, new_timer),
     (ZX_POL_NEW_PROCESS, new_profile),
     (ZX_POL_NEW_PROFILE, new_profile),
     (ZX_POL_AMBIENT_MARK_VMO_EXEC, ambient_mark_vmo_exec)]"

definition kNewObjectPolicies :: "u32 list" where
  "kNewObjectPolicies =
    [ZX_POL_NEW_VMO,
     ZX_POL_NEW_CHANNEL,
     ZX_POL_NEW_EVENT,
     ZX_POL_NEW_EVENTPAIR,
     ZX_POL_NEW_PORT,
     ZX_POL_NEW_SOCKET,
     ZX_POL_NEW_FIFO,
     ZX_POL_NEW_TIMER,
     ZX_POL_NEW_PROCESS,
     ZX_POL_NEW_PROFILE]"

section \<open>Operations on the bits\<close>

text \<open>\<^verbatim>\<open>AddPartial\<close> returns its status and the bits it leaves behind.\<close>

definition AddPartial ::
  "u32 \<Rightarrow> u32 \<Rightarrow> u32 \<Rightarrow> u32 \<Rightarrow> u64 \<Rightarrow> zx_status \<times> u64" where
  "AddPartial mode condition action override bits =
     (if action \<ge> ZX_POL_ACTION_MAX then (ZX_ERR_NOT_SUPPORTED, bits)
      else if override > ZX_POL_OVERRIDE_DENY then (ZX_ERR_INVALID_ARGS, bits)
      else case FieldSelector condition of
        None \<Rightarrow> (ZX_ERR_INVALID_ARGS, bits)
      | Some f \<Rightarrow>
          if Override_of f bits = ucast ZX_POL_OVERRIDE_ALLOW
          then (ZX_OK, set_Override f override (set_Action f action bits))
          else if Action_of f bits = ucast action \<and> override = ZX_POL_OVERRIDE_DENY
          then (ZX_OK, bits)
          else (if mode = ZX_JOB_POL_ABSOLUTE then ZX_ERR_ALREADY_EXISTS else ZX_OK, bits))"

definition SetOverride :: "u64 \<Rightarrow> u32 \<Rightarrow> u32 \<Rightarrow> zx_status \<times> u64" where
  "SetOverride policy condition override =
     (case FieldSelector condition of
        None \<Rightarrow> (ZX_ERR_INVALID_ARGS, policy)
      | Some f \<Rightarrow> (ZX_OK, set_Override f override policy))"

definition GetAction :: "u64 \<Rightarrow> u32 \<Rightarrow> u64" where
  "GetAction policy condition =
     (case FieldSelector condition of
        None \<Rightarrow> ucast ZX_POL_ACTION_DENY | Some f \<Rightarrow> Action_of f policy)"

definition GetOverride :: "u64 \<Rightarrow> u32 \<Rightarrow> u64" where
  "GetOverride policy condition =
     (case FieldSelector condition of
        None \<Rightarrow> ucast ZX_POL_OVERRIDE_DENY | Some f \<Rightarrow> Override_of f policy)"

section \<open>JobPolicy\<close>

record job_policy =
  jp_cookie :: u64
  jp_slack :: timer_slack

record zx_policy_basic_v2 =
  v2_condition :: u32
  v2_action :: u32
  v2_flags :: u32

record zx_policy_basic_v1 =
  v1_condition :: u32
  v1_policy :: u32

definition CreateRootPolicy :: job_policy where
  "CreateRootPolicy = \<lparr>jp_cookie = 0, jp_slack = TimerSlack_none\<rparr>"

text \<open>The copy constructor: a child job and a process start with the policy of their parent.\<close>

definition JobPolicy_copy :: "job_policy \<Rightarrow> job_policy" where
  "JobPolicy_copy parent = \<lparr>jp_cookie = jp_cookie parent, jp_slack = jp_slack parent\<rparr>"

text \<open>The two loops over the new-object conditions stop at the first error.\<close>

fun add_new_any :: "u32 \<Rightarrow> u32 \<Rightarrow> u32 list \<Rightarrow> u64 \<Rightarrow> zx_status \<times> u64" where
  "add_new_any mode action [] bits = (ZX_OK, bits)"
| "add_new_any mode action (cond # conds) bits =
     (let (res, bits') = AddPartial mode cond action ZX_POL_OVERRIDE_ALLOW bits
      in if res \<noteq> ZX_OK then (res, bits') else add_new_any mode action conds bits')"

fun set_new_any :: "u32 \<Rightarrow> u32 list \<Rightarrow> u64 \<Rightarrow> zx_status \<times> u64" where
  "set_new_any override [] bits = (ZX_OK, bits)"
| "set_new_any override (cond # conds) bits =
     (let (res, bits') = SetOverride bits cond override
      in if res \<noteq> ZX_OK then (res, bits') else set_new_any override conds bits')"

text \<open>
  The loop over the input. Its state is \<^verbatim>\<open>pol_new\<close> and \<open>Some new_any_override\<close> once
  \<^verbatim>\<open>has_new_any\<close> is set.
\<close>

fun add_entries ::
  "u32 \<Rightarrow> zx_policy_basic_v2 list \<Rightarrow> u64 \<Rightarrow> u32 option \<Rightarrow> zx_status \<times> u64 \<times> u32 option" where
  "add_entries mode [] bits new_any = (ZX_OK, bits, new_any)"
| "add_entries mode (i # input) bits new_any =
     (if v2_condition i = ZX_POL_NEW_ANY then
        let (res, bits') = add_new_any mode (v2_action i) kNewObjectPolicies bits
        in if res \<noteq> ZX_OK then (res, bits', new_any)
           else add_entries mode input bits' (Some (v2_flags i))
      else
        let (res, bits') = AddPartial mode (v2_condition i) (v2_action i) (v2_flags i) bits
        in if res \<noteq> ZX_OK then (res, bits', new_any)
           else add_entries mode input bits' new_any)"

definition AddBasicPolicy ::
  "u32 \<Rightarrow> zx_policy_basic_v2 list \<Rightarrow> job_policy \<Rightarrow> zx_status \<times> job_policy" where
  "AddBasicPolicy mode policy_input p =
     (if length policy_input > ZX_POL_MAX then (ZX_ERR_OUT_OF_RANGE, p)
      else
        let (res, pol_new, new_any) = add_entries mode policy_input (jp_cookie p) None
        in if res \<noteq> ZX_OK then (res, p)
           else case new_any of
             None \<Rightarrow> (ZX_OK, p\<lparr>jp_cookie := pol_new\<rparr>)
           | Some new_any_override \<Rightarrow>
               let (res, pol_new) = set_new_any new_any_override kNewObjectPolicies pol_new
               in if res \<noteq> ZX_OK then (res, p) else (ZX_OK, p\<lparr>jp_cookie := pol_new\<rparr>))"

definition QueryBasicPolicy :: "u32 \<Rightarrow> job_policy \<Rightarrow> u32" where
  "QueryBasicPolicy condition p = ucast (GetAction (jp_cookie p) condition)"

definition QueryBasicPolicyOverride :: "u32 \<Rightarrow> job_policy \<Rightarrow> u32" where
  "QueryBasicPolicyOverride condition p = ucast (GetOverride (jp_cookie p) condition)"

definition SetTimerSlack :: "timer_slack \<Rightarrow> job_policy \<Rightarrow> job_policy" where
  "SetTimerSlack slack p = p\<lparr>jp_slack := slack\<rparr>"

definition GetTimerSlack :: "job_policy \<Rightarrow> timer_slack" where
  "GetTimerSlack p = jp_slack p"

definition JobPolicy_eq :: "job_policy \<Rightarrow> job_policy \<Rightarrow> bool" where
  "JobPolicy_eq p rhs \<longleftrightarrow> jp_cookie p = jp_cookie rhs \<and> TimerSlack_eq (jp_slack p) (jp_slack rhs)"

text \<open>
  The violation counters, one array for denials and one for kills; the pseudo condition
  \<^verbatim>\<open>ZX_POL_NEW_ANY\<close> has none.
\<close>

record policy_counters =
  counters_deny :: "u32 \<Rightarrow> nat"
  counters_kill :: "u32 \<Rightarrow> nat"

definition IncrementCounter :: "u32 \<Rightarrow> u32 \<Rightarrow> policy_counters \<Rightarrow> policy_counters" where
  "IncrementCounter action condition c =
     (if condition = ZX_POL_NEW_ANY then c
      else if action = ZX_POL_ACTION_DENY \<or> action = ZX_POL_ACTION_DENY_EXCEPTION
      then c\<lparr>counters_deny := (counters_deny c)(condition := counters_deny c condition + 1)\<rparr>
      else if action = ZX_POL_ACTION_KILL
      then c\<lparr>counters_kill := (counters_kill c)(condition := counters_kill c condition + 1)\<rparr>
      else c)"

section \<open>The job's setters and the process's enforcement\<close>

text \<open>The part of a job the setters use: its policy and whether it has processes or child jobs.\<close>

record job_state =
  js_policy :: job_policy
  js_procs :: "koid list"
  js_jobs :: "koid list"

definition CanSetPolicy :: "job_state \<Rightarrow> bool" where
  "CanSetPolicy j \<longleftrightarrow> \<not> (js_procs j \<noteq> [] \<or> js_jobs j \<noteq> [])"

definition SetBasicPolicy :: "u32 \<Rightarrow> zx_policy_basic_v2 list \<Rightarrow> job_state \<Rightarrow> zx_status \<times> job_state" where
  "SetBasicPolicy mode in_policy j =
     (if \<not> CanSetPolicy j then (ZX_ERR_BAD_STATE, j)
      else let (res, p) = AddBasicPolicy mode in_policy (js_policy j) in (res, j\<lparr>js_policy := p\<rparr>))"

text \<open>The first version of the structure has no flags; \<open>alloc_ok\<close> is the allocation of the copy.\<close>

definition SetBasicPolicy_v1 ::
  "bool \<Rightarrow> u32 \<Rightarrow> zx_policy_basic_v1 list \<Rightarrow> job_state \<Rightarrow> zx_status \<times> job_state" where
  "SetBasicPolicy_v1 alloc_ok mode in_policy j =
     (if \<not> alloc_ok then (ZX_ERR_NO_MEMORY, j)
      else SetBasicPolicy mode
        (map (\<lambda>i. \<lparr>v2_condition = v1_condition i, v2_action = v1_policy i,
                   v2_flags = ZX_POL_OVERRIDE_DENY\<rparr>) in_policy) j)"

definition SetTimerSlackPolicy :: "zx_duration \<Rightarrow> u32 \<Rightarrow> job_state \<Rightarrow> zx_status \<times> job_state" where
  "SetTimerSlackPolicy min_slack default_mode j =
     (if \<not> CanSetPolicy j then (ZX_ERR_BAD_STATE, j)
      else if sint min_slack < 0 then (ZX_ERR_INVALID_ARGS, j)
      else case map_of [(0, TIMER_SLACK_CENTER), (1, TIMER_SLACK_EARLY), (2, TIMER_SLACK_LATE)]
                  default_mode of
        None \<Rightarrow> (ZX_ERR_INVALID_ARGS, j)
      | Some new_mode \<Rightarrow>
          let old_slack = GetTimerSlack (js_policy j);
              new_amount = (if sint (ts_amount old_slack) < sint min_slack then min_slack
                            else ts_amount old_slack)
          in (ZX_OK, j\<lparr>js_policy := SetTimerSlack \<lparr>ts_amount = new_amount, ts_mode = new_mode\<rparr>
                                     (js_policy j)\<rparr>))"

text \<open>
  Enforcement at the process: \<open>None\<close> is the panic on an action the switch does not know. The
  effects are the policy exception raised on the thread, the kill of the process and the counters.
\<close>

record policy_effects =
  pe_exceptions :: nat
  pe_killed :: bool
  pe_counters :: policy_counters

definition EnforceBasicPolicy ::
  "job_policy \<Rightarrow> u32 \<Rightarrow> policy_effects \<Rightarrow> (zx_status \<times> policy_effects) option" where
  "EnforceBasicPolicy p condition e =
     (let action = QueryBasicPolicy condition p;
          count = (\<lambda>e. e\<lparr>pe_counters := IncrementCounter action condition (pe_counters e)\<rparr>);
          signal = (\<lambda>e. e\<lparr>pe_exceptions := pe_exceptions e + 1\<rparr>)
      in if action = ZX_POL_ACTION_ALLOW then Some (ZX_OK, e)
         else if action = ZX_POL_ACTION_DENY then Some (ZX_ERR_ACCESS_DENIED, count e)
         else if action = ZX_POL_ACTION_ALLOW_EXCEPTION then Some (ZX_OK, count (signal e))
         else if action = ZX_POL_ACTION_DENY_EXCEPTION
         then Some (ZX_ERR_ACCESS_DENIED, count (signal e))
         else if action = ZX_POL_ACTION_KILL
         then Some (ZX_ERR_ACCESS_DENIED, count (e\<lparr>pe_killed := True\<rparr>))
         else None)"

section \<open>Bit field laws\<close>

lemma field_maximum_mask: "field_maximum n = mask n"
  by (simp add: field_maximum_def mask_eq_decr_exp push_bit_of_1)

lemma bit_field_read: "bit (field_read off n v) k \<longleftrightarrow> k < n \<and> bit v (off + k)"
  by (auto simp: field_read_def field_maximum_mask bit_simps dest: bit_imp_possible_bit)

lemma bit_field_assign:
  "bit (field_assign off n new v) k \<longleftrightarrow>
     (bit v k \<and> \<not> (off \<le> k \<and> k < off + n)) \<or> (off \<le> k \<and> k < 64 \<and> bit new (k - off))"
  by (auto simp: field_assign_def field_mask_def field_maximum_mask bit_simps dest: bit_imp_possible_bit)

lemma field_read_assign_same:
  assumes "off + n \<le> 64" "take_bit n new = new"
  shows "field_read off n (field_assign off n new v) = new"
proof (rule bit_word_eqI)
  fix k assume "k < LENGTH(64)"
  have "bit new k \<longleftrightarrow> k < n \<and> bit new k" using assms(2) by (metis bit_take_bit_iff)
  then show "bit (field_read off n (field_assign off n new v)) k = bit new k"
    using assms(1) by (auto simp: bit_field_read bit_field_assign)
qed

lemma field_read_assign_other:
  assumes "off + n \<le> off' \<or> off' + n' \<le> off" "take_bit n new = new"
  shows "field_read off' n' (field_assign off n new v) = field_read off' n' v"
proof (rule bit_word_eqI)
  fix k assume "k < LENGTH(64)"
  have "bit new j \<Longrightarrow> j < n" for j using assms(2) by (metis bit_take_bit_iff)
  from this [of "off' + k - off"]
  show "bit (field_read off' n' (field_assign off n new v)) k = bit (field_read off' n' v) k"
    using assms(1) by (auto simp: bit_field_read bit_field_assign)
qed

lemma override_offset_eq: "override_offset f = action_offset f + 3"
  by (cases f) simp_all

lemma action_offset_less: "action_offset f + 4 \<le> 56"
  by (cases f) simp_all

lemma action_offset_apart:
  "f \<noteq> g \<Longrightarrow> action_offset f + 4 \<le> action_offset g \<or> action_offset g + 4 \<le> action_offset f"
  by (cases f; cases g) simp_all

lemma take_bit_ucast_self: "unat (a :: u32) < 2 ^ n \<Longrightarrow> take_bit n (ucast a :: u64) = ucast a"
proof -
  assume "unat a < 2 ^ n"
  moreover have "unat a < 2 ^ 64" using unsigned_less [of a, where 'a = nat] by simp
  ultimately show ?thesis
    by (intro word_unat_eq_iff [THEN iffD2])
      (simp add: unsigned_take_bit_eq unsigned_ucast_eq take_bit_nat_eq_self)
qed

lemma take_bit_ucast_action: "(a :: u32) < 5 \<Longrightarrow> take_bit 3 (ucast a :: u64) = ucast a"
  by (rule take_bit_ucast_self) (simp add: word_less_nat_alt)

lemma take_bit_ucast_override: "(v :: u32) \<le> 1 \<Longrightarrow> take_bit 1 (ucast v :: u64) = ucast v"
  by (rule take_bit_ucast_self) (simp add: word_le_nat_alt)

lemma ucast_u32_u64_eq: "(ucast (a :: u32) :: u64) = ucast b \<longleftrightarrow> a = b"
proof
  have r: "unat (ucast x :: u64) = unat x" for x :: u32
    using unsigned_less [of x, where 'a = nat] by (simp add: unsigned_ucast_eq take_bit_nat_eq_self)
  show "(ucast a :: u64) = ucast b \<Longrightarrow> a = b" using r [of a] r [of b] by (simp add: word_unat_eq_iff)
qed simp

lemma field_read_1: "field_read off 1 v = (if bit v off then 1 else 0)"
  by (rule bit_word_eqI) (auto simp: bit_field_read bit_1_iff)

lemma Override_of_one: "ucast (Override_of f v) = (1 :: u32) \<longleftrightarrow> Override_of f v \<noteq> 0"
  unfolding Override_of_def field_read_1 by simp

section \<open>The policy as a table\<close>

text \<open>
  The abstract state: every field has an action and is locked when its override is denied. One
  entry, a \<^verbatim>\<open>ZX_POL_NEW_ANY\<close> entry and a whole call are updates of the table; \<open>None\<close> is a conflict
  in absolute mode. \<open>new_process\<close> is not among the fields a new-object condition selects.
\<close>

type_synonym policy_table = "job_policy_field \<Rightarrow> u64 \<times> bool"

definition policy_table :: "u64 \<Rightarrow> policy_table" where
  "policy_table v f = (Action_of f v, Override_of f v \<noteq> 0)"

definition new_object_fields :: "job_policy_field set" where
  "new_object_fields = {new_vmo, new_channel, new_event, new_eventpair, new_port, new_socket,
     new_fifo, new_timer, new_profile}"

definition table_entry ::
  "bool \<Rightarrow> job_policy_field \<Rightarrow> u64 \<Rightarrow> bool \<Rightarrow> policy_table \<Rightarrow> policy_table option" where
  "table_entry strict f a locked T =
     (if \<not> snd (T f) then Some (T(f := (a, locked)))
      else if \<not> strict \<or> fst (T f) = a \<and> locked then Some T else None)"

definition table_any :: "bool \<Rightarrow> job_policy_field set \<Rightarrow> u64 \<Rightarrow> policy_table \<Rightarrow> policy_table option" where
  "table_any strict F a T =
     (if strict \<and> (\<exists>f\<in>F. snd (T f)) then None
      else Some (\<lambda>f. if f \<in> F \<and> \<not> snd (T f) then (a, False) else T f))"

fun table_entries ::
  "bool \<Rightarrow> zx_policy_basic_v2 list \<Rightarrow> policy_table \<Rightarrow> bool option \<Rightarrow> (policy_table \<times> bool option) option" where
  "table_entries strict [] T any = Some (T, any)"
| "table_entries strict (i # input) T any =
     (if v2_condition i = ZX_POL_NEW_ANY
      then case table_any strict new_object_fields (ucast (v2_action i)) T of
             None \<Rightarrow> None
           | Some T' \<Rightarrow> table_entries strict input T' (Some (v2_flags i \<noteq> 0))
      else case table_entry strict (the (FieldSelector (v2_condition i))) (ucast (v2_action i))
                  (v2_flags i \<noteq> 0) T of
             None \<Rightarrow> None
           | Some T' \<Rightarrow> table_entries strict input T' any)"

definition table_lock :: "job_policy_field set \<Rightarrow> bool \<Rightarrow> policy_table \<Rightarrow> policy_table" where
  "table_lock F locked T = (\<lambda>f. if f \<in> F then (fst (T f), locked) else T f)"

definition table_add :: "bool \<Rightarrow> zx_policy_basic_v2 list \<Rightarrow> policy_table \<Rightarrow> policy_table option" where
  "table_add strict input T = (case table_entries strict input T None of
     None \<Rightarrow> None
   | Some (T', None) \<Rightarrow> Some T'
   | Some (T', Some locked) \<Rightarrow> Some (table_lock new_object_fields locked T'))"

text \<open>An entry the documentation allows: a known condition, a known action and a known flag.\<close>

definition valid_entry :: "zx_policy_basic_v2 \<Rightarrow> bool" where
  "valid_entry i \<longleftrightarrow> (v2_condition i = ZX_POL_NEW_ANY \<or> FieldSelector (v2_condition i) \<noteq> None)
     \<and> v2_action i < ZX_POL_ACTION_MAX \<and> v2_flags i \<le> ZX_POL_OVERRIDE_DENY"

section \<open>The bits implement the table\<close>

lemma policy_table_set_Override:
  assumes "ov \<le> 1"
  shows "policy_table (set_Override f ov v) = (policy_table v)(f := (fst (policy_table v f), ov \<noteq> 0))"
proof
  fix g
  have t: "take_bit 1 (ucast ov :: u64) = ucast ov" by (rule take_bit_ucast_override) fact
  have act: "Action_of g (set_Override f ov v) = Action_of g v"
    unfolding Action_of_def set_Override_def
    by (rule field_read_assign_other [OF _ t])
      (use action_offset_apart [of f g] in \<open>cases "f = g"; simp add: override_offset_eq; arith\<close>)
  have same: "Override_of f (set_Override f ov v) = ucast ov"
    unfolding Override_of_def set_Override_def
    by (rule field_read_assign_same [OF _ t]) (use action_offset_less [of f] in \<open>simp add: override_offset_eq\<close>)
  have other: "Override_of g (set_Override f ov v) = Override_of g v" if "f \<noteq> g"
    unfolding Override_of_def set_Override_def
    by (rule field_read_assign_other [OF _ t])
      (use action_offset_apart [OF that] in \<open>simp add: override_offset_eq; arith\<close>)
  have nz: "(ucast ov :: u64) \<noteq> 0 \<longleftrightarrow> ov \<noteq> 0" using ucast_u32_u64_eq [of ov 0] by simp
  show "policy_table (set_Override f ov v) g
        = ((policy_table v)(f := (fst (policy_table v f), ov \<noteq> 0))) g"
    using act same other nz by (cases "f = g") (simp_all add: policy_table_def)
qed

lemma policy_table_set_Action:
  assumes "a < 5"
  shows "policy_table (set_Action f a v) = (policy_table v)(f := (ucast a, snd (policy_table v f)))"
proof
  fix g
  have t: "take_bit 3 (ucast a :: u64) = ucast a" by (rule take_bit_ucast_action) fact
  have ov: "Override_of g (set_Action f a v) = Override_of g v"
    unfolding Override_of_def set_Action_def
    by (rule field_read_assign_other [OF _ t])
      (use action_offset_apart [of f g] in \<open>cases "f = g"; simp add: override_offset_eq; arith\<close>)
  have same: "Action_of f (set_Action f a v) = ucast a"
    unfolding Action_of_def set_Action_def
    by (rule field_read_assign_same [OF _ t]) (use action_offset_less [of f] in simp)
  have other: "Action_of g (set_Action f a v) = Action_of g v" if "f \<noteq> g"
    unfolding Action_of_def set_Action_def
    by (rule field_read_assign_other [OF _ t]) (use action_offset_apart [OF that] in arith)
  show "policy_table (set_Action f a v) g
        = ((policy_table v)(f := (ucast a, snd (policy_table v f)))) g"
    using ov same other by (cases "f = g") (simp_all add: policy_table_def)
qed

lemma AddPartial_table:
  assumes "a < 5" "ov \<le> 1" "FieldSelector c = Some f"
  shows "case table_entry (mode = ZX_JOB_POL_ABSOLUTE) f (ucast a) (ov \<noteq> 0) (policy_table v) of
      None \<Rightarrow> AddPartial mode c a ov v = (ZX_ERR_ALREADY_EXISTS, v)
    | Some T \<Rightarrow> fst (AddPartial mode c a ov v) = ZX_OK \<and> policy_table (snd (AddPartial mode c a ov v)) = T"
proof -
  have "ov = 1 \<longleftrightarrow> ov \<noteq> 0" using assms(2) by (auto simp: word_le_nat_alt word_unat_eq_iff)
  then show ?thesis
    using assms(1,2)
    by (simp add: AddPartial_def assms(3) table_entry_def policy_table_set_Override
        policy_table_set_Action zx_defs not_le not_less)
      (auto simp: policy_table_def)
qed

lemma add_new_any_table:
  assumes "a < 5" "map FieldSelector conds = map Some fs"
  shows "case table_any (mode = ZX_JOB_POL_ABSOLUTE) (set fs) (ucast a) (policy_table v) of
      None \<Rightarrow> fst (add_new_any mode a conds v) = ZX_ERR_ALREADY_EXISTS
    | Some T \<Rightarrow> fst (add_new_any mode a conds v) = ZX_OK \<and> policy_table (snd (add_new_any mode a conds v)) = T"
  using assms(2)
proof (induction conds arbitrary: fs v)
  case Nil
  then show ?case by (simp add: table_any_def)
next
  case (Cons c conds)
  then obtain f gs where fs: "fs = f # gs" "FieldSelector c = Some f" "map FieldSelector conds = map Some gs"
    by (cases fs) auto
  obtain r v' where step: "AddPartial mode c a 0 v = (r, v')" by (cases "AddPartial mode c a 0 v")
  have p: "case table_entry (mode = ZX_JOB_POL_ABSOLUTE) f (ucast a) False (policy_table v) of
      None \<Rightarrow> r = ZX_ERR_ALREADY_EXISTS | Some T \<Rightarrow> r = ZX_OK \<and> policy_table v' = T"
    using AddPartial_table [OF assms(1) _ fs(2), of 0 mode v] step by (auto split: option.splits)
  show ?case
  proof (cases "mode = ZX_JOB_POL_ABSOLUTE \<and> snd (policy_table v f)")
    case True
    then have "r = ZX_ERR_ALREADY_EXISTS" using p by (simp add: table_entry_def split: option.splits if_splits)
    then have "fst (add_new_any mode a (c # conds) v) = ZX_ERR_ALREADY_EXISTS"
      by (simp add: step ZX_POL_OVERRIDE_ALLOW_def)
    then show ?thesis using True by (simp only: table_any_def fs(1)) simp
  next
    case False
    then have r: "r = ZX_OK"
      and t: "policy_table v' = (if snd (policy_table v f) then policy_table v
                                 else (policy_table v)(f := (ucast a, False)))"
      using p by (auto simp: table_entry_def split: if_splits)
    have "table_any (mode = ZX_JOB_POL_ABSOLUTE) (set gs) (ucast a) (policy_table v')
          = table_any (mode = ZX_JOB_POL_ABSOLUTE) (set fs) (ucast a) (policy_table v)"
      using False by (auto simp: table_any_def fs(1) t fun_eq_iff)
    moreover have "add_new_any mode a (c # conds) v = add_new_any mode a conds v'"
      by (simp add: step r ZX_POL_OVERRIDE_ALLOW_def)
    ultimately show ?thesis using Cons.IH [OF fs(3), of v'] by (simp only:)
  qed
qed

lemma set_new_any_table:
  assumes "ov \<le> 1" "map FieldSelector conds = map Some fs"
  shows "fst (set_new_any ov conds v) = ZX_OK
         \<and> policy_table (snd (set_new_any ov conds v)) = table_lock (set fs) (ov \<noteq> 0) (policy_table v)"
  using assms(2)
proof (induction conds arbitrary: fs v)
  case Nil
  then show ?case by (simp add: table_lock_def)
next
  case (Cons c conds)
  then obtain f gs where fs: "fs = f # gs" "FieldSelector c = Some f" "map FieldSelector conds = map Some gs"
    by (cases fs) auto
  show ?case
    using Cons.IH [OF fs(3), of "set_Override f ov v"]
    by (auto simp: SetOverride_def fs(1,2) table_lock_def policy_table_set_Override [OF assms(1)] fun_eq_iff)
qed

lemmas FieldSelector_simps = FieldSelector_def zx_defs

lemma new_object_selectors:
  "map FieldSelector kNewObjectPolicies = map Some [new_vmo, new_channel, new_event, new_eventpair,
     new_port, new_socket, new_fifo, new_timer, new_profile, new_profile]"
  by (simp add: kNewObjectPolicies_def FieldSelector_simps)

lemma new_object_fields_set:
  "set [new_vmo, new_channel, new_event, new_eventpair, new_port, new_socket, new_fifo, new_timer,
     new_profile, new_profile] = new_object_fields"
  by (auto simp: new_object_fields_def)

lemmas new_any_table = add_new_any_table [OF _ new_object_selectors, unfolded new_object_fields_set]
  and new_lock_table = set_new_any_table [OF _ new_object_selectors, unfolded new_object_fields_set]

definition any_rel :: "u32 option \<Rightarrow> bool option \<Rightarrow> bool" where
  "any_rel o_any t_any \<longleftrightarrow> t_any = map_option (\<lambda>v. v \<noteq> 0) o_any \<and> (\<forall>v. o_any = Some v \<longrightarrow> v \<le> 1)"

lemma add_entries_table:
  assumes "list_all valid_entry es" "any_rel n tn"
  shows "case table_entries (mode = ZX_JOB_POL_ABSOLUTE) es (policy_table v) tn of
      None \<Rightarrow> fst (add_entries mode es v n) = ZX_ERR_ALREADY_EXISTS
    | Some (T, tn') \<Rightarrow> (\<exists>v' n'. add_entries mode es v n = (ZX_OK, v', n') \<and> policy_table v' = T \<and> any_rel n' tn')"
  using assms
proof (induction es arbitrary: v n tn)
  case Nil
  then show ?case by simp
next
  case (Cons i es)
  then have i: "valid_entry i" and es: "list_all valid_entry es" by simp_all
  have act: "v2_action i < 5" and fl: "v2_flags i \<le> 1" using i by (simp_all add: valid_entry_def zx_defs)
  show ?case
  proof (cases "v2_condition i = ZX_POL_NEW_ANY")
    case True
    obtain r v' where step: "add_new_any mode (v2_action i) kNewObjectPolicies v = (r, v')"
      by (cases "add_new_any mode (v2_action i) kNewObjectPolicies v")
    have rel: "any_rel (Some (v2_flags i)) (Some (v2_flags i \<noteq> 0))" using fl by (simp add: any_rel_def)
    have eq: "add_entries mode (i # es) v n
        = (if r \<noteq> ZX_OK then (r, v', n) else add_entries mode es v' (Some (v2_flags i)))"
      by (simp add: True step)
    from new_any_table [OF act, of mode v] Cons.IH [OF es rel, of v'] show ?thesis
      by (cases "table_any (mode = ZX_JOB_POL_ABSOLUTE) new_object_fields (ucast (v2_action i)) (policy_table v)")
        (simp_all only: eq, simp_all add: True step)
  next
    case False
    then obtain f where f: "FieldSelector (v2_condition i) = Some f" using i by (auto simp: valid_entry_def)
    obtain r v' where step: "AddPartial mode (v2_condition i) (v2_action i) (v2_flags i) v = (r, v')"
      by (cases "AddPartial mode (v2_condition i) (v2_action i) (v2_flags i) v")
    have eq: "add_entries mode (i # es) v n
        = (if r \<noteq> ZX_OK then (r, v', n) else add_entries mode es v' n)"
      by (simp add: False step)
    from AddPartial_table [OF act fl f, of mode v] Cons.IH [OF es Cons.prems(2), of v'] show ?thesis
      by (cases "table_entry (mode = ZX_JOB_POL_ABSOLUTE) f (ucast (v2_action i)) (v2_flags i \<noteq> 0) (policy_table v)")
        (simp_all only: eq, simp_all add: False f step)
  qed
qed

lemma AddBasicPolicy_table:
  assumes "length es \<le> ZX_POL_MAX" "list_all valid_entry es"
  shows "case table_add (mode = ZX_JOB_POL_ABSOLUTE) es (policy_table (jp_cookie p)) of
      None \<Rightarrow> AddBasicPolicy mode es p = (ZX_ERR_ALREADY_EXISTS, p)
    | Some T \<Rightarrow> (\<exists>v. AddBasicPolicy mode es p = (ZX_OK, p\<lparr>jp_cookie := v\<rparr>) \<and> policy_table v = T)"
proof -
  have "any_rel None None" by (simp add: any_rel_def)
  note e = add_entries_table [OF assms(2) this, of mode "jp_cookie p"]
  show ?thesis
  proof (cases "table_entries (mode = ZX_JOB_POL_ABSOLUTE) es (policy_table (jp_cookie p)) None")
    case None
    then show ?thesis using e assms(1)
      by (cases "add_entries mode es (jp_cookie p) None") (simp add: AddBasicPolicy_def table_add_def)
  next
    case (Some r)
    obtain T tn where r: "r = (T, tn)" by (cases r)
    then obtain v n where a: "add_entries mode es (jp_cookie p) None = (ZX_OK, v, n)"
      "policy_table v = T" "any_rel n tn" using e Some by auto
    show ?thesis
    proof (cases n)
      case None
      then show ?thesis using a assms(1) Some r by (auto simp: AddBasicPolicy_def table_add_def any_rel_def)
    next
      case (Some ov)
      then have "ov \<le> 1" "tn = Some (ov \<noteq> 0)" using a(3) by (simp_all add: any_rel_def)
      then show ?thesis
        using new_lock_table [of ov v] a assms(1) Some r \<open>table_entries _ _ _ _ = Some r\<close>
        by (cases "set_new_any ov kNewObjectPolicies v") (auto simp: AddBasicPolicy_def table_add_def)
    qed
  qed
qed

section \<open>Properties\<close>

text \<open>
  Property C10: \<open>AddBasicPolicy\<close> on documented input is exactly the update of the abstract table:
  entries in order, an unlocked field takes the entry's action and lock, a locked field keeps both,
  \<^verbatim>\<open>ZX_POL_NEW_ANY\<close> updates every unlocked new-object field at once and decides their lock at the
  end. A conflict in absolute mode is \<^verbatim>\<open>ZX_ERR_ALREADY_EXISTS\<close> and changes nothing; the timer slack
  is never touched.
\<close>

theorem job_policy_refines_table:
  assumes "length es \<le> ZX_POL_MAX" "list_all valid_entry es"
  shows "case table_add (mode = ZX_JOB_POL_ABSOLUTE) es (policy_table (jp_cookie p)) of
      None \<Rightarrow> AddBasicPolicy mode es p = (ZX_ERR_ALREADY_EXISTS, p)
    | Some T \<Rightarrow> (\<exists>v. AddBasicPolicy mode es p = (ZX_OK, p\<lparr>jp_cookie := v\<rparr>) \<and> policy_table v = T)"
  by (rule AddBasicPolicy_table [OF assms])

definition jp_example :: "zx_policy_basic_v2 list" where
  "jp_example =
     [\<lparr>v2_condition = ZX_POL_NEW_FIFO, v2_action = ZX_POL_ACTION_DENY, v2_flags = ZX_POL_OVERRIDE_DENY\<rparr>,
      \<lparr>v2_condition = ZX_POL_NEW_ANY, v2_action = ZX_POL_ACTION_KILL, v2_flags = ZX_POL_OVERRIDE_DENY\<rparr>]"

lemma action_max_above_override: "\<not> (5 :: u32) \<le> 1"
  by (simp add: word_le_nat_alt)

lemmas jp_eval = action_max_above_override AddPartial_def SetOverride_def GetAction_def GetOverride_def kNewObjectPolicies_def
  FieldSelector_simps Action_of_def Override_of_def set_Action_def set_Override_def
  field_read_def field_assign_def field_mask_def field_maximum_def

lemmas jp_example_simps = jp_example_def valid_entry_def FieldSelector_simps

theorem job_policy_refines_table_witness:
  "length jp_example \<le> ZX_POL_MAX \<and> list_all valid_entry jp_example
   \<and> table_add False jp_example (policy_table (jp_cookie CreateRootPolicy)) \<noteq> None
   \<and> (case table_add (ZX_JOB_POL_RELATIVE = ZX_JOB_POL_ABSOLUTE) jp_example
              (policy_table (jp_cookie CreateRootPolicy)) of
        None \<Rightarrow> AddBasicPolicy ZX_JOB_POL_RELATIVE jp_example CreateRootPolicy
                = (ZX_ERR_ALREADY_EXISTS, CreateRootPolicy)
      | Some T \<Rightarrow> (\<exists>v. AddBasicPolicy ZX_JOB_POL_RELATIVE jp_example CreateRootPolicy
                      = (ZX_OK, CreateRootPolicy\<lparr>jp_cookie := v\<rparr>) \<and> policy_table v = T))"
proof -
  have a: "length jp_example \<le> ZX_POL_MAX" by (simp add: jp_example_simps)
  have b: "list_all valid_entry jp_example" by (simp add: jp_example_simps)
  have "table_add False jp_example (policy_table (jp_cookie CreateRootPolicy)) \<noteq> None"
    by (simp add: table_add_def jp_example_simps table_entry_def table_any_def split: if_splits)
  with a b job_policy_refines_table [OF a b, of ZX_JOB_POL_RELATIVE CreateRootPolicy]
  show ?thesis by blast
qed

lemma table_entries_keeps_locked:
  "table_entries strict es T any = Some (T', any') \<Longrightarrow> snd (T f) \<Longrightarrow> T' f = T f"
proof (induction es arbitrary: T any)
  case (Cons i es)
  have one: "table_entry strict g a l T = Some U \<Longrightarrow> U f = T f" for g a l U
    using Cons.prems(2) by (auto simp: table_entry_def split: if_splits)
  have all: "table_any strict F a T = Some U \<Longrightarrow> U f = T f" for F a U
    using Cons.prems(2) by (auto simp: table_any_def split: if_splits)
  show ?case
    using Cons.prems Cons.IH one all by (auto split: if_splits option.splits)
qed simp

lemma table_entries_no_any:
  "table_entries strict es T any = Some (T', any') \<Longrightarrow>
   list_all (\<lambda>i. v2_condition i \<noteq> ZX_POL_NEW_ANY) es \<Longrightarrow> any' = any"
  by (induction es arbitrary: T) (auto split: if_splits option.splits)

lemma table_add_locked:
  assumes "table_add strict es T = Some T'" "snd (T f)"
  shows "fst (T' f) = fst (T f)"
    and "list_all (\<lambda>i. v2_condition i \<noteq> ZX_POL_NEW_ANY) es \<Longrightarrow> T' f = T f"
  using assms table_entries_keeps_locked [of strict es T None _ _ f]
    table_entries_no_any [of strict es T None]
  by (fastforce simp: table_add_def table_lock_def split: option.splits if_splits)+

text \<open>
  A locked condition stays what it is. Whatever documented entries a call carries and
  in either mode, the action of a locked condition does not change, and unless the call contains a
  \<^verbatim>\<open>ZX_POL_NEW_ANY\<close> entry the condition also stays locked.
\<close>

lemma job_policy_lock_respected:
  assumes "list_all valid_entry es" "QueryBasicPolicyOverride c p = ZX_POL_OVERRIDE_DENY"
    "FieldSelector c = Some f"
  shows "QueryBasicPolicy c (snd (AddBasicPolicy mode es p)) = QueryBasicPolicy c p
    \<and> (list_all (\<lambda>i. v2_condition i \<noteq> ZX_POL_NEW_ANY) es \<longrightarrow>
        QueryBasicPolicyOverride c (snd (AddBasicPolicy mode es p)) = ZX_POL_OVERRIDE_DENY)"
proof -
  have ov: "ucast (Override_of f v) = (1 :: u32) \<longleftrightarrow> Override_of f v \<noteq> 0" for v
    by (rule Override_of_one)
  have locked: "snd (policy_table (jp_cookie p) f)"
    using assms(2,3) ov by (simp add: QueryBasicPolicyOverride_def GetOverride_def zx_defs policy_table_def)
  show ?thesis
  proof (cases "length es \<le> ZX_POL_MAX")
    case True
    note t = AddBasicPolicy_table [OF this assms(1), of mode p]
    show ?thesis
    proof (cases "table_add (mode = ZX_JOB_POL_ABSOLUTE) es (policy_table (jp_cookie p))")
      case None
      then show ?thesis using t assms(2) by simp
    next
      case (Some T)
      then obtain v where v: "snd (AddBasicPolicy mode es p) = p\<lparr>jp_cookie := v\<rparr>" "policy_table v = T"
        using t by auto
      have "Action_of f v = Action_of f (jp_cookie p)"
        using table_add_locked(1) [OF Some locked] by (simp add: v(2) [symmetric] policy_table_def)
      moreover have "Override_of f v \<noteq> 0" if "list_all (\<lambda>i. v2_condition i \<noteq> ZX_POL_NEW_ANY) es"
        using table_add_locked(2) [OF Some locked that] locked
        by (simp add: v(2) [symmetric] policy_table_def)
      ultimately show ?thesis
        by (simp add: QueryBasicPolicy_def QueryBasicPolicyOverride_def GetAction_def GetOverride_def
            assms(3) ZX_POL_OVERRIDE_DENY_def v(1) ov)
    qed
  next
    case False
    then show ?thesis using assms(2) by (simp add: AddBasicPolicy_def)
  qed
qed

lemma job_policy_lock_respected_witness:
  "let p = snd (AddBasicPolicy ZX_JOB_POL_ABSOLUTE [hd jp_example] CreateRootPolicy) in
   list_all valid_entry jp_example
   \<and> QueryBasicPolicyOverride ZX_POL_NEW_FIFO p = ZX_POL_OVERRIDE_DENY
   \<and> QueryBasicPolicy ZX_POL_NEW_FIFO p = ZX_POL_ACTION_DENY
   \<and> QueryBasicPolicy ZX_POL_NEW_FIFO (snd (AddBasicPolicy ZX_JOB_POL_RELATIVE jp_example p))
      = ZX_POL_ACTION_DENY"
proof -
  define p where "p = snd (AddBasicPolicy ZX_JOB_POL_ABSOLUTE [hd jp_example] CreateRootPolicy)"
  have p: "p = \<lparr>jp_cookie = 0x9000000000, jp_slack = TimerSlack_none\<rparr>"
    by (simp add: p_def AddBasicPolicy_def CreateRootPolicy_def jp_example_def jp_eval)
  have b: "list_all valid_entry jp_example" by (simp add: jp_example_simps)
  have c: "QueryBasicPolicyOverride ZX_POL_NEW_FIFO p = ZX_POL_OVERRIDE_DENY"
    "QueryBasicPolicy ZX_POL_NEW_FIFO p = ZX_POL_ACTION_DENY"
    by (simp_all add: p QueryBasicPolicyOverride_def QueryBasicPolicy_def jp_eval)
  have f: "FieldSelector ZX_POL_NEW_FIFO = Some new_fifo" by (simp add: FieldSelector_simps)
  show ?thesis
    using job_policy_lock_respected [OF b c(1) f, of ZX_JOB_POL_RELATIVE] b c
    by (simp add: Let_def flip: p_def)
qed


text \<open>
  \<^verbatim>\<open>ZX_POL_NEW_PROCESS\<close> and \<^verbatim>\<open>ZX_POL_NEW_PROFILE\<close> are one condition: their selectors
  name the same field, so every policy answers both alike, and an absolute call that denies the
  first and allows the second succeeds and leaves process creation allowed.
\<close>

lemma new_process_shares_profile:
  "QueryBasicPolicy ZX_POL_NEW_PROCESS p = QueryBasicPolicy ZX_POL_NEW_PROFILE p
   \<and> (let r = AddBasicPolicy ZX_JOB_POL_ABSOLUTE
         [\<lparr>v2_condition = ZX_POL_NEW_PROCESS, v2_action = ZX_POL_ACTION_DENY,
           v2_flags = ZX_POL_OVERRIDE_ALLOW\<rparr>,
          \<lparr>v2_condition = ZX_POL_NEW_PROFILE, v2_action = ZX_POL_ACTION_ALLOW,
           v2_flags = ZX_POL_OVERRIDE_ALLOW\<rparr>] CreateRootPolicy
      in fst r = ZX_OK \<and> QueryBasicPolicy ZX_POL_NEW_PROCESS (snd r) = ZX_POL_ACTION_ALLOW)"
  by (simp add: Let_def AddBasicPolicy_def CreateRootPolicy_def QueryBasicPolicy_def jp_eval)


section \<open>Errors\<close>

text \<open>What the code validates of an entry: the flags only when the condition is a single one.\<close>

definition entry_accepted :: "zx_policy_basic_v2 \<Rightarrow> bool" where
  "entry_accepted i \<longleftrightarrow> v2_action i < ZX_POL_ACTION_MAX
     \<and> (v2_condition i = ZX_POL_NEW_ANY
        \<or> FieldSelector (v2_condition i) \<noteq> None \<and> v2_flags i \<le> ZX_POL_OVERRIDE_DENY)"

definition entry_error :: "u32 \<Rightarrow> zx_policy_basic_v2 list \<Rightarrow> zx_status \<Rightarrow> bool" where
  "entry_error mode es r \<longleftrightarrow>
     r = ZX_ERR_NOT_SUPPORTED \<and> (\<exists>i\<in>set es. v2_action i \<ge> ZX_POL_ACTION_MAX)
     \<or> r = ZX_ERR_INVALID_ARGS \<and> (\<exists>i\<in>set es. v2_condition i \<noteq> ZX_POL_NEW_ANY
          \<and> (FieldSelector (v2_condition i) = None \<or> v2_flags i > ZX_POL_OVERRIDE_DENY))
     \<or> r = ZX_ERR_ALREADY_EXISTS \<and> mode = ZX_JOB_POL_ABSOLUTE"

lemma entry_error_not_ok [simp]: "\<not> entry_error mode es ZX_OK"
  by (simp add: entry_error_def)

lemma AddPartial_cases:
  "fst (AddPartial mode c a ov v) = ZX_OK \<and> a < ZX_POL_ACTION_MAX \<and> FieldSelector c \<noteq> None \<and> ov \<le> ZX_POL_OVERRIDE_DENY
   \<or> fst (AddPartial mode c a ov v) = ZX_ERR_NOT_SUPPORTED \<and> a \<ge> ZX_POL_ACTION_MAX
   \<or> fst (AddPartial mode c a ov v) = ZX_ERR_INVALID_ARGS \<and> a < ZX_POL_ACTION_MAX
       \<and> (FieldSelector c = None \<or> ov > ZX_POL_OVERRIDE_DENY)
   \<or> fst (AddPartial mode c a ov v) = ZX_ERR_ALREADY_EXISTS \<and> a < ZX_POL_ACTION_MAX \<and> mode = ZX_JOB_POL_ABSOLUTE"
  by (cases "FieldSelector c") (simp_all add: AddPartial_def not_le not_less linorder_not_less)

lemma add_new_any_cases:
  "conds \<noteq> [] \<Longrightarrow> list_all (\<lambda>c. FieldSelector c \<noteq> None) conds \<Longrightarrow>
   fst (add_new_any mode a conds v) = ZX_OK \<and> a < ZX_POL_ACTION_MAX
   \<or> fst (add_new_any mode a conds v) = ZX_ERR_NOT_SUPPORTED \<and> a \<ge> ZX_POL_ACTION_MAX
   \<or> fst (add_new_any mode a conds v) = ZX_ERR_ALREADY_EXISTS \<and> mode = ZX_JOB_POL_ABSOLUTE"
proof (induction conds arbitrary: v)
  case (Cons c conds)
  obtain r v' where step: "AddPartial mode c a ZX_POL_OVERRIDE_ALLOW v = (r, v')"
    by (cases "AddPartial mode c a ZX_POL_OVERRIDE_ALLOW v")
  have "\<not> ZX_POL_OVERRIDE_DENY < ZX_POL_OVERRIDE_ALLOW" by (simp add: zx_defs)
  then have r: "r = ZX_OK \<and> a < ZX_POL_ACTION_MAX \<or> r = ZX_ERR_NOT_SUPPORTED \<and> a \<ge> ZX_POL_ACTION_MAX
      \<or> r = ZX_ERR_ALREADY_EXISTS \<and> mode = ZX_JOB_POL_ABSOLUTE"
    using AddPartial_cases [of mode c a ZX_POL_OVERRIDE_ALLOW v] Cons.prems(2) step by auto
  show ?case
  proof (cases conds)
    case Nil
    then show ?thesis using r step by auto
  next
    case (Cons d ds)
    then have "conds \<noteq> []" "list_all (\<lambda>c. FieldSelector c \<noteq> None) conds" using Cons.prems by auto
    from Cons.IH [OF this, of v'] r step show ?thesis by auto
  qed
qed simp

lemma new_objects_selected: "list_all (\<lambda>c. FieldSelector c \<noteq> None) kNewObjectPolicies"
  by (simp add: kNewObjectPolicies_def FieldSelector_simps)

lemma set_new_any_ok: "fst (set_new_any ov kNewObjectPolicies v) = ZX_OK"
proof -
  have g: "list_all (\<lambda>c. FieldSelector c \<noteq> None) conds \<Longrightarrow> fst (set_new_any ov conds v) = ZX_OK" for conds
    by (induction conds arbitrary: v) (auto simp: SetOverride_def)
  show ?thesis by (rule g [OF new_objects_selected])
qed

lemma add_entries_cases:
  "fst (add_entries mode es v n) = ZX_OK \<and> list_all entry_accepted es
   \<or> entry_error mode es (fst (add_entries mode es v n))"
proof (induction es arbitrary: v n)
  case (Cons i es)
  define r where "r = (if v2_condition i = ZX_POL_NEW_ANY
    then add_new_any mode (v2_action i) kNewObjectPolicies v
    else AddPartial mode (v2_condition i) (v2_action i) (v2_flags i) v)"
  have mono: "entry_error mode es x \<Longrightarrow> entry_error mode (i # es) x" for x
    by (auto simp: entry_error_def)
  have one: "fst r = ZX_OK \<and> entry_accepted i \<or> entry_error mode (i # es) (fst r)"
    using add_new_any_cases [OF _ new_objects_selected, of mode "v2_action i" v]
      AddPartial_cases [of mode "v2_condition i" "v2_action i" "v2_flags i" v]
    by (cases "v2_condition i = ZX_POL_NEW_ANY")
      (auto simp: r_def entry_accepted_def entry_error_def kNewObjectPolicies_def)
  have ok: "entry_accepted i" if "fst r = ZX_OK" using one that by auto
  have eq: "add_entries mode (i # es) v n = (if fst r \<noteq> ZX_OK then (fst r, snd r, n)
      else add_entries mode es (snd r) (if v2_condition i = ZX_POL_NEW_ANY then Some (v2_flags i) else n))"
    by (simp add: r_def case_prod_unfold Let_def)
  show ?case
  proof (cases "fst r = ZX_OK")
    case True
    show ?thesis
      unfolding eq using Cons.IH [of "snd r" "if v2_condition i = ZX_POL_NEW_ANY then Some (v2_flags i) else n"]
        ok [OF True] mono True by (elim disjE) simp_all
  next
    case False
    then show ?thesis unfolding eq using one by simp
  qed
qed simp

lemma AddBasicPolicy_outcome:
  "let (r, p') = AddBasicPolicy mode es p in
     r = ZX_OK \<and> length es \<le> ZX_POL_MAX \<and> list_all entry_accepted es \<and> jp_slack p' = jp_slack p
     \<or> p' = p \<and> (r = ZX_ERR_OUT_OF_RANGE \<and> length es > ZX_POL_MAX \<or> entry_error mode es r)"
proof (cases "length es > ZX_POL_MAX")
  case False
  obtain r v n where e: "add_entries mode es (jp_cookie p) None = (r, v, n)"
    by (metis prod_cases3)
  show ?thesis
  proof (cases n)
    case None
    then show ?thesis using add_entries_cases [of mode es "jp_cookie p" None] e False
      by (auto simp: AddBasicPolicy_def)
  next
    case (Some ov)
    then show ?thesis
      using add_entries_cases [of mode es "jp_cookie p" None] e False set_new_any_ok [of ov v]
      by (cases "set_new_any ov kNewObjectPolicies v") (auto simp: AddBasicPolicy_def)
  qed
qed (simp add: AddBasicPolicy_def)


section \<open>Enforcement\<close>

text \<open>
  The policies a job can have: the root's, copies for children, and the results of calls whose
  \<^verbatim>\<open>ZX_POL_NEW_ANY\<close> entries carry a documented flag; the timer slack may change at any time.
\<close>

inductive policy_reachable :: "job_policy \<Rightarrow> bool" where
  root: "policy_reachable CreateRootPolicy"
| copy: "policy_reachable p \<Longrightarrow> policy_reachable (JobPolicy_copy p)"
| slack: "policy_reachable p \<Longrightarrow> policy_reachable (SetTimerSlack s p)"
| add: "policy_reachable p \<Longrightarrow> list_all (\<lambda>i. v2_flags i \<le> ZX_POL_OVERRIDE_DENY) es \<Longrightarrow>
        policy_reachable (snd (AddBasicPolicy mode es p))"

definition actions_known :: "policy_table \<Rightarrow> bool" where
  "actions_known T \<longleftrightarrow> (\<forall>f. fst (T f) < 5)"

lemma ucast_action_less: "(a :: u32) < 5 \<Longrightarrow> (ucast a :: u64) < 5"
  using unsigned_less [of a, where 'a = nat]
  by (simp add: word_less_nat_alt unsigned_ucast_eq take_bit_nat_eq_self)

lemma table_entries_known:
  "table_entries strict es T any = Some (T', any') \<Longrightarrow> actions_known T \<Longrightarrow>
   list_all valid_entry es \<Longrightarrow> actions_known T'"
proof (induction es arbitrary: T any)
  case (Cons i es)
  have a: "(ucast (v2_action i) :: u64) < 5"
    using Cons.prems(3) by (intro ucast_action_less) (simp add: valid_entry_def zx_defs)
  have one: "actions_known U" if "table_entry strict f (ucast (v2_action i)) l T = Some U" for f l U
    using that Cons.prems(2) a by (auto simp: table_entry_def actions_known_def split: if_splits)
  have all: "actions_known U" if "table_any strict F (ucast (v2_action i)) T = Some U" for F U
    using that Cons.prems(2) a by (auto simp: table_any_def actions_known_def split: if_splits)
  show ?case using Cons.prems Cons.IH one all by (auto split: if_splits option.splits)
qed simp

lemma table_add_known:
  "table_add strict es T = Some T' \<Longrightarrow> actions_known T \<Longrightarrow> list_all valid_entry es \<Longrightarrow> actions_known T'"
  using table_entries_known [of strict es T None]
  by (fastforce simp: table_add_def table_lock_def actions_known_def split: option.splits if_splits)

lemma AddBasicPolicy_known:
  assumes "actions_known (policy_table (jp_cookie p))"
    "list_all (\<lambda>i. v2_flags i \<le> ZX_POL_OVERRIDE_DENY) es"
  shows "actions_known (policy_table (jp_cookie (snd (AddBasicPolicy mode es p))))"
proof (cases "length es \<le> ZX_POL_MAX \<and> list_all valid_entry es")
  case True
  then show ?thesis
    using AddBasicPolicy_table [of es mode p] table_add_known [OF _ assms(1)] assms(1)
    by (cases "table_add (mode = ZX_JOB_POL_ABSOLUTE) es (policy_table (jp_cookie p))") auto
next
  case False
  then have "\<not> (length es \<le> ZX_POL_MAX \<and> list_all entry_accepted es)"
    using assms(2) by (auto simp: list_all_iff entry_accepted_def valid_entry_def)
  then have "snd (AddBasicPolicy mode es p) = p"
    using AddBasicPolicy_outcome [of mode es p] by auto
  then show ?thesis using assms(1) by simp
qed

lemma policy_reachable_known: "policy_reachable p \<Longrightarrow> actions_known (policy_table (jp_cookie p))"
proof (induction rule: policy_reachable.induct)
  case root
  show ?case by (simp add: actions_known_def policy_table_def CreateRootPolicy_def Action_of_def field_read_def)
qed (simp_all add: JobPolicy_copy_def SetTimerSlack_def AddBasicPolicy_known)

lemma QueryBasicPolicy_known:
  assumes "actions_known (policy_table (jp_cookie p))"
  shows "QueryBasicPolicy c p \<in> {0, 1, 2, 3, 4}"
proof -
  have "GetAction (jp_cookie p) c < 5"
    using assms by (cases "FieldSelector c")
      (simp_all add: GetAction_def actions_known_def policy_table_def zx_defs)
  then have lt: "unat (GetAction (jp_cookie p) c) < 5" by (simp add: word_less_nat_alt)
  then have "unat (QueryBasicPolicy c p) < 5"
    by (simp add: QueryBasicPolicy_def unsigned_ucast_eq take_bit_nat_eq_self)
  then have "unat (QueryBasicPolicy c p) \<in> {0, 1, 2, 3, 4}" by auto
  then show ?thesis by (simp add: word_unat_eq_iff)
qed



section \<open>Setting the policy of a job\<close>

text \<open>
  A job's policy is fixed while it has processes or child jobs, and its timer slack
  only grows: both setters then return \<^verbatim>\<open>ZX_ERR_BAD_STATE\<close> and change nothing, and in every case the
  minimum slack after a call is at least the one before.
\<close>

lemma job_policy_frozen_and_slack_grows:
  "(CanSetPolicy j \<or> SetBasicPolicy mode es j = (ZX_ERR_BAD_STATE, j)
       \<and> SetTimerSlackPolicy amount m j = (ZX_ERR_BAD_STATE, j))
   \<and> sint (ts_amount (GetTimerSlack (js_policy j)))
      \<le> sint (ts_amount (GetTimerSlack (js_policy (snd (SetTimerSlackPolicy amount m j)))))
   \<and> GetTimerSlack (js_policy (snd (SetBasicPolicy mode es j))) = GetTimerSlack (js_policy j)"
  using AddBasicPolicy_outcome [of mode es "js_policy j"]
  by (auto simp: SetBasicPolicy_def SetTimerSlackPolicy_def SetTimerSlack_def GetTimerSlack_def Let_def
      split: option.splits prod.splits)

end
