(* ===== verification/Handle_Table.thy ===== *)
theory Handle_Table
  imports Peered Job_Policy
begin

text \<open>
  Handles (\<^verbatim>\<open>object/handle.cc\<close>), the arena their slots come from (\<^verbatim>\<open>fbl/gparena.h\<close>) and the handle
  table of a process (\<^verbatim>\<open>object/process_dispatcher.cc\<close>). A handle is the slot it occupies; its
  fields stay in the slot when it is freed, which is how a slot remembers the generation of its
  last use. The state joins the slots, the objects (a \<open>peered_sys\<close>) and the tables and policies of
  the processes.

  The compare-and-exchange loops of the arena are the atomic step in which they succeed. What a
  class does when its last handle is closed (\<^verbatim>\<open>on_zero_handles\<close>) is a parameter with its contract
  as the locale \<open>zero_handles_hook\<close>; \<^verbatim>\<open>set_owner\<close>, which only channels override, and the handle
  cursors of \<^verbatim>\<open>zx_object_get_info\<close> are left out.
\<close>

unbundle bit_operations_syntax

section \<open>Masks\<close>

definition kMaxHandleCount :: nat where "kMaxHandleCount = 256 * 1024"
definition kHandleReservedBits :: nat where "kHandleReservedBits = 2"
definition kHandleIndexMask :: u32 where "kHandleIndexMask = word_of_nat kMaxHandleCount - 1"
definition kHandleReservedBitsMask :: u32 where
  "kHandleReservedBitsMask = push_bit (32 - kHandleReservedBits) (push_bit kHandleReservedBits 1 - 1)"
definition kHandleGenerationMask :: u32 where
  "kHandleGenerationMask = NOT kHandleIndexMask AND NOT kHandleReservedBitsMask"
definition kHandleGenerationShift :: nat where "kHandleGenerationShift = 18"
definition kHandleMustBeOneMask :: u32 where
  "kHandleMustBeOneMask = push_bit kHandleReservedBits 1 - 1"
definition ZX_KOID_INVALID :: koid where "ZX_KOID_INVALID = 0"
definition ZX_HANDLE_INVALID :: u32 where "ZX_HANDLE_INVALID = 0"

section \<open>State\<close>

record handle =
  hd_process_id :: koid
  hd_dispatcher :: "koid option"
  hd_rights :: zx_rights
  hd_base_value :: u32

text \<open>The arena: the slots below \<open>ha_top\<close> have been handed out once; \<open>ha_free\<close> is the free list.\<close>

record handle_arena =
  ha_slots :: "nat \<Rightarrow> handle"
  ha_free :: "nat list"
  ha_top :: nat
  ha_count :: int

record process_handles =
  ph_rand :: u32
  ph_handles :: "nat list"
  ph_policy :: job_policy
  ph_effects :: policy_effects

record handle_world =
  hw_sys :: peered_sys
  hw_arena :: handle_arena
  hw_procs :: "koid \<Rightarrow> process_handles"
  hw_live :: int

abbreviation slot :: "handle_world \<Rightarrow> nat \<Rightarrow> handle" where
  "slot w i \<equiv> ha_slots (hw_arena w) i"

definition upd_slot :: "nat \<Rightarrow> (handle \<Rightarrow> handle) \<Rightarrow> handle_world \<Rightarrow> handle_world" where
  "upd_slot i f w = w\<lparr>hw_arena := (hw_arena w)\<lparr>ha_slots := (ha_slots (hw_arena w))(i := f (slot w i))\<rparr>\<rparr>"

definition upd_proc :: "koid \<Rightarrow> (process_handles \<Rightarrow> process_handles) \<Rightarrow> handle_world \<Rightarrow> handle_world" where
  "upd_proc p f w = w\<lparr>hw_procs := (hw_procs w)(p := f (hw_procs w p))\<rparr>"

definition upd_ko :: "(kobj_world \<Rightarrow> kobj_world) \<Rightarrow> handle_world \<Rightarrow> handle_world" where
  "upd_ko f w = w\<lparr>hw_sys := (hw_sys w)\<lparr>pd_ko := f (pd_ko (hw_sys w))\<rparr>\<rparr>"

section \<open>The arena\<close>

text \<open>\<open>grow_ok\<close> says whether the memory of a new slot is committed or can be.\<close>

definition GPArena_Alloc :: "bool \<Rightarrow> handle_arena \<Rightarrow> nat option \<times> handle_arena" where
  "GPArena_Alloc grow_ok a =
     (case ha_free a of
        i # rest \<Rightarrow> (Some i, a\<lparr>ha_free := rest, ha_count := ha_count a + 1\<rparr>)
      | [] \<Rightarrow> if ha_top a < kMaxHandleCount \<and> grow_ok
              then (Some (ha_top a), a\<lparr>ha_top := ha_top a + 1, ha_count := ha_count a + 1\<rparr>)
              else (None, a))"

definition GPArena_Free :: "nat \<Rightarrow> handle_arena \<Rightarrow> handle_arena" where
  "GPArena_Free i a = a\<lparr>ha_free := i # ha_free a, ha_count := ha_count a - 1\<rparr>"

definition GPArena_Committed :: "nat \<Rightarrow> handle_arena \<Rightarrow> bool" where
  "GPArena_Committed i a \<longleftrightarrow> i < ha_top a"

section \<open>Handles\<close>

definition GetNewBaseValue :: "nat \<Rightarrow> u32 \<Rightarrow> u32" where
  "GetNewBaseValue i v =
     (let handle_index = word_of_nat i;
          old_gen = (if v \<noteq> 0 then drop_bit kHandleGenerationShift (v AND kHandleGenerationMask) else 0);
          new_gen = push_bit kHandleGenerationShift (old_gen + 1) AND kHandleGenerationMask
      in handle_index OR new_gen)"

definition Handle_Alloc :: "bool \<Rightarrow> koid \<Rightarrow> handle_world \<Rightarrow> (nat \<times> u32) option \<times> handle_world" where
  "Handle_Alloc grow_ok k w =
     (let (addr, a) = GPArena_Alloc grow_ok (hw_arena w) in
      case addr of
        None \<Rightarrow> (None, w\<lparr>hw_arena := a\<rparr>)
      | Some i \<Rightarrow> (Some (i, GetNewBaseValue i (hd_base_value (ha_slots a i))),
                   upd_ko (increment_handle_count k) (w\<lparr>hw_arena := a\<rparr>)))"

definition new_handle :: "koid option \<Rightarrow> zx_rights \<Rightarrow> u32 \<Rightarrow> handle" where
  "new_handle k rights base_value =
     \<lparr>hd_process_id = ZX_KOID_INVALID, hd_dispatcher = k, hd_rights = rights, hd_base_value = base_value\<rparr>"

definition Handle_Make :: "bool \<Rightarrow> koid \<Rightarrow> zx_rights \<Rightarrow> handle_world \<Rightarrow> nat option \<times> handle_world" where
  "Handle_Make grow_ok k rights w =
     (let (addr, w1) = Handle_Alloc grow_ok k w in
      case addr of
        None \<Rightarrow> (None, w1)
      | Some (i, base_value) \<Rightarrow>
          (Some i, upd_slot i (\<lambda>_. new_handle (Some k) rights base_value) (w1\<lparr>hw_live := hw_live w1 + 1\<rparr>)))"

text \<open>\<open>Dup\<close> is called with a live source, whose dispatcher is set.\<close>

definition Handle_Dup :: "bool \<Rightarrow> nat \<Rightarrow> zx_rights \<Rightarrow> handle_world \<Rightarrow> nat option \<times> handle_world" where
  "Handle_Dup grow_ok source rights w =
     (let (addr, w1) = Handle_Alloc grow_ok (the (hd_dispatcher (slot w source))) w in
      case addr of
        None \<Rightarrow> (None, w1)
      | Some (i, base_value) \<Rightarrow>
          (Some i, upd_slot i (\<lambda>_. new_handle (hd_dispatcher (slot w1 source)) rights base_value)
             (w1\<lparr>hw_live := hw_live w1 + 1\<rparr>)))"

definition TearDown :: "nat \<Rightarrow> handle_world \<Rightarrow> handle_world" where
  "TearDown i = upd_slot i (\<lambda>h. h\<lparr>hd_dispatcher := None\<rparr>)"

definition Handle_Delete :: "(koid \<Rightarrow> peered_sys \<Rightarrow> peered_sys) \<Rightarrow> nat \<Rightarrow> handle_world \<Rightarrow> handle_world" where
  "Handle_Delete on_zero_handles i w =
     (let k = the (hd_dispatcher (slot w i));
          w1 = (if obj_waitable (kw_objs (pd_ko (hw_sys w)) k) then upd_ko (Dispatcher_Cancel k i) w else w);
          w2 = TearDown i w1;
          (zero_handles, ko) = decrement_handle_count k (pd_ko (hw_sys w2));
          w3 = upd_ko (\<lambda>_. ko) w2;
          w4 = w3\<lparr>hw_arena := GPArena_Free i (hw_arena w3)\<rparr>;
          w5 = (if zero_handles then w4\<lparr>hw_sys := on_zero_handles k (hw_sys w4)\<rparr> else w4)
      in w5\<lparr>hw_live := hw_live w5 - 1\<rparr>)"

definition HasRights :: "zx_rights \<Rightarrow> handle \<Rightarrow> bool" where
  "HasRights desired h \<longleftrightarrow> hd_rights h AND desired = desired"

definition FromU32 :: "u32 \<Rightarrow> handle_world \<Rightarrow> nat option" where
  "FromU32 v w =
     (let i = unat (v AND kHandleIndexMask) in
      if \<not> GPArena_Committed i (hw_arena w) then None
      else if hd_base_value (slot w i) = v then Some i else None)"

definition Handle_Count :: "koid \<Rightarrow> handle_world \<Rightarrow> int" where
  "Handle_Count k w = obj_handle_count (kw_objs (pd_ko (hw_sys w)) k)"

section \<open>The table of a process\<close>

definition map_handle_to_value :: "nat \<Rightarrow> u32 \<Rightarrow> handle_world \<Rightarrow> u32" where
  "map_handle_to_value i mixer w =
     mixer XOR (push_bit kHandleReservedBits (hd_base_value (slot w i)) OR kHandleMustBeOneMask)"

definition map_value_to_handle :: "u32 \<Rightarrow> u32 \<Rightarrow> handle_world \<Rightarrow> nat option" where
  "map_value_to_handle v mixer w =
     (if v AND kHandleMustBeOneMask \<noteq> kHandleMustBeOneMask then None
      else FromU32 (drop_bit kHandleReservedBits (v XOR mixer)) w)"

definition MapHandleToValue :: "koid \<Rightarrow> nat \<Rightarrow> handle_world \<Rightarrow> u32" where
  "MapHandleToValue p i w = map_handle_to_value i (ph_rand (hw_procs w p)) w"

text \<open>A new process: the mask that hides the base values is drawn from the random generator.\<close>

definition Process_init :: "koid \<Rightarrow> u32 \<Rightarrow> job_policy \<Rightarrow> policy_effects \<Rightarrow> handle_world \<Rightarrow> handle_world" where
  "Process_init p secret policy e =
     upd_proc p (\<lambda>_. \<lparr>ph_rand = push_bit kHandleReservedBits secret, ph_handles = [],
                      ph_policy = policy, ph_effects = e\<rparr>)"

text \<open>A failed lookup is reported to the job policy; \<open>None\<close> is the panic of its enforcement.\<close>

definition GetHandleLocked :: "bool \<Rightarrow> koid \<Rightarrow> u32 \<Rightarrow> handle_world \<Rightarrow> (nat option \<times> handle_world) option" where
  "GetHandleLocked skip_policy p v w =
     (let found = map_value_to_handle v (ph_rand (hw_procs w p)) w;
          failed = (if skip_policy then Some (None, w)
                    else case EnforceBasicPolicy (ph_policy (hw_procs w p)) ZX_POL_BAD_HANDLE
                                (ph_effects (hw_procs w p)) of
                           None \<Rightarrow> None
                         | Some (_, e) \<Rightarrow> Some (None, upd_proc p (\<lambda>pr. pr\<lparr>ph_effects := e\<rparr>) w))
      in case found of
           Some i \<Rightarrow> if hd_process_id (slot w i) = p then Some (Some i, w) else failed
         | None \<Rightarrow> failed)"

definition set_process_id :: "koid \<Rightarrow> nat \<Rightarrow> handle_world \<Rightarrow> handle_world" where
  "set_process_id pid i = upd_slot i (\<lambda>h. h\<lparr>hd_process_id := pid\<rparr>)"

definition AddHandleLocked :: "koid \<Rightarrow> nat \<Rightarrow> handle_world \<Rightarrow> handle_world" where
  "AddHandleLocked p i w =
     upd_proc p (\<lambda>pr. pr\<lparr>ph_handles := i # ph_handles pr\<rparr>) (set_process_id p i w)"

definition RemoveHandleLocked :: "koid \<Rightarrow> nat \<Rightarrow> handle_world \<Rightarrow> handle_world" where
  "RemoveHandleLocked p i w =
     upd_proc p (\<lambda>pr. pr\<lparr>ph_handles := remove1 i (ph_handles pr)\<rparr>) (set_process_id ZX_KOID_INVALID i w)"

definition RemoveHandle :: "koid \<Rightarrow> u32 \<Rightarrow> handle_world \<Rightarrow> (nat option \<times> handle_world) option" where
  "RemoveHandle p v w =
     (case GetHandleLocked False p v w of
        None \<Rightarrow> None
      | Some (None, w1) \<Rightarrow> Some (None, w1)
      | Some (Some i, w1) \<Rightarrow> Some (Some i, RemoveHandleLocked p i w1))"

text \<open>Each owner returned to the loop goes out of scope at the end of its round.\<close>

fun RemoveHandles_loop ::
    "(koid \<Rightarrow> peered_sys \<Rightarrow> peered_sys) \<Rightarrow> koid \<Rightarrow> u32 list \<Rightarrow> zx_status \<Rightarrow> handle_world \<Rightarrow> (zx_status \<times> handle_world) option" where
  "RemoveHandles_loop zero p [] status w = Some (status, w)"
| "RemoveHandles_loop zero p (v # vs) status w =
     (if v = ZX_HANDLE_INVALID then RemoveHandles_loop zero p vs status w
      else case RemoveHandle p v w of
             None \<Rightarrow> None
           | Some (None, w1) \<Rightarrow> RemoveHandles_loop zero p vs ZX_ERR_BAD_HANDLE w1
           | Some (Some i, w1) \<Rightarrow> RemoveHandles_loop zero p vs status (Handle_Delete zero i w1))"

definition RemoveHandles ::
    "(koid \<Rightarrow> peered_sys \<Rightarrow> peered_sys) \<Rightarrow> koid \<Rightarrow> u32 list \<Rightarrow> handle_world \<Rightarrow> (zx_status \<times> handle_world) option" where
  "RemoveHandles zero p vs w = RemoveHandles_loop zero p vs ZX_OK w"

definition GetKoidForHandle :: "koid \<Rightarrow> u32 \<Rightarrow> handle_world \<Rightarrow> (koid \<times> handle_world) option" where
  "GetKoidForHandle p v w =
     (case GetHandleLocked False p v w of
        None \<Rightarrow> None
      | Some (None, w1) \<Rightarrow> Some (ZX_KOID_INVALID, w1)
      | Some (Some i, w1) \<Rightarrow> Some (the (hd_dispatcher (slot w1 i)), w1))"

definition GetDispatcherInternal ::
    "koid \<Rightarrow> u32 \<Rightarrow> handle_world \<Rightarrow> ((zx_status \<times> (koid \<times> zx_rights) option) \<times> handle_world) option" where
  "GetDispatcherInternal p v w =
     (case GetHandleLocked False p v w of
        None \<Rightarrow> None
      | Some (None, w1) \<Rightarrow> Some ((ZX_ERR_BAD_HANDLE, None), w1)
      | Some (Some i, w1) \<Rightarrow>
          Some ((ZX_OK, Some (the (hd_dispatcher (slot w1 i)), hd_rights (slot w1 i))), w1))"

text \<open>\<open>is_type\<close> is the class test of the downcast.\<close>

definition GetDispatcherWithRightsImpl ::
    "(koid \<Rightarrow> bool) \<Rightarrow> koid \<Rightarrow> u32 \<Rightarrow> zx_rights \<Rightarrow> bool \<Rightarrow> handle_world \<Rightarrow>
     ((zx_status \<times> (koid \<times> zx_rights) option) \<times> handle_world) option" where
  "GetDispatcherWithRightsImpl is_type p v desired_rights skip_policy w =
     (case GetHandleLocked skip_policy p v w of
        None \<Rightarrow> None
      | Some (None, w1) \<Rightarrow> Some ((ZX_ERR_BAD_HANDLE, None), w1)
      | Some (Some i, w1) \<Rightarrow>
          (let has_desired_rights = HasRights desired_rights (slot w1 i);
               rights = hd_rights (slot w1 i);
               k = the (hd_dispatcher (slot w1 i))
           in if \<not> is_type k then Some ((ZX_ERR_WRONG_TYPE, None), w1)
              else if \<not> has_desired_rights then Some ((ZX_ERR_ACCESS_DENIED, None), w1)
              else Some ((ZX_OK, Some (k, rights)), w1)))"

text \<open>The part of the transition to the dead state that empties the table.\<close>

fun delete_all :: "(koid \<Rightarrow> peered_sys \<Rightarrow> peered_sys) \<Rightarrow> nat list \<Rightarrow> handle_world \<Rightarrow> handle_world" where
  "delete_all zero [] w = w"
| "delete_all zero (i # to_clean) w = delete_all zero to_clean (Handle_Delete zero i w)"

definition clean_handle_table :: "(koid \<Rightarrow> peered_sys \<Rightarrow> peered_sys) \<Rightarrow> koid \<Rightarrow> handle_world \<Rightarrow> handle_world" where
  "clean_handle_table zero p w =
     (let to_clean = ph_handles (hw_procs w p);
          w1 = fold (set_process_id ZX_KOID_INVALID) to_clean w
      in delete_all zero to_clean (upd_proc p (\<lambda>pr. pr\<lparr>ph_handles := []\<rparr>) w1))"

section \<open>Base values and handle values\<close>

lemma handle_masks:
  "kHandleIndexMask = mask 18" "kHandleGenerationMask = push_bit 18 (mask 12)" "kHandleMustBeOneMask = mask 2"
  "kHandleGenerationShift = 18" "kHandleReservedBits = 2" "kMaxHandleCount = 2 ^ 18"
  by (simp_all add: kHandleIndexMask_def kMaxHandleCount_def kHandleGenerationMask_def kHandleReservedBitsMask_def
      kHandleReservedBits_def kHandleMustBeOneMask_def kHandleGenerationShift_def mask_eq_exp_minus_1)

text \<open>A base value of slot \<open>i\<close>: the index below, the generation above, the reserved bits clear.\<close>

definition base_of :: "nat \<Rightarrow> u32 \<Rightarrow> bool" where
  "base_of i v \<longleftrightarrow> take_bit 18 v = word_of_nat i \<and> take_bit 30 v = v"

lemma GetNewBaseValue_parts:
  assumes i: "i < kMaxHandleCount" and v: "take_bit 30 v = v"
  shows "take_bit 18 (GetNewBaseValue i v) = word_of_nat i"
    and "take_bit 30 (GetNewBaseValue i v) = GetNewBaseValue i v"
    and "drop_bit 18 (GetNewBaseValue i v) = take_bit 12 (drop_bit 18 v + 1)"
proof -
  have g: "(if v \<noteq> 0 then drop_bit 18 (v AND push_bit 18 (mask 12)) else 0) = drop_bit 18 v"
  proof -
    have "drop_bit 18 (v AND push_bit 18 (mask 12)) = drop_bit 18 (take_bit 30 v)"
      by (rule bit_word_eqI) (auto simp: bit_simps)
    then show ?thesis using v by simp
  qed
  define d where "d = drop_bit 18 v + 1"
  have n: "GetNewBaseValue i v = word_of_nat i OR (push_bit 18 d AND push_bit 18 (mask 12))"
    unfolding GetNewBaseValue_def Let_def handle_masks g d_def by simp
  have ib: "bit (word_of_nat i :: u32) m \<longleftrightarrow> bit i m \<and> m < 18" for m
  proof -
    have "take_bit 18 i = i" using i by (simp add: handle_masks take_bit_nat_eq_self_iff)
    then have "bit i m \<Longrightarrow> m < 18" by (metis bit_take_bit_iff)
    then show ?thesis by (auto simp: bit_simps)
  qed
  show "take_bit 18 (GetNewBaseValue i v) = word_of_nat i"
    unfolding n by (rule bit_word_eqI) (auto simp: bit_take_bit_iff bit_or_iff bit_and_iff bit_push_bit_iff ib)
  show "take_bit 30 (GetNewBaseValue i v) = GetNewBaseValue i v"
    unfolding n by (rule bit_word_eqI)
      (auto simp: bit_take_bit_iff bit_or_iff bit_and_iff bit_push_bit_iff bit_mask_iff ib)
  show "drop_bit 18 (GetNewBaseValue i v) = take_bit 12 (drop_bit 18 v + 1)"
    unfolding n d_def [symmetric] by (rule bit_word_eqI)
      (auto simp: bit_take_bit_iff bit_or_iff bit_and_iff bit_push_bit_iff bit_drop_bit_eq bit_mask_iff ib
        dest: bit_imp_le_length)
qed

lemma base_of_new: "i < kMaxHandleCount \<Longrightarrow> take_bit 30 v = v \<Longrightarrow> base_of i (GetNewBaseValue i v)"
  by (simp add: base_of_def GetNewBaseValue_parts)

lemma base_of_index:
  assumes "base_of i v" "i < kMaxHandleCount" shows "unat (v AND kHandleIndexMask) = i"
proof -
  have "v AND kHandleIndexMask = word_of_nat i"
    using assms(1) by (simp add: base_of_def handle_masks take_bit_eq_mask)
  then show ?thesis using assms(2) by (simp add: handle_masks unat_of_nat)
qed

text \<open>The mixing of a value is undone by the lookup, and nothing else maps to the same base value.\<close>

lemma value_of_base:
  assumes b: "take_bit 30 b = (b :: u32)" and m: "take_bit 2 mixer = 0"
  shows "v = mixer XOR (push_bit 2 b OR mask 2) \<longleftrightarrow> v AND mask 2 = mask 2 \<and> drop_bit 2 (v XOR mixer) = b"
    (is "v = ?v \<longleftrightarrow> _")
proof -
  have mb: "n < 2 \<Longrightarrow> \<not> bit mixer n" for n using m by (metis bit_0_eq bit_take_bit_iff bot_apply bot_bool_def)
  have bb: "bit b n \<Longrightarrow> n < 30" for n using b by (metis bit_take_bit_iff)
  have 1: "?v AND mask 2 = mask 2"
    by (rule bit_word_eqI) (auto simp: bit_simps mb)
  have 2: "drop_bit 2 (?v XOR mixer) = b"
    by (rule bit_word_eqI) (use bb in \<open>auto simp: bit_simps\<close>)
  have 3: "v = ?v" if "v AND mask 2 = mask 2" "drop_bit 2 (v XOR mixer) = b"
  proof (rule bit_word_eqI)
    fix n assume n: "n < LENGTH(32)"
    show "bit v n = bit ?v n"
    proof (cases "n < 2")
      case True
      have "bit (v AND mask 2) n" using True that(1) n by (simp add: bit_simps)
      then show ?thesis using True n mb by (simp add: bit_simps)
    next
      case False
      have "bit b (n - 2) = bit (drop_bit 2 (v XOR mixer)) (n - 2)" using that(2) by simp
      moreover have "Suc (Suc (n - 2)) = n" using False by simp
      ultimately show ?thesis using False n by (auto simp: bit_simps)
    qed
  qed
  show ?thesis using 1 2 3 by metis
qed

text \<open>
  The generation makes the base values of a slot run through all 4096 of them before one returns.
\<close>

lemma unat_take_bit_12: "unat (take_bit 12 (x :: u32)) = unat x mod 4096"
  by (simp add: take_bit_eq_mod unat_mod)

lemma take_bit_12_step: "take_bit 12 (take_bit 12 x + 1) = take_bit 12 (x + 1 :: u32)"
proof -
  have "unat (y + 1) mod 4096 = (unat y + 1) mod 4096" for y :: u32
    by (simp add: unat_word_ariths mod_mod_cancel)
  then show ?thesis by (simp only: word_unat_eq_iff unat_take_bit_12 mod_add_left_eq)
qed

lemma base_of_iterate:
  assumes i: "i < kMaxHandleCount" and v: "base_of i v"
  shows "base_of i ((GetNewBaseValue i ^^ n) v)
    \<and> drop_bit 18 ((GetNewBaseValue i ^^ n) v) = take_bit 12 (drop_bit 18 v + word_of_nat n)"
proof (induction n)
  case 0
  have "drop_bit 18 v = take_bit 12 (drop_bit 18 v)"
  proof (rule bit_word_eqI)
    fix n
    have "bit v m \<Longrightarrow> m < 30" for m using v by (metis base_of_def bit_take_bit_iff)
    from this [of "18 + n"] show "bit (drop_bit 18 v) n = bit (take_bit 12 (drop_bit 18 v)) n"
      by (auto simp: bit_simps)
  qed
  then show ?case using v by simp
next
  case (Suc n)
  let ?u = "(GetNewBaseValue i ^^ n) v"
  have u: "take_bit 30 ?u = ?u" using Suc by (simp add: base_of_def)
  have "take_bit 12 (take_bit 12 (drop_bit 18 v + word_of_nat n) + 1) = take_bit 12 (drop_bit 18 v + word_of_nat (Suc n))"
  proof -
    have "drop_bit 18 v + word_of_nat (Suc n) = drop_bit 18 v + word_of_nat n + 1" by (simp add: ac_simps)
    then show ?thesis by (simp only: take_bit_12_step)
  qed
  then show ?case
    using base_of_new [OF i u] GetNewBaseValue_parts(3) [OF i u] Suc by (simp only: funpow.simps comp_apply)
qed

lemma base_of_eqI:
  assumes "base_of i v" "base_of i u" "drop_bit 18 v = drop_bit 18 u" shows "v = u"
proof (rule bit_word_eqI)
  fix n
  have "bit (take_bit 18 v) n = bit (take_bit 18 u) n" using assms by (simp add: base_of_def)
  moreover have "bit (drop_bit 18 v) (n - 18) = bit (drop_bit 18 u) (n - 18)" using assms by simp
  ultimately show "bit v n = bit u n" by (cases "n < 18") (auto simp: bit_take_bit_iff bit_drop_bit_eq)
qed

lemma generation_period:
  assumes i: "i < kMaxHandleCount" and v: "base_of i v"
  shows "(GetNewBaseValue i ^^ n) v = v \<longleftrightarrow> 4096 dvd n"
proof -
  let ?u = "(GetNewBaseValue i ^^ n) v" and ?g = "drop_bit 18 v"
  have g: "take_bit 12 ?g = ?g" using base_of_iterate [OF i v, of 0] by simp
  have "?u = v \<longleftrightarrow> take_bit 12 (?g + word_of_nat n) = take_bit 12 ?g"
    using base_of_iterate [OF i v, of n] base_of_eqI [OF _ v, of ?u] g by auto
  also have "\<dots> \<longleftrightarrow> (unat ?g + n) mod 4096 = unat ?g mod 4096"
  proof -
    have "unat (?g + word_of_nat n) mod 4096 = (unat ?g + n) mod 4096"
      by (simp add: unat_word_ariths unat_of_nat mod_mod_cancel mod_add_right_eq)
    then show ?thesis by (simp only: word_unat_eq_iff unat_take_bit_12)
  qed
  also have "\<dots> \<longleftrightarrow> 4096 dvd n" by (metis add_diff_cancel_left' le_add1 mod_eq_dvd_iff_nat)
  finally show ?thesis .
qed

section \<open>Invariant\<close>

definition live_slots :: "handle_arena \<Rightarrow> nat set" where
  "live_slots a = {..<ha_top a} - set (ha_free a)"

definition arena_inv :: "handle_arena \<Rightarrow> bool" where
  "arena_inv a \<longleftrightarrow> distinct (ha_free a) \<and> set (ha_free a) \<subseteq> {..<ha_top a} \<and> ha_top a \<le> kMaxHandleCount
     \<and> ha_count a = int (card (live_slots a))
     \<and> (\<forall>i. i \<in> live_slots a \<longleftrightarrow> hd_dispatcher (ha_slots a i) \<noteq> None)
     \<and> (\<forall>i. hd_process_id (ha_slots a i) \<noteq> ZX_KOID_INVALID \<longrightarrow> i \<in> live_slots a)
     \<and> (\<forall>i. if i < ha_top a then base_of i (hd_base_value (ha_slots a i)) else hd_base_value (ha_slots a i) = 0)"

definition refs_to :: "koid \<Rightarrow> handle_arena \<Rightarrow> nat set" where
  "refs_to k a = {i. hd_dispatcher (ha_slots a i) = Some k}"

definition table_inv :: "handle_world \<Rightarrow> bool" where
  "table_inv w \<longleftrightarrow> (\<forall>p. take_bit 2 (ph_rand (hw_procs w p)) = 0 \<and> (p \<noteq> ZX_KOID_INVALID \<longrightarrow>
      distinct (ph_handles (hw_procs w p)) \<and> set (ph_handles (hw_procs w p)) = {i. hd_process_id (slot w i) = p}))"

definition handle_inv :: "handle_world \<Rightarrow> bool" where
  "handle_inv w \<longleftrightarrow> arena_inv (hw_arena w) \<and> table_inv w \<and> hw_live w = int (card (live_slots (hw_arena w)))
     \<and> (\<forall>k. Handle_Count k w = int (card (refs_to k (hw_arena w))))"

lemma finite_live [simp]: "finite (live_slots a)"
  by (simp add: live_slots_def)

lemma refs_to_live: "arena_inv a \<Longrightarrow> refs_to k a \<subseteq> live_slots a"
  by (auto simp: arena_inv_def refs_to_def)

lemma finite_refs: "arena_inv a \<Longrightarrow> finite (refs_to k a)"
  by (rule finite_subset [OF refs_to_live]) auto

section \<open>Allocation and destruction\<close>

lemma arena_inv_free_list:
  "arena_inv a \<Longrightarrow> distinct (ha_free a) \<and> set (ha_free a) \<subseteq> {..<ha_top a} \<and> ha_top a \<le> kMaxHandleCount"
  by (simp add: arena_inv_def)

lemma arena_inv_base:
  assumes "arena_inv a"
  shows "i < ha_top a \<Longrightarrow> base_of i (hd_base_value (ha_slots a i))"
    and "take_bit 30 (hd_base_value (ha_slots a i)) = hd_base_value (ha_slots a i)"
proof -
  have b: "if i < ha_top a then base_of i (hd_base_value (ha_slots a i)) else hd_base_value (ha_slots a i) = 0"
    using assms by (simp add: arena_inv_def)
  then show "i < ha_top a \<Longrightarrow> base_of i (hd_base_value (ha_slots a i))" by simp
  from b show "take_bit 30 (hd_base_value (ha_slots a i)) = hd_base_value (ha_slots a i)"
    by (cases "i < ha_top a") (simp_all add: base_of_def)
qed

lemma GPArena_Alloc_cases:
  assumes "arena_inv a"
  obtains (fail) "GPArena_Alloc g a = (None, a)"
  | (ok) i a' where "GPArena_Alloc g a = (Some i, a')" "i \<notin> live_slots a" "live_slots a' = insert i (live_slots a)"
      "i < ha_top a'" "ha_top a' \<le> kMaxHandleCount" "ha_slots a' = ha_slots a" "ha_count a' = ha_count a + 1"
      "distinct (ha_free a')" "set (ha_free a') \<subseteq> {..<ha_top a'}"
      "\<And>j. j \<noteq> i \<Longrightarrow> j < ha_top a' \<longleftrightarrow> j < ha_top a"
proof (cases "ha_free a")
  case (Cons i rest)
  show ?thesis
    by (rule ok [of i "a\<lparr>ha_free := rest, ha_count := ha_count a + 1\<rparr>"])
      (use arena_inv_free_list [OF assms] Cons in \<open>auto simp: GPArena_Alloc_def live_slots_def\<close>)
next
  case Nil
  show ?thesis
  proof (cases "ha_top a < kMaxHandleCount \<and> g")
    case True
    show ?thesis
      by (rule ok [of "ha_top a" "a\<lparr>ha_top := ha_top a + 1, ha_count := ha_count a + 1\<rparr>"])
        (use arena_inv_free_list [OF assms] Nil True in \<open>auto simp: GPArena_Alloc_def live_slots_def\<close>)
  next
    case False
    then show ?thesis using fail Nil by (auto simp: GPArena_Alloc_def)
  qed
qed

text \<open>A slot is filled: the arena after \<open>Make\<close>.\<close>

lemma arena_inv_fill:
  fixes k :: koid and r :: zx_rights
  assumes inv: "arena_inv a" and al: "GPArena_Alloc g a = (Some i, a')"
  defines "a2 \<equiv> a'\<lparr>ha_slots := (ha_slots a')(i := new_handle (Some k) r (GetNewBaseValue i (hd_base_value (ha_slots a' i))))\<rparr>"
  shows "arena_inv a2 \<and> i \<notin> live_slots a \<and> live_slots a2 = insert i (live_slots a)
    \<and> (\<forall>j. refs_to j a2 = (if j = k then insert i (refs_to j a) else refs_to j a))"
  using inv
proof (cases rule: GPArena_Alloc_cases [where g = g])
  case fail
  then show ?thesis using al by simp
next
  case (ok i' a'')
  then have e: "i' = i" "a'' = a'" using al by auto
  note ok = ok [unfolded e]
  note b = arena_inv_base(2) [OF inv, of i]
  have "base_of i (GetNewBaseValue i (hd_base_value (ha_slots a i)))"
    by (rule base_of_new [OF _ b]) (use ok in simp)
  moreover have l2: "live_slots a2 = insert i (live_slots a)" using ok by (simp add: a2_def live_slots_def)
  moreover have "hd_dispatcher (ha_slots a i) = None" using inv ok by (auto simp: arena_inv_def)
  ultimately show ?thesis using ok inv
    by (auto simp: arena_inv_def a2_def refs_to_def new_handle_def ZX_KOID_INVALID_def)
qed

text \<open>A slot is emptied: the arena after \<open>Delete\<close>.\<close>

lemma arena_inv_free:
  assumes inv: "arena_inv a" and i: "i \<in> live_slots a" "hd_process_id (ha_slots a i) = ZX_KOID_INVALID"
    and k: "hd_dispatcher (ha_slots a i) = Some k"
  defines "a2 \<equiv> GPArena_Free i (a\<lparr>ha_slots := (ha_slots a)(i := (ha_slots a i)\<lparr>hd_dispatcher := None\<rparr>)\<rparr>)"
  shows "arena_inv a2 \<and> live_slots a2 = live_slots a - {i} \<and> refs_to j a2 = refs_to j a - {i}"
proof -
  have l: "live_slots a2 = live_slots a - {i}" by (auto simp: a2_def GPArena_Free_def live_slots_def)
  have c: "int (card (live_slots a - {i})) = int (card (live_slots a)) - 1"
    using card_Suc_Diff1 [OF finite_live i(1)] by linarith
  have f: "i < ha_top a" "i \<notin> set (ha_free a)" using i(1) by (auto simp: live_slots_def)
  have "refs_to j a2 = refs_to j a - {i}" by (auto simp: a2_def GPArena_Free_def refs_to_def)
  moreover have "arena_inv a2" using inv i f unfolding arena_inv_def l c
    by (auto simp: a2_def GPArena_Free_def)
  ultimately show ?thesis using l by simp
qed

lemma upd_world_sels [simp]:
  "hw_procs (upd_slot i f w) = hw_procs w" "hw_sys (upd_slot i f w) = hw_sys w" "hw_live (upd_slot i f w) = hw_live w"
  "hw_arena (upd_slot i f w) = (hw_arena w)\<lparr>ha_slots := (ha_slots (hw_arena w))(i := f (slot w i))\<rparr>"
  "hw_procs (upd_ko g w) = hw_procs w" "hw_arena (upd_ko g w) = hw_arena w" "hw_live (upd_ko g w) = hw_live w"
  "hw_sys (upd_ko g w) = (hw_sys w)\<lparr>pd_ko := g (pd_ko (hw_sys w))\<rparr>"
  "hw_procs (upd_proc p h w) = (hw_procs w)(p := h (hw_procs w p))" "hw_arena (upd_proc p h w) = hw_arena w"
  "hw_sys (upd_proc p h w) = hw_sys w" "hw_live (upd_proc p h w) = hw_live w"
  by (simp_all add: upd_slot_def upd_ko_def upd_proc_def)

lemma handle_counts [simp]:
  "obj_handle_count (kw_objs (increment_handle_count k w) j) =
     obj_handle_count (kw_objs w j) + (if j = k then 1 else 0)"
  "obj_handle_count (kw_objs (snd (decrement_handle_count k w)) j) =
     obj_handle_count (kw_objs w j) - (if j = k then 1 else 0)"
  "obj_handle_count (kw_objs (Dispatcher_Cancel k i w) j) = obj_handle_count (kw_objs w j)"
proof -
  have "same_objs w (Dispatcher_Cancel k i w)"
    using same_objs_notify_loop [of "OnCancel i" w k "obj_observers (kw_objs w k)"]
    by (simp add: Dispatcher_Cancel_def CancelWithFunc_def case_prod_beta)
  then show "obj_handle_count (kw_objs (Dispatcher_Cancel k i w) j) = obj_handle_count (kw_objs w j)"
    by (simp add: same_objs_def)
qed (simp_all add: increment_handle_count_def decrement_handle_count_def upd_obj_def)

lemma Handle_Dup_eq:
  assumes "arena_inv (hw_arena w)" "hd_dispatcher (slot w source) = Some k"
  shows "Handle_Dup g source r w = Handle_Make g k r w"
  using assms(1)
proof (cases rule: GPArena_Alloc_cases [where g = g])
  case fail
  then show ?thesis using assms by (simp add: Handle_Dup_def Handle_Make_def Handle_Alloc_def)
next
  case (ok i a')
  then show ?thesis using assms by (simp add: Handle_Dup_def Handle_Make_def Handle_Alloc_def)
qed

text \<open>What \<open>Make\<close> does: nothing when the arena is full, otherwise one slot more with one reference.\<close>

lemma Handle_Make_cases:
  assumes inv: "handle_inv w"
  obtains (fail) "Handle_Make g k r w = (None, w)"
  | (ok) i w' where "Handle_Make g k r w = (Some i, w')" "i \<notin> live_slots (hw_arena w)" "handle_inv w'"
      "live_slots (hw_arena w') = insert i (live_slots (hw_arena w))" "hw_procs w' = hw_procs w"
      "\<forall>j. j \<noteq> i \<longrightarrow> slot w' j = slot w j"
      "slot w' i = new_handle (Some k) r (GetNewBaseValue i (hd_base_value (slot w i)))"
proof -
  have a: "arena_inv (hw_arena w)" using inv by (simp add: handle_inv_def)
  show thesis
    using a
  proof (cases rule: GPArena_Alloc_cases [where g = g])
    case fail
    then have "Handle_Make g k r w = (None, w)" by (simp add: Handle_Make_def Handle_Alloc_def)
    then show thesis by (rule that(1))
  next
    case (ok i a')
    let ?w' = "snd (Handle_Make g k r w)"
    note f = arena_inv_fill [OF a ok(1), of k r]
    have e: "Handle_Make g k r w = (Some i, ?w')" using ok(1) by (simp add: Handle_Make_def Handle_Alloc_def)
    have h: "hw_arena ?w' = a'\<lparr>ha_slots := (ha_slots a')(i := new_handle (Some k) r
        (GetNewBaseValue i (hd_base_value (ha_slots a' i))))\<rparr>" "hw_procs ?w' = hw_procs w" "hw_live ?w' = hw_live w + 1"
      "Handle_Count j ?w' = Handle_Count j w + (if j = k then 1 else 0)" for j
      using ok(1) by (simp_all add: Handle_Make_def Handle_Alloc_def Handle_Count_def)
    have s: "hd_dispatcher (slot w i) = None" "hd_process_id (slot w i) = ZX_KOID_INVALID"
      using a ok(2) by (auto simp: arena_inv_def)
    have "table_inv ?w'" using inv s ok(6) by (auto simp: handle_inv_def table_inv_def h new_handle_def)
    moreover have "i \<notin> refs_to k (hw_arena w)" using s(1) by (simp add: refs_to_def)
    ultimately have "handle_inv ?w'" using inv f finite_refs [OF a]
      by (auto simp: handle_inv_def h)
    then show thesis using f ok(6) by (intro that(2) [OF e ok(2)]) (auto simp: h)
  qed
qed

lemma handle_inv_Make:
  assumes "handle_inv w" shows "handle_inv (snd (Handle_Make g k r w))"
  using assms by (cases rule: Handle_Make_cases [where g = g and k = k and r = r]) (use assms in auto)

section \<open>What a class promises for its last handle\<close>

locale zero_handles_hook =
  fixes on_zero_handles :: "koid \<Rightarrow> peered_sys \<Rightarrow> peered_sys"
  assumes keeps_counts: "obj_handle_count (kw_objs (pd_ko (on_zero_handles k s)) j) = obj_handle_count (kw_objs (pd_ko s) j)"
begin

text \<open>Closing a handle that no process holds: its slot becomes free, its object loses one reference.\<close>

lemma Delete_effect:
  assumes inv: "handle_inv w" and i: "i \<in> live_slots (hw_arena w)" "hd_process_id (slot w i) = ZX_KOID_INVALID"
  defines "w' \<equiv> Handle_Delete on_zero_handles i w"
  shows "handle_inv w' \<and> hw_procs w' = hw_procs w \<and> live_slots (hw_arena w') = live_slots (hw_arena w) - {i}
    \<and> ha_slots (hw_arena w') = (ha_slots (hw_arena w))(i := (slot w i)\<lparr>hd_dispatcher := None\<rparr>)"
proof -
  have a: "arena_inv (hw_arena w)" using inv by (simp add: handle_inv_def)
  obtain k where k: "hd_dispatcher (slot w i) = Some k" using a i(1) by (auto simp: arena_inv_def)
  note f = arena_inv_free [OF a i k]
  have h: "hw_arena w' = GPArena_Free i ((hw_arena w)\<lparr>ha_slots := (ha_slots (hw_arena w))(i := (slot w i)\<lparr>hd_dispatcher := None\<rparr>)\<rparr>)"
    "hw_procs w' = hw_procs w" "hw_live w' = hw_live w - 1"
    "Handle_Count j w' = Handle_Count j w - (if j = k then 1 else 0)" for j
    by (auto simp: w'_def Handle_Delete_def Let_def k TearDown_def Handle_Count_def case_prod_beta keeps_counts)
  have "table_inv w'" using inv i(2) by (auto simp: handle_inv_def table_inv_def h GPArena_Free_def)
  moreover have "i \<in> refs_to k (hw_arena w)" using k by (simp add: refs_to_def)
  moreover have "j \<noteq> k \<Longrightarrow> i \<notin> refs_to j (hw_arena w)" for j using k by (simp add: refs_to_def)
  moreover have "int (card (A - {i})) = int (card A) - 1" if "i \<in> A" "finite A" for A
    using card_Suc_Diff1 [OF that(2,1)] by linarith
  ultimately have "handle_inv w'" using inv f i(1) finite_refs [OF a]
    by (auto simp: handle_inv_def h)
  then show ?thesis using f h by (simp add: GPArena_Free_def)
qed

end

section \<open>Lookup\<close>

text \<open>
  In a state with the invariant, a process finds a handle by exactly the value it was given for
  it: the generation tells the handle from the earlier ones of its slot, the owner from those of
  other processes.
\<close>

lemma live_bounds: "arena_inv a \<Longrightarrow> i \<in> live_slots a \<Longrightarrow> i < ha_top a \<and> i < kMaxHandleCount"
  using arena_inv_free_list [of a] by (auto simp: live_slots_def)

lemma map_value_to_handle_iff:
  assumes a: "arena_inv (hw_arena w)" and m: "take_bit 2 mixer = 0"
  shows "map_value_to_handle v mixer w = Some i \<longleftrightarrow> i < ha_top (hw_arena w) \<and> v = map_handle_to_value i mixer w"
proof -
  let ?b = "hd_base_value (slot w i)" and ?v = "drop_bit 2 (v XOR mixer)"
  have v: "v = map_handle_to_value i mixer w \<longleftrightarrow> v AND mask 2 = mask 2 \<and> ?v = ?b"
    unfolding map_handle_to_value_def handle_masks by (rule value_of_base [OF arena_inv_base(2) [OF a] m])
  have "FromU32 ?v w = Some i \<longleftrightarrow> i < ha_top (hw_arena w) \<and> ?v = ?b"
  proof
    assume "i < ha_top (hw_arena w) \<and> ?v = ?b"
    moreover from this have "unat (?b AND kHandleIndexMask) = i"
      using base_of_index [OF arena_inv_base(1) [OF a]] arena_inv_free_list [OF a] by simp
    ultimately show "FromU32 ?v w = Some i" by (simp add: FromU32_def Let_def GPArena_Committed_def)
  qed (auto simp: FromU32_def Let_def GPArena_Committed_def split: if_splits)
  then show ?thesis using v by (simp add: map_value_to_handle_def handle_masks)
qed

lemma GetHandleLocked_found:
  assumes inv: "handle_inv w" and p: "p \<noteq> ZX_KOID_INVALID"
  shows "GetHandleLocked sp p v w = Some (Some i, w') \<longleftrightarrow>
    w' = w \<and> i \<in> set (ph_handles (hw_procs w p)) \<and> v = MapHandleToValue p i w"
proof -
  have a: "arena_inv (hw_arena w)" and m: "take_bit 2 (ph_rand (hw_procs w p)) = 0"
    and t: "set (ph_handles (hw_procs w p)) = {i. hd_process_id (slot w i) = p}"
    using inv p by (simp_all add: handle_inv_def table_inv_def)
  have "i < ha_top (hw_arena w)" if "hd_process_id (slot w i) = p"
    using a p that live_bounds [OF a] by (auto simp: arena_inv_def)
  then have "map_value_to_handle v (ph_rand (hw_procs w p)) w = Some i \<and> hd_process_id (slot w i) = p \<longleftrightarrow>
      i \<in> set (ph_handles (hw_procs w p)) \<and> v = MapHandleToValue p i w"
    unfolding map_value_to_handle_iff [OF a m] t MapHandleToValue_def by blast
  moreover have "GetHandleLocked sp p v w = Some (Some i, w') \<longleftrightarrow>
      map_value_to_handle v (ph_rand (hw_procs w p)) w = Some i \<and> hd_process_id (slot w i) = p \<and> w' = w"
    by (auto simp: GetHandleLocked_def Let_def split: option.splits if_splits)
  ultimately show ?thesis by blast
qed

text \<open>A lookup that finds nothing changes at most the effects of the policy on the process.\<close>

lemma GetHandleLocked_missing:
  assumes "GetHandleLocked sp p v w = Some (None, w')"
  shows "\<exists>e. w' = upd_proc p (\<lambda>pr. pr\<lparr>ph_effects := e\<rparr>) w"
proof -
  have "w = upd_proc p (\<lambda>pr. pr\<lparr>ph_effects := ph_effects (hw_procs w p)\<rparr>) w" by (simp add: upd_proc_def)
  moreover have "w' = w \<or> (\<exists>e. w' = upd_proc p (\<lambda>pr. pr\<lparr>ph_effects := e\<rparr>) w)" using assms
    by (auto simp: GetHandleLocked_def Let_def split: option.splits if_splits prod.splits)
  ultimately show ?thesis by blast
qed

lemma GetHandleLocked_total:
  assumes "policy_reachable (ph_policy (hw_procs w p))"
  shows "\<exists>r w'. GetHandleLocked sp p v w = Some (r, w')"
proof -
  obtain r e where "EnforceBasicPolicy (ph_policy (hw_procs w p)) ZX_POL_BAD_HANDLE (ph_effects (hw_procs w p)) = Some (r, e)"
    using QueryBasicPolicy_known [OF policy_reachable_known [OF assms], of ZX_POL_BAD_HANDLE]
    by (auto simp: EnforceBasicPolicy_def Let_def zx_defs)
  then show ?thesis by (auto simp: GetHandleLocked_def Let_def split: option.splits)
qed

lemma handle_inv_effects: "handle_inv (upd_proc p (\<lambda>pr. pr\<lparr>ph_effects := e\<rparr>) w) = handle_inv w"
  by (auto simp: handle_inv_def table_inv_def Handle_Count_def split: if_splits)

section \<open>Moves between a process and its owners\<close>

text \<open>Setting the owner of a live slot leaves the arena in order.\<close>

lemma handle_inv_set_process_id:
  assumes a: "arena_inv (hw_arena w)" and i: "i \<in> live_slots (hw_arena w)"
  shows "arena_inv (hw_arena (set_process_id p i w)) \<and> live_slots (hw_arena (set_process_id p i w)) = live_slots (hw_arena w)
    \<and> refs_to k (hw_arena (set_process_id p i w)) = refs_to k (hw_arena w)"
proof -
  let ?a = "hw_arena (set_process_id p i w)"
  have l: "live_slots ?a = live_slots (hw_arena w)" by (simp add: set_process_id_def live_slots_def)
  have "refs_to k ?a = refs_to k (hw_arena w)" by (auto simp: set_process_id_def refs_to_def)
  moreover have "arena_inv ?a" using a i unfolding arena_inv_def l by (auto simp: set_process_id_def)
  ultimately show ?thesis using l by simp
qed

lemma handle_inv_Add:
  assumes inv: "handle_inv w" and i: "i \<in> live_slots (hw_arena w)" "hd_process_id (slot w i) = ZX_KOID_INVALID"
    and p: "p \<noteq> ZX_KOID_INVALID"
  shows "handle_inv (AddHandleLocked p i w)"
proof -
  have a: "arena_inv (hw_arena w)" using inv by (simp add: handle_inv_def)
  note s = handle_inv_set_process_id [OF a i(1), of p]
  have "table_inv (AddHandleLocked p i w)"
    using inv i(2) p by (auto simp: handle_inv_def table_inv_def AddHandleLocked_def set_process_id_def)
  moreover have "Handle_Count k (AddHandleLocked p i w) = Handle_Count k w" "hw_live (AddHandleLocked p i w) = hw_live w" for k
    by (simp_all add: Handle_Count_def AddHandleLocked_def set_process_id_def)
  ultimately show ?thesis using inv s by (simp add: handle_inv_def AddHandleLocked_def)
qed

lemma handle_inv_Remove:
  assumes inv: "handle_inv w" and p: "p \<noteq> ZX_KOID_INVALID" and i: "i \<in> set (ph_handles (hw_procs w p))"
  shows "handle_inv (RemoveHandleLocked p i w) \<and> live_slots (hw_arena (RemoveHandleLocked p i w)) = live_slots (hw_arena w)
    \<and> i \<in> live_slots (hw_arena w) \<and> hd_process_id (slot (RemoveHandleLocked p i w) i) = ZX_KOID_INVALID"
proof -
  have a: "arena_inv (hw_arena w)" using inv by (simp add: handle_inv_def)
  have pi: "hd_process_id (slot w i) = p" using inv p i by (auto simp: handle_inv_def table_inv_def)
  then have l: "i \<in> live_slots (hw_arena w)" using a p by (auto simp: arena_inv_def)
  note s = handle_inv_set_process_id [OF a l, of ZX_KOID_INVALID]
  have "table_inv (RemoveHandleLocked p i w)"
    using inv pi p by (auto simp: handle_inv_def table_inv_def RemoveHandleLocked_def set_process_id_def)
  moreover have "Handle_Count k (RemoveHandleLocked p i w) = Handle_Count k w" "hw_live (RemoveHandleLocked p i w) = hw_live w" for k
    by (simp_all add: Handle_Count_def RemoveHandleLocked_def set_process_id_def)
  ultimately have "handle_inv (RemoveHandleLocked p i w)" using inv s by (simp add: handle_inv_def RemoveHandleLocked_def)
  then show ?thesis using l s by (simp add: RemoveHandleLocked_def set_process_id_def)
qed

lemma RemoveHandle_cases:
  assumes inv: "handle_inv w" and p: "p \<noteq> ZX_KOID_INVALID" and r: "RemoveHandle p v w = Some (x, w')"
  obtains (missing) e where "x = None" "w' = upd_proc p (\<lambda>pr. pr\<lparr>ph_effects := e\<rparr>) w"
      "\<forall>i\<in>set (ph_handles (hw_procs w p)). v \<noteq> MapHandleToValue p i w"
  | (found) i where "x = Some i" "i \<in> set (ph_handles (hw_procs w p))" "v = MapHandleToValue p i w"
      "w' = RemoveHandleLocked p i w"
proof (cases x)
  case None
  then have g: "GetHandleLocked False p v w = Some (None, w')"
    using r by (auto simp: RemoveHandle_def split: option.splits prod.splits)
  then have "\<forall>i\<in>set (ph_handles (hw_procs w p)). v \<noteq> MapHandleToValue p i w"
    using GetHandleLocked_found [OF inv p, of False v _ w] by auto
  then show ?thesis using missing None GetHandleLocked_missing [OF g] by blast
next
  case (Some i)
  then obtain w1 where g: "GetHandleLocked False p v w = Some (Some i, w1)" "w' = RemoveHandleLocked p i w1"
    using r by (auto simp: RemoveHandle_def split: option.splits prod.splits)
  then show ?thesis using found Some GetHandleLocked_found [OF inv p, of False v i w1] by blast
qed

section \<open>Emptying a table\<close>

lemma fold_set_process_id:
  assumes "arena_inv (hw_arena w)" "set xs \<subseteq> live_slots (hw_arena w)"
  defines "w' \<equiv> fold (set_process_id ZX_KOID_INVALID) xs w"
  shows "arena_inv (hw_arena w') \<and> live_slots (hw_arena w') = live_slots (hw_arena w)
    \<and> (\<forall>k. refs_to k (hw_arena w') = refs_to k (hw_arena w))
    \<and> hw_procs w' = hw_procs w \<and> hw_sys w' = hw_sys w \<and> hw_live w' = hw_live w
    \<and> (\<forall>i. hd_process_id (slot w' i) = (if i \<in> set xs then ZX_KOID_INVALID else hd_process_id (slot w i)))"
  using assms(1,2) unfolding w'_def
proof (induction xs arbitrary: w)
  case (Cons i xs)
  have i: "i \<in> live_slots (hw_arena w)" using Cons.prems(2) by simp
  note s = handle_inv_set_process_id [OF Cons.prems(1) i, of ZX_KOID_INVALID]
  have "set xs \<subseteq> live_slots (hw_arena (set_process_id ZX_KOID_INVALID i w))" using Cons.prems(2) s by auto
  from Cons.IH [OF _ this] s show ?case by (simp add: set_process_id_def)
qed simp

context zero_handles_hook
begin

lemma delete_all_effect:
  assumes "handle_inv w" "distinct xs" "\<forall>i\<in>set xs. i \<in> live_slots (hw_arena w) \<and> hd_process_id (slot w i) = ZX_KOID_INVALID"
  shows "handle_inv (delete_all on_zero_handles xs w) \<and> hw_procs (delete_all on_zero_handles xs w) = hw_procs w
    \<and> live_slots (hw_arena (delete_all on_zero_handles xs w)) = live_slots (hw_arena w) - set xs
    \<and> (\<forall>i. hd_process_id (slot (delete_all on_zero_handles xs w) i) = hd_process_id (slot w i))"
  using assms
proof (induction xs arbitrary: w)
  case (Cons i xs)
  have i: "i \<in> live_slots (hw_arena w)" "hd_process_id (slot w i) = ZX_KOID_INVALID" using Cons.prems(3) by auto
  note d = Delete_effect [OF Cons.prems(1) i]
  have "\<forall>j\<in>set xs. j \<in> live_slots (hw_arena (Handle_Delete on_zero_handles i w))
      \<and> hd_process_id (slot (Handle_Delete on_zero_handles i w) j) = ZX_KOID_INVALID"
    using Cons.prems(2,3) d by auto
  from Cons.IH [OF _ _ this] d Cons.prems(2) show ?case by auto
qed simp

lemma clean_handle_table_effect:
  assumes inv: "handle_inv w" and p: "p \<noteq> ZX_KOID_INVALID"
  defines "w' \<equiv> clean_handle_table on_zero_handles p w"
  shows "handle_inv w' \<and> ph_handles (hw_procs w' p) = [] \<and> (\<forall>q. q \<noteq> p \<longrightarrow> hw_procs w' q = hw_procs w q)
    \<and> live_slots (hw_arena w') = live_slots (hw_arena w) - set (ph_handles (hw_procs w p))"
proof -
  let ?xs = "ph_handles (hw_procs w p)"
  let ?w1 = "fold (set_process_id ZX_KOID_INVALID) ?xs w"
  let ?w2 = "upd_proc p (\<lambda>pr. pr\<lparr>ph_handles := []\<rparr>) ?w1"
  have a: "arena_inv (hw_arena w)" using inv by (simp add: handle_inv_def)
  have t: "set ?xs = {i. hd_process_id (slot w i) = p}" "distinct ?xs"
    using inv p by (simp_all add: handle_inv_def table_inv_def)
  have l: "set ?xs \<subseteq> live_slots (hw_arena w)" using a p t by (auto simp: arena_inv_def)
  note f = fold_set_process_id [OF a l]
  have "table_inv ?w2" using inv f t p unfolding handle_inv_def table_inv_def by auto
  then have "handle_inv ?w2" using inv f by (simp add: handle_inv_def Handle_Count_def)
  moreover have "\<forall>i\<in>set ?xs. i \<in> live_slots (hw_arena ?w2) \<and> hd_process_id (slot ?w2 i) = ZX_KOID_INVALID"
    using f l by auto
  ultimately have d: "handle_inv w' \<and> hw_procs w' = hw_procs ?w2 \<and> live_slots (hw_arena w') = live_slots (hw_arena ?w2) - set ?xs"
    using delete_all_effect [OF _ t(2), of ?w2] by (simp add: w'_def clean_handle_table_def Let_def)
  show ?thesis using d f by simp
qed

lemma RemoveHandles_loop_inv:
  assumes "handle_inv w" "p \<noteq> ZX_KOID_INVALID" "RemoveHandles_loop on_zero_handles p vs st w = Some (st', w')"
  shows "handle_inv w'"
  using assms
proof (induction vs arbitrary: st w)
  case (Cons v vs)
  show ?case
  proof (cases "v = ZX_HANDLE_INVALID")
    case False
    then obtain x w1 where r: "RemoveHandle p v w = Some (x, w1)"
      using Cons.prems(3) by (auto split: option.splits)
    from Cons.prems(1,2) r show ?thesis
    proof (cases rule: RemoveHandle_cases)
      case (missing e)
      then have "handle_inv w1" using Cons.prems(1) by (simp add: handle_inv_effects)
      then show ?thesis using Cons False r missing(1) by auto
    next
      case (found i)
      note m = handle_inv_Remove [OF Cons.prems(1,2) found(2)]
      have "handle_inv (Handle_Delete on_zero_handles i w1)" using Delete_effect [of w1 i] m found(4) by simp
      then show ?thesis using Cons False r found(1) by auto
    qed
  qed (use Cons in simp)
qed simp

end

section \<open>Reachable states\<close>

text \<open>
  A step is one operation of the handle code on arguments its callers may pass: a live source for
  \<open>Dup\<close>, an owner held by no process for \<open>Delete\<close> and \<open>AddHandle\<close>, a valid koid for a process. The
  objects change in any way that leaves the handle counts alone.
\<close>

inductive handle_step :: "(koid \<Rightarrow> peered_sys \<Rightarrow> peered_sys) \<Rightarrow> handle_world \<Rightarrow> handle_world \<Rightarrow> bool"
  for zero :: "koid \<Rightarrow> peered_sys \<Rightarrow> peered_sys" where
  make: "handle_step zero w (snd (Handle_Make g k r w))"
| dup: "hd_dispatcher (slot w i) = Some k \<Longrightarrow> handle_step zero w (snd (Handle_Dup g i r w))"
| delete: "i \<in> live_slots (hw_arena w) \<Longrightarrow> hd_process_id (slot w i) = ZX_KOID_INVALID \<Longrightarrow>
    handle_step zero w (Handle_Delete zero i w)"
| add: "i \<in> live_slots (hw_arena w) \<Longrightarrow> hd_process_id (slot w i) = ZX_KOID_INVALID \<Longrightarrow> p \<noteq> ZX_KOID_INVALID \<Longrightarrow>
    handle_step zero w (AddHandleLocked p i w)"
| remove: "p \<noteq> ZX_KOID_INVALID \<Longrightarrow> RemoveHandle p v w = Some (x, w') \<Longrightarrow> handle_step zero w w'"
| remove_many: "p \<noteq> ZX_KOID_INVALID \<Longrightarrow> RemoveHandles zero p vs w = Some (st, w') \<Longrightarrow> handle_step zero w w'"
| lookup: "GetDispatcherWithRightsImpl is_type p v d sp w = Some (x, w') \<Longrightarrow> handle_step zero w w'"
| dead: "p \<noteq> ZX_KOID_INVALID \<Longrightarrow> handle_step zero w (clean_handle_table zero p w)"
| process: "ph_handles (hw_procs w p) = [] \<Longrightarrow> handle_step zero w (Process_init p secret policy e w)"
| object: "(\<And>k. obj_handle_count (kw_objs (pd_ko s) k) = Handle_Count k w) \<Longrightarrow> handle_step zero w (w\<lparr>hw_sys := s\<rparr>)"

text \<open>At boot the arena is empty memory, no object has a handle and no process has a table.\<close>

definition handle_boot :: "peered_sys \<Rightarrow> job_policy \<Rightarrow> policy_effects \<Rightarrow> handle_world" where
  "handle_boot s policy e =
     \<lparr>hw_sys = s,
      hw_arena = \<lparr>ha_slots = (\<lambda>_. new_handle None 0 0), ha_free = [], ha_top = 0, ha_count = 0\<rparr>,
      hw_procs = (\<lambda>_. \<lparr>ph_rand = 0, ph_handles = [], ph_policy = policy, ph_effects = e\<rparr>),
      hw_live = 0\<rparr>"

definition handle_reachable :: "(koid \<Rightarrow> peered_sys \<Rightarrow> peered_sys) \<Rightarrow> handle_world \<Rightarrow> bool" where
  "handle_reachable zero w \<longleftrightarrow> (\<exists>s policy e. (\<forall>k. obj_handle_count (kw_objs (pd_ko s) k) = 0)
     \<and> (handle_step zero)\<^sup>*\<^sup>* (handle_boot s policy e) w)"

lemma handle_inv_boot:
  assumes "\<forall>k. obj_handle_count (kw_objs (pd_ko s) k) = 0" shows "handle_inv (handle_boot s policy e)"
  using assms by (simp add: handle_inv_def handle_boot_def arena_inv_def table_inv_def live_slots_def refs_to_def
      Handle_Count_def new_handle_def)

context zero_handles_hook
begin

lemma handle_inv_step: "handle_step on_zero_handles w w' \<Longrightarrow> handle_inv w \<Longrightarrow> handle_inv w'"
proof (induction rule: handle_step.induct)
  case (make w g k r)
  then show ?case by (rule handle_inv_Make)
next
  case (dup w i k g r)
  have "Handle_Dup g i r w = Handle_Make g k r w"
    using dup by (intro Handle_Dup_eq) (auto simp: handle_inv_def)
  with dup(2) show ?case by (simp add: handle_inv_Make)
next
  case (remove p v w x w')
  from remove(3,1,2) show ?case
    by (cases rule: RemoveHandle_cases) (use remove handle_inv_effects handle_inv_Remove in auto)
next
  case (lookup is_type p v d sp w x w')
  then have "w' = w \<or> (\<exists>e. w' = upd_proc p (\<lambda>pr. pr\<lparr>ph_effects := e\<rparr>) w)"
    using GetHandleLocked_missing [of sp p v w]
    by (auto simp: GetDispatcherWithRightsImpl_def GetHandleLocked_def Let_def split: option.splits if_splits prod.splits)
  then show ?case using lookup handle_inv_effects by auto
next
  case (process w p secret policy e)
  have "take_bit 2 (push_bit 2 secret) = 0" by (rule bit_word_eqI) (auto simp: bit_simps)
  moreover have "p \<noteq> ZX_KOID_INVALID \<Longrightarrow> {i. hd_process_id (slot w i) = p} = {}"
    using process unfolding handle_inv_def table_inv_def by (metis empty_set)
  ultimately show ?case using process
    by (auto simp: handle_inv_def table_inv_def Process_init_def Handle_Count_def handle_masks)
next
  case (object s w)
  then show ?case by (auto simp: handle_inv_def table_inv_def Handle_Count_def)
qed (simp_all add: Delete_effect handle_inv_Add clean_handle_table_effect RemoveHandles_def RemoveHandles_loop_inv)

lemma handle_reachable_inv:
  assumes "handle_reachable on_zero_handles w" shows "handle_inv w"
proof -
  obtain s policy e where "\<forall>k. obj_handle_count (kw_objs (pd_ko s) k) = 0"
    "(handle_step on_zero_handles)\<^sup>*\<^sup>* (handle_boot s policy e) w"
    using assms by (auto simp: handle_reachable_def)
  from this(2,1) show ?thesis by (induction rule: rtranclp_induct) (auto intro: handle_inv_step handle_inv_boot)
qed

end

section \<open>Removing many handles\<close>

lemma MapHandleToValue_valid:
  assumes "handle_inv w" shows "MapHandleToValue p i w \<noteq> ZX_HANDLE_INVALID"
proof -
  have a: "arena_inv (hw_arena w)" and m: "take_bit 2 (ph_rand (hw_procs w p)) = 0"
    using assms by (simp_all add: handle_inv_def table_inv_def)
  have "MapHandleToValue p i w AND mask 2 = mask 2"
    using value_of_base [OF arena_inv_base(2) [OF a] m, of "MapHandleToValue p i w" i]
    by (simp add: MapHandleToValue_def map_handle_to_value_def handle_masks)
  then show ?thesis by (auto simp: ZX_HANDLE_INVALID_def mask_eq_exp_minus_1)
qed

lemma MapHandleToValue_inj:
  assumes inv: "handle_inv w" and p: "p \<noteq> ZX_KOID_INVALID"
  shows "inj_on (\<lambda>i. MapHandleToValue p i w) (set (ph_handles (hw_procs w p)))"
proof (rule inj_onI)
  fix i j assume ij: "i \<in> set (ph_handles (hw_procs w p))" "j \<in> set (ph_handles (hw_procs w p))"
    "MapHandleToValue p i w = MapHandleToValue p j w"
  then have "GetHandleLocked True p (MapHandleToValue p i w) w = Some (Some i, w)"
    "GetHandleLocked True p (MapHandleToValue p i w) w = Some (Some j, w)"
    by (simp_all add: GetHandleLocked_found [OF inv p])
  then show "i = j" by simp
qed

text \<open>The values that name something, and whether each does so once.\<close>

definition names_ok :: "u32 list \<Rightarrow> u32 set \<Rightarrow> bool" where
  "names_ok vs V \<longleftrightarrow> distinct (filter (\<lambda>v. v \<noteq> ZX_HANDLE_INVALID) vs) \<and> set vs - {ZX_HANDLE_INVALID} \<subseteq> V"

definition same_names :: "koid \<Rightarrow> handle_world \<Rightarrow> handle_world \<Rightarrow> bool" where
  "same_names p w w' \<longleftrightarrow> ph_rand (hw_procs w' p) = ph_rand (hw_procs w p) \<and> ph_policy (hw_procs w' p) = ph_policy (hw_procs w p)
     \<and> (\<forall>i. hd_base_value (slot w' i) = hd_base_value (slot w i))"

lemma same_names_value: "same_names p w w' \<Longrightarrow> MapHandleToValue p i w' = MapHandleToValue p i w"
  by (simp add: same_names_def MapHandleToValue_def map_handle_to_value_def)

definition own_values :: "koid \<Rightarrow> handle_world \<Rightarrow> u32 set" where
  "own_values p w = (\<lambda>i. MapHandleToValue p i w) ` set (ph_handles (hw_procs w p))"

context zero_handles_hook
begin

text \<open>One round: a value that names a handle closes it, another one is reported.\<close>

lemma remove_round:
  assumes inv: "handle_inv w" and p: "p \<noteq> ZX_KOID_INVALID" and pol: "policy_reachable (ph_policy (hw_procs w p))"
  obtains (missing) w1 where "RemoveHandle p v w = Some (None, w1)" "v \<notin> own_values p w"
      "handle_inv w1" "same_names p w w1" "set (ph_handles (hw_procs w1 p)) = set (ph_handles (hw_procs w p))"
  | (found) i w1 where "RemoveHandle p v w = Some (Some i, w1)" "v \<in> own_values p w"
      "handle_inv (Handle_Delete on_zero_handles i w1)" "same_names p w (Handle_Delete on_zero_handles i w1)"
      "set (ph_handles (hw_procs (Handle_Delete on_zero_handles i w1) p)) =
         {j \<in> set (ph_handles (hw_procs w p)). MapHandleToValue p j w \<noteq> v}"
proof -
  obtain y w0 where "GetHandleLocked False p v w = Some (y, w0)" using GetHandleLocked_total [OF pol, of False v] by blast
  then obtain x w1 where r: "RemoveHandle p v w = Some (x, w1)" by (cases y) (auto simp: RemoveHandle_def)
  from inv p r show thesis
  proof (cases rule: RemoveHandle_cases)
    case (missing e)
    show thesis by (rule that(1) [of w1])
        (use missing r inv in \<open>auto simp: handle_inv_effects same_names_def own_values_def\<close>)
  next
    case (found i)
    let ?w2 = "Handle_Delete on_zero_handles i w1"
    note m = handle_inv_Remove [OF inv p found(2)]
    have d: "handle_inv ?w2 \<and> hw_procs ?w2 = hw_procs w1
        \<and> ha_slots (hw_arena ?w2) = (ha_slots (hw_arena w1))(i := (slot w1 i)\<lparr>hd_dispatcher := None\<rparr>)"
      using Delete_effect [of w1 i] m found(4) by simp
    have n: "same_names p w ?w2" using d found(4)
      by (auto simp: same_names_def RemoveHandleLocked_def set_process_id_def)
    have "distinct (ph_handles (hw_procs w p))" using inv p by (simp add: handle_inv_def table_inv_def)
    then have "set (ph_handles (hw_procs ?w2 p)) = set (ph_handles (hw_procs w p)) - {i}"
      using d found(4) by (simp add: RemoveHandleLocked_def set_process_id_def)
    also have "\<dots> = {j \<in> set (ph_handles (hw_procs w p)). MapHandleToValue p j w \<noteq> v}"
      using inj_onD [OF MapHandleToValue_inj [OF inv p]] found(2,3) by auto
    finally show thesis using found d n r by (intro that(2) [of i w1]) (auto simp: own_values_def)
  qed
qed

lemma RemoveHandles_loop_exact:
  assumes "handle_inv w" "p \<noteq> ZX_KOID_INVALID" "policy_reachable (ph_policy (hw_procs w p))"
  shows "\<exists>st' w'. RemoveHandles_loop on_zero_handles p vs st w = Some (st', w')
    \<and> set (ph_handles (hw_procs w' p)) = {i \<in> set (ph_handles (hw_procs w p)). MapHandleToValue p i w \<notin> set vs}
    \<and> (st' = ZX_OK \<longleftrightarrow> st = ZX_OK \<and> names_ok vs (own_values p w))"
  using assms
proof (induction vs arbitrary: st w)
  case Nil
  then show ?case by (simp add: names_ok_def)
next
  case (Cons v vs)
  show ?case
  proof (cases "v = ZX_HANDLE_INVALID")
    case True
    have "{i \<in> set (ph_handles (hw_procs w p)). MapHandleToValue p i w \<notin> set (v # vs)} =
        {i \<in> set (ph_handles (hw_procs w p)). MapHandleToValue p i w \<notin> set vs}"
      using MapHandleToValue_valid [OF Cons.prems(1)] True by auto
    then show ?thesis using Cons.IH [OF Cons.prems, of st] True by (simp add: names_ok_def)
  next
    case False
    from Cons.prems show ?thesis
    proof (cases rule: remove_round [where v = v])
      case (missing w1)
      have pol: "policy_reachable (ph_policy (hw_procs w1 p))" using missing(4) Cons.prems(3) by (simp add: same_names_def)
      have "\<not> names_ok (v # vs) (own_values p w)" using False missing(2) by (auto simp: names_ok_def)
      moreover have "{i \<in> set (ph_handles (hw_procs w p)). MapHandleToValue p i w \<notin> set (v # vs)} =
          {i \<in> set (ph_handles (hw_procs w1 p)). MapHandleToValue p i w1 \<notin> set vs}"
        using missing(2,5) same_names_value [OF missing(4)] by (auto simp: own_values_def)
      ultimately show ?thesis
        using Cons.IH [OF missing(3) Cons.prems(2) pol, of ZX_ERR_BAD_HANDLE] missing(1) False by auto
    next
      case (found i w1)
      let ?w2 = "Handle_Delete on_zero_handles i w1"
      have pol: "policy_reachable (ph_policy (hw_procs ?w2 p))" using found(4) Cons.prems(3) by (simp add: same_names_def)
      have "own_values p ?w2 = own_values p w - {v}"
        using found(5) same_names_value [OF found(4)] by (auto simp: own_values_def)
      then have "names_ok (v # vs) (own_values p w) \<longleftrightarrow> names_ok vs (own_values p ?w2)"
        using False found(2) by (auto simp: names_ok_def)
      moreover have "{i \<in> set (ph_handles (hw_procs w p)). MapHandleToValue p i w \<notin> set (v # vs)} =
          {i \<in> set (ph_handles (hw_procs ?w2 p)). MapHandleToValue p i ?w2 \<notin> set vs}"
        using found(5) same_names_value [OF found(4)] by auto
      ultimately show ?thesis
        using Cons.IH [OF found(3) Cons.prems(2) pol, of st] found(1) False by auto
    qed
  qed
qed

end

text \<open>The classes without data of their own: closing an event pair only updates signals.\<close>

lemma EventPair_close_counts:
  "obj_handle_count (kw_objs (pd_ko (EventPair_close k s)) j) = obj_handle_count (kw_objs (pd_ko s) j)"
  by (simp add: peered_on_zero_handles_def EventPair_on_zero_handles_locked_def EventPair_OnPeerZeroHandlesLocked_def
      update_state_def Let_def split: option.split)

interpretation eventpair_hook: zero_handles_hook EventPair_close
  by unfold_locales (rule EventPair_close_counts)

section \<open>Properties\<close>

text \<open>
  Property C3: handles are capabilities. In every reachable state of the handle table, a lookup by
  a process succeeds exactly when the value is the one under which a handle in that process's own
  table was published, that handle refers to an object of the requested class, and it carries all
  the requested rights; the lookup then returns that object with the handle's rights and changes
  nothing.
\<close>

theorem handle_lookup_exact:
  assumes "zero_handles_hook zero" "handle_reachable zero w" "p \<noteq> ZX_KOID_INVALID"
  shows "GetDispatcherWithRightsImpl is_type p v desired skip_policy w = Some ((ZX_OK, Some (k, r)), w')
    \<longleftrightarrow> w' = w \<and> is_type k
      \<and> (\<exists>i\<in>set (ph_handles (hw_procs w p)). v = MapHandleToValue p i w
           \<and> hd_dispatcher (slot w i) = Some k \<and> hd_rights (slot w i) = r \<and> r AND desired = desired)"
proof -
  have inv: "handle_inv w" by (rule zero_handles_hook.handle_reachable_inv [OF assms(1,2)])
  have d: "\<exists>k. hd_dispatcher (slot w i) = Some k" if "i \<in> set (ph_handles (hw_procs w p))" for i
    using inv assms(3) that by (auto simp: handle_inv_def table_inv_def arena_inv_def)
  have "GetDispatcherWithRightsImpl is_type p v desired skip_policy w = Some ((ZX_OK, Some (k, r)), w') \<longleftrightarrow>
      (\<exists>i. GetHandleLocked skip_policy p v w = Some (Some i, w') \<and> is_type k
         \<and> the (hd_dispatcher (slot w' i)) = k \<and> hd_rights (slot w' i) = r \<and> r AND desired = desired)"
    by (auto simp: GetDispatcherWithRightsImpl_def HasRights_def Let_def split: option.splits if_splits)
  also have "\<dots> \<longleftrightarrow> w' = w \<and> is_type k \<and> (\<exists>i\<in>set (ph_handles (hw_procs w p)). v = MapHandleToValue p i w
      \<and> the (hd_dispatcher (slot w i)) = k \<and> hd_rights (slot w i) = r \<and> r AND desired = desired)"
    unfolding GetHandleLocked_found [OF inv assms(3)] by blast
  finally show ?thesis using d by fastforce
qed

text \<open>
  Property C11: a handle count is exact, and an object hears of its last handle once. In every
  reachable state the count kept in an object is the number of slots that refer to it, and closing
  a handle runs the class's \<^verbatim>\<open>on_zero_handles\<close> exactly when no other handle refers to the object.
\<close>

theorem handle_count_exact:
  assumes "zero_handles_hook zero" "handle_reachable zero w" "hd_dispatcher (slot w i) = Some k"
  shows "Handle_Count k w = int (card {j. hd_dispatcher (slot w j) = Some k})
    \<and> (let ko = pd_ko (hw_sys w);
           ko1 = (if obj_waitable (kw_objs ko k) then Dispatcher_Cancel k i ko else ko);
           s = (hw_sys w)\<lparr>pd_ko := snd (decrement_handle_count k ko1)\<rparr>
       in hw_sys (Handle_Delete zero i w) = (if {j. hd_dispatcher (slot w j) = Some k} = {i} then zero k s else s))"
proof -
  let ?R = "refs_to k (hw_arena w)"
  have inv: "handle_inv w" by (rule zero_handles_hook.handle_reachable_inv [OF assms(1,2)])
  then have c: "Handle_Count k w = int (card ?R)" and f: "finite ?R" by (simp_all add: handle_inv_def finite_refs)
  have "i \<in> ?R" using assms(3) by (simp add: refs_to_def)
  then have "card ?R = 1 \<longleftrightarrow> ?R = {i}" by (metis card_1_singletonE is_singletonI is_singleton_altdef singletonD)
  then have "Handle_Count k w = 1 \<longleftrightarrow> {j. hd_dispatcher (slot w j) = Some k} = {i}" using c by (simp add: refs_to_def)
  then show ?thesis using c assms(3)
    by (simp add: Handle_Delete_def Let_def TearDown_def decrement_handle_count_def Handle_Count_def refs_to_def)
qed


text \<open>
  Property C28: closing many handles at once. In a reachable state, for a process whose policy was
  built by the policy code, the call always finishes; afterwards the table holds exactly the
  handles none of whose values were named, even when some names were bad; and the status is
  \<^verbatim>\<open>ZX_OK\<close> exactly when, invalid handles apart, every value named a handle of the process and none
  was given twice.
\<close>

theorem remove_handles_exact:
  assumes "zero_handles_hook zero" "handle_reachable zero w" "p \<noteq> ZX_KOID_INVALID"
    and "policy_reachable (ph_policy (hw_procs w p))"
  shows "\<exists>st w'. RemoveHandles zero p vs w = Some (st, w')
    \<and> set (ph_handles (hw_procs w' p)) = {i \<in> set (ph_handles (hw_procs w p)). MapHandleToValue p i w \<notin> set vs}
    \<and> (st = ZX_OK \<longleftrightarrow> distinct (filter (\<lambda>v. v \<noteq> ZX_HANDLE_INVALID) vs)
         \<and> set vs - {ZX_HANDLE_INVALID} \<subseteq> (\<lambda>i. MapHandleToValue p i w) ` set (ph_handles (hw_procs w p)))"
  using zero_handles_hook.RemoveHandles_loop_exact
      [OF assms(1) zero_handles_hook.handle_reachable_inv [OF assms(1,2)] assms(3,4), of vs ZX_OK]
  by (simp add: RemoveHandles_def names_ok_def own_values_def)

section \<open>Witnesses\<close>

text \<open>A process with koid 7 that holds one handle, in slot 0, to the object with koid 8.\<close>

definition handle_example :: handle_world where
  "handle_example =
     (let ko = (kobj_init (\<lambda>_. 0) (\<lambda>_. True) (\<lambda>_. 0) (\<lambda>p. p) (sched_init int))\<lparr>kw_objs := (\<lambda>_. new_dispatcher 0)\<rparr>;
          e = \<lparr>pe_exceptions = 0, pe_killed = False, pe_counters = \<lparr>counters_deny = (\<lambda>_. 0), counters_kill = (\<lambda>_. 0)\<rparr>\<rparr>;
          w0 = handle_boot \<lparr>pd_ko = ko, pd_peer = (\<lambda>_. None)\<rparr> CreateRootPolicy e
      in AddHandleLocked 7 0 (snd (Handle_Make True 8 3 (Process_init 7 5 CreateRootPolicy e w0))))"

lemmas handle_eval = handle_boot_def Process_init_def Handle_Make_def Handle_Alloc_def GPArena_Alloc_def
  AddHandleLocked_def set_process_id_def upd_slot_def upd_proc_def upd_ko_def new_handle_def ZX_KOID_INVALID_def
  kMaxHandleCount_def GetNewBaseValue_def kHandleGenerationShift_def kHandleGenerationMask_def kHandleIndexMask_def
  kHandleReservedBitsMask_def kHandleReservedBits_def kHandleMustBeOneMask_def

lemma handle_example_facts:
  "hw_procs handle_example 7 = \<lparr>ph_rand = 20, ph_handles = [0], ph_policy = CreateRootPolicy,
     ph_effects = \<lparr>pe_exceptions = 0, pe_killed = False, pe_counters = \<lparr>counters_deny = (\<lambda>_. 0), counters_kill = (\<lambda>_. 0)\<rparr>\<rparr>\<rparr>"
  "slot handle_example 0 = \<lparr>hd_process_id = 7, hd_dispatcher = Some 8, hd_rights = 3, hd_base_value = 262144\<rparr>"
  "hd_dispatcher (slot handle_example (Suc j)) = None"
  "MapHandleToValue 7 0 handle_example = 1048599"
  "ha_top (hw_arena handle_example) = 1" "ha_free (hw_arena handle_example) = []"
  by (simp_all add: handle_example_def Let_def handle_eval MapHandleToValue_def map_handle_to_value_def push_bit_eq_mult)

lemma handle_example_reachable: "handle_reachable EventPair_close handle_example"
proof -
  define ko where "ko = (kobj_init (\<lambda>_. 0) (\<lambda>_. True) (\<lambda>_. 0) (\<lambda>p. p) (sched_init int))\<lparr>kw_objs := (\<lambda>_. new_dispatcher 0)\<rparr>"
  define e :: policy_effects where "e = \<lparr>pe_exceptions = 0, pe_killed = False, pe_counters = \<lparr>counters_deny = (\<lambda>_. 0), counters_kill = (\<lambda>_. 0)\<rparr>\<rparr>"
  define w0 where "w0 = handle_boot \<lparr>pd_ko = ko, pd_peer = (\<lambda>_. None)\<rparr> CreateRootPolicy e"
  define w1 where "w1 = Process_init 7 5 CreateRootPolicy e w0"
  define w2 where "w2 = snd (Handle_Make True 8 3 w1)"
  have 1: "handle_step EventPair_close w0 w1" unfolding w1_def by (rule process) (simp add: w0_def handle_boot_def)
  have 2: "handle_step EventPair_close w1 w2" unfolding w2_def by (rule make)
  have 3: "handle_step EventPair_close w2 (AddHandleLocked 7 0 w2)"
    by (rule add) (simp_all add: w2_def w1_def w0_def handle_eval live_slots_def)
  have "(handle_step EventPair_close)\<^sup>*\<^sup>* w0 (AddHandleLocked 7 0 w2)" using 1 2 3 by (meson converse_rtranclp_into_rtranclp r_into_rtranclp)
  moreover have "handle_example = AddHandleLocked 7 0 w2"
    unfolding handle_example_def w2_def w1_def w0_def ko_def e_def Let_def by (rule refl)
  ultimately show ?thesis unfolding handle_reachable_def
    by (intro exI [of _ "\<lparr>pd_ko = ko, pd_peer = (\<lambda>_. None)\<rparr>"] exI [of _ CreateRootPolicy] exI [of _ e])
      (simp add: w0_def ko_def new_dispatcher_def)
qed

theorem handle_lookup_exact_witness:
  "GetDispatcherWithRightsImpl (\<lambda>_. True) 7 1048599 1 True handle_example = Some ((ZX_OK, Some (8, 3)), handle_example)"
  using handle_lookup_exact [OF eventpair_hook.zero_handles_hook_axioms handle_example_reachable, of 7 "\<lambda>_. True" 1048599 1 True 8 3]
  by (simp add: handle_example_facts ZX_KOID_INVALID_def)

theorem handle_count_exact_witness:
  "Handle_Count 8 handle_example = 1 \<and>
   (let ko = pd_ko (hw_sys handle_example);
        ko1 = (if obj_waitable (kw_objs ko 8) then Dispatcher_Cancel 8 0 ko else ko);
        s = (hw_sys handle_example)\<lparr>pd_ko := snd (decrement_handle_count 8 ko1)\<rparr>
    in hw_sys (Handle_Delete EventPair_close 0 handle_example) = EventPair_close 8 s)"
proof -
  have "{j. hd_dispatcher (slot handle_example j) = Some 8} = {0}"
  proof -
    have "hd_dispatcher (slot handle_example j) = Some 8 \<longleftrightarrow> j = 0" for j
      by (cases j) (simp_all add: handle_example_facts)
    then show ?thesis by auto
  qed
  with handle_count_exact [OF eventpair_hook.zero_handles_hook_axioms handle_example_reachable, of 0 8]
  show ?thesis by (simp add: handle_example_facts(2))
qed

text \<open>The handle is closed and a new one is opened: it takes the same slot under another value.\<close>

definition handle_reopened :: handle_world where
  "handle_reopened = AddHandleLocked 7 0 (snd (Handle_Make True 8 3 (Handle_Delete EventPair_close 0 (RemoveHandleLocked 7 0 handle_example))))"

lemma handle_example_remove: "RemoveHandle 7 1048599 handle_example = Some (Some 0, RemoveHandleLocked 7 0 handle_example)"
proof -
  have "handle_inv handle_example" by (rule eventpair_hook.handle_reachable_inv [OF handle_example_reachable])
  then have "GetHandleLocked False 7 1048599 handle_example = Some (Some 0, handle_example)"
    by (simp add: GetHandleLocked_found handle_example_facts ZX_KOID_INVALID_def)
  then show ?thesis by (simp add: RemoveHandle_def)
qed

lemma Handle_Delete_sels:
  "hw_arena (Handle_Delete z i w) =
     GPArena_Free i ((hw_arena w)\<lparr>ha_slots := (ha_slots (hw_arena w))(i := (slot w i)\<lparr>hd_dispatcher := None\<rparr>)\<rparr>)"
  "hw_procs (Handle_Delete z i w) = hw_procs w"
  by (simp_all add: Handle_Delete_def Let_def TearDown_def case_prod_beta)

lemma handle_reopened_facts:
  "hw_procs handle_reopened 7 = hw_procs handle_example 7"
  "hd_base_value (slot handle_reopened 0) = 524288"
  by (simp_all add: handle_reopened_def Handle_Delete_sels RemoveHandleLocked_def GPArena_Free_def handle_eval handle_example_facts)

lemma handle_reopened_reachable: "handle_reachable EventPair_close handle_reopened"
proof -
  let ?w1 = "RemoveHandleLocked 7 0 handle_example"
  let ?w2 = "Handle_Delete EventPair_close 0 ?w1"
  let ?w3 = "snd (Handle_Make True 8 3 ?w2)"
  have 1: "handle_step EventPair_close handle_example ?w1"
    by (rule remove [OF _ handle_example_remove]) (simp add: ZX_KOID_INVALID_def)
  have 2: "handle_step EventPair_close ?w1 ?w2"
    by (rule delete) (simp_all add: RemoveHandleLocked_def set_process_id_def live_slots_def handle_example_facts)
  have 3: "handle_step EventPair_close ?w2 ?w3" by (rule make)
  have 4: "handle_step EventPair_close ?w3 handle_reopened"
    unfolding handle_reopened_def
    by (rule add) (simp_all add: Handle_Delete_sels RemoveHandleLocked_def GPArena_Free_def handle_eval handle_example_facts live_slots_def)
  show ?thesis using handle_example_reachable 1 2 3 4 unfolding handle_reachable_def by (meson rtranclp.rtrancl_into_rtrancl)
qed


theorem remove_handles_exact_witness:
  "\<exists>st w'. RemoveHandles EventPair_close 7 [1048599, 0, 5] handle_example = Some (st, w')
    \<and> set (ph_handles (hw_procs w' 7)) = {} \<and> st \<noteq> ZX_OK"
proof -
  have "{i \<in> set (ph_handles (hw_procs handle_example 7)). MapHandleToValue 7 i handle_example \<notin> set [1048599, 0, 5]} = {}"
    by (auto simp: handle_example_facts)
  with remove_handles_exact [OF eventpair_hook.zero_handles_hook_axioms handle_example_reachable, of 7 "[1048599, 0, 5]"]
  obtain st w' where w: "RemoveHandles EventPair_close 7 [1048599, 0, 5] handle_example = Some (st, w')"
    "set (ph_handles (hw_procs w' 7)) = {}"
    "st = ZX_OK \<longrightarrow> set [1048599, 0, 5] - {ZX_HANDLE_INVALID} \<subseteq> (\<lambda>i. MapHandleToValue 7 i handle_example) ` {0}"
    by (simp only: handle_example_facts(1) policy_reachable.root process_handles.select_convs list.set ZX_KOID_INVALID_def) auto
  have "(5 :: u32) \<in> set [1048599, 0, 5] - {ZX_HANDLE_INVALID}" by (simp add: ZX_HANDLE_INVALID_def)
  then have "st \<noteq> ZX_OK" using w(3) handle_example_facts(4) by auto
  then show ?thesis using w by blast
qed

end
