(* ===== verification/Spec2Isabelle.thy ===== *)
theory Spec2Isabelle
  imports Thread_Life Fifo Region_Space Timer_Queue Socket Channel Handle_Table
begin

text \<open>
  \<^bold>\<open>A verification library for the core of the Zircon kernel.\<close>

  The repository is the Fuchsia tree. The library models kernel code under \<^verbatim>\<open>src/zircon\<close> that has a
  contract worth stating and that can be read in full: the blocking primitives, the life of a thread,
  signals, observers and ports, the peered objects event pair, FIFO, socket and channel, the handle table, the region
  allocator, the job policy, kernel timers, and the time arithmetic they share. Every definition follows a function, a type or a
  loop of the source; the theorems of a theory are about those definitions.

  \<^bold>\<open>Conventions.\<close> A C++ object is a record; objects that point at each other live in a store, a
  total function from identifiers to records, inside one world record that every operation takes
  and returns. A status is a value of \<open>zx_status\<close>; an early return is a branch. A lock held for the
  whole of an operation makes the operation one step; an operation that sleeps is split where it
  gives up the lock, into the part before and the part after the sleep, and an \<^theory_text>\<open>inductive\<close> step
  relation interleaves the parts. Allocation that may fail, the clock and the hardware are arguments.
  Integers whose wrap-around the code relies on are words (\<open>32 word\<close>, \<open>64 word\<close>, signed ones read by
  \<open>sint\<close>); counters that cannot overflow are \<open>nat\<close> or \<open>int\<close>. Debug assertions are not failures:
  the theorems do not use them. A kernel panic is a value (\<open>None\<close>, or a flag of the record).
  User memory is a partial function from offsets to bytes, so that a fault in the middle of a copy
  is an input like any other.

  \<^bold>\<open>The theories.\<close>

  \<^item> \<open>Zx_Prelude\<close>: status codes, word types, object signals, user copies, generic list and bit lemmas.

  \<^item> \<open>Wait_Queue\<close>: \<^verbatim>\<open>kernel/kernel/wait.cc\<close>. Queue heads by priority with lists of equals, blocking,
    waking one and all, moving and re-prioritising a thread. Every reachable state has sorted,
    duplicate-free, correctly counted queues that agree with what threads record; a wake-up takes a
    thread of the highest priority and among those the one that waited longest.

  \<^item> \<open>Semaphore\<close>, \<open>Kernel_Event\<close>: \<^verbatim>\<open>kernel/kernel/semaphore.cc\<close> and \<^verbatim>\<open>event.cc\<close> on the wait queues. The
    count accounts for every post and every granted wait; no wake-up is lost while no wait has timed
    out, and a concrete run shows the wake-up that is lost when one has.

  \<^item> \<open>Thread_Life\<close>: \<^verbatim>\<open>kernel/kernel/thread.cc\<close> and \<^verbatim>\<open>object/thread_dispatcher.cc\<close>: start, suspend, resume,
    kill, exit and exceptions. A thread runs user code exactly when nothing suspends it; the
    life cycle only moves forward; the packed state word is a product of its two parts.

  \<^item> \<open>Kobject\<close>, \<open>Port_Safety\<close>: \<^verbatim>\<open>object/dispatcher.cc\<close>, \<^verbatim>\<open>object/port_dispatcher.cc\<close>,
    \<^verbatim>\<open>object/wait_state_observer.cc\<close>: signal updates, observers and packets. Every observer has exactly one owner through
    firing, cancelling, dequeuing and closing; a signal is delivered once; a closed port leaks no packet.

  \<^item> \<open>Peered\<close>: \<^verbatim>\<open>object/include/object/dispatcher.h\<close> (\<^verbatim>\<open>PeeredDispatcher\<close>) and \<^verbatim>\<open>event_pair_dispatcher.cc\<close>. The locale
    \<open>peered_class\<close> states what a class of paired objects must promise of its two hooks; it is
    interpreted for event pairs, FIFOs, sockets and channels, and gives each that closing one end tells the other.

  \<^item> \<open>Stream_Buffer\<close>, \<open>Fifo\<close>: \<^verbatim>\<open>object/fifo_dispatcher.cc\<close>. The locale \<open>stream_buffer\<close> states what a bounded
    buffer promises of one write and one read, and proves what follows for any sequence of them; the FIFO
    interprets it. The ring with free-running 32 bit indices refines a list of elements, faults included;
    the readable and writable signals say exactly whether the ring is empty or full.

  \<^item> \<open>Mbuf\<close>: \<^verbatim>\<open>object/mbuf.cc\<close>, the buffer chains of sockets. The stream operations interpret \<open>stream_buffer\<close>
    across buffer boundaries and reused buffers; peeking equals reading; a concrete run shows the
    datagram that is cut in two because a freed buffer keeps its packet length.

  \<^item> \<open>Socket\<close>: \<^verbatim>\<open>object/socket_dispatcher.cc\<close> on \<open>Peered\<close> and \<open>Mbuf\<close>. For stream pairs all signals say
    exactly what the chains, thresholds and shutdowns are, as long as user memory does not fault; two
    theorems show the fault that hides data and the writable signal that comes back after a shutdown.

  \<^item> \<open>Channel\<close>: \<^verbatim>\<open>object/channel_dispatcher.cc\<close>: message queues and the call protocol, with a call split
    at its wait. A reply reaches the call it answers whatever else happens, a call finds a transaction
    id, and one theorem shows the refused call after which the thread cannot call again.

  \<^item> \<open>Region_Alloc\<close>, \<open>Region_Space\<close>: \<^verbatim>\<open>system/ulib/region-alloc\<close>. Two trees of available regions and one of
    allocated ones, read as sets of addresses: the trees stay equal and disjoint, adding and subtracting
    are set union and difference, an allocation is aligned, inside free space and exactly removed from
    it, and releasing it restores the space.

  \<^item> \<open>Zx_Time\<close>: \<^verbatim>\<open>zircon/time.h\<close> and \<^verbatim>\<open>kernel/deadline.cc\<close>: all operations equal clamped integer arithmetic.

  \<^item> \<open>Timer_Queue\<close>: \<^verbatim>\<open>kernel/kernel/timer.cc\<close>: a queue of timers and a hardware timer per processor, as a step
    relation over interleaved processors. Queues stay ordered; the hardware is always programmed in time
    for what is queued; a cancellation that has returned leaves no running callback; coalescing keeps a
    timer in its slack window; a tick whose callbacks leave the queue alone returns and has fired exactly
    the timers that are due.

  \<^item> \<open>Job_Policy\<close>: \<^verbatim>\<open>object/job_policy.cc\<close>, with the setters of \<^verbatim>\<open>object/job_dispatcher.cc\<close> and the
    enforcement of \<^verbatim>\<open>object/process_dispatcher.cc\<close>. The packed bits refine a table of actions and
    locks; errors change nothing; locks hold; enforcement of a policy set through documented input is
    total. Three theorems show where the code departs from its documentation.

  \<^item> \<open>Handle_Table\<close>: \<^verbatim>\<open>object/handle.cc\<close>, \<^verbatim>\<open>fbl/gparena.h\<close> and the handle routines of
    \<^verbatim>\<open>object/process_dispatcher.cc\<close>, on top of \<open>Kobject\<close> (a closed handle cancels its observers), \<open>Peered\<close> and
    \<open>Job_Policy\<close> (a bad handle is reported to the policy). The locale \<open>zero_handles_hook\<close> is what the
    table needs of a class when its last handle goes, and event pairs interpret it. A process reaches an object exactly
    through its own handles and their rights, counts are exact, and the value of a closed handle stays
    stale for 4096 uses of its slot.

  \<^bold>\<open>Loops.\<close> Loops over a list are structural recursion. The copy loops of the FIFO are
  \<^theory_text>\<open>partial_function (option)\<close>, and their results are shown to be \<open>Some\<close> on every well-formed FIFO; the same
  holds of the write loop of a buffer chain and of the search for a transaction id; so is the loop of a timer tick, which returns when callbacks leave the queue alone; the
  retry loop of \<open>PortDispatcher_Dequeue\<close> has a termination proof by the length of the packet queue. No
  definition uses fuel.

  \<^bold>\<open>Not modelled.\<close> Owned wait queues and priority inheritance, the scheduler's run queues and
  context switches (assembly and per-architecture code); virtual memory (\<^verbatim>\<open>kernel/vm\<close>: its correctness
  is about page tables and hardware); the hypervisor; interrupt
  objects and user timers (they act in interrupt context and in deferred procedure calls); the buffers of
  message packets; handle cursors; system call entry code, which only checks handles and copies arguments; drivers, file systems,
  the network stacks, the component framework and everything outside \<^verbatim>\<open>src/zircon\<close>; code generated
  from FIDL, which is not in the repository; debug printing and tracing, which change no state a
  theorem speaks of.
\<close>

end
